(* ===== verification/Libchrome_Prelude.thy ===== *)
theory Libchrome_Prelude
  imports Main "HOL-Library.Word" "HOL-Library.Multiset"
begin

text \<open>
  Shared vocabulary of the development: the machine types of the C++ sources, little-endian
  byte images of integers, fixed-size codecs (the layout of packed structs), and the generic
  list facts that several components use.

  \<^item> \<open>byte\<close>, \<open>u32\<close>, \<open>u64\<close>, \<open>usize\<close> stand for \<open>uint8_t\<close>, \<open>uint32_t\<close>,
    \<open>uint64_t\<close> and \<open>size_t\<close> of a 64-bit target.
  \<^item> \<open>le_enc\<close> and \<open>le_dec\<close> are the object representation of an integer on the
    little-endian targets the library is built for.
  \<^item> The locale \<open>codec\<close> is the contract of a fixed-size object representation.  Arrays of
    such objects are read back by \<open>read_array\<close>.
\<close>

type_synonym byte = "8 word"
type_synonym u32 = "32 word"
type_synonym u64 = "64 word"
type_synonym usize = "64 word"

named_theorems codec_simps \<open>unfolding rules of the byte codecs\<close>

section \<open>Lists\<close>

lemma mset_update_swap:
  assumes "i < length xs" and "j < length xs"
  shows "mset ((xs[i := xs ! j])[j := e]) = mset (xs[i := e])"
proof (cases "i = j")
  case True
  then show ?thesis by simp
next
  case False
  let ?ys = "xs[i := e]"
  have "mset (?ys[i := ?ys ! j, j := ?ys ! i]) = mset ?ys"
    using assms by (intro mset_swap) auto
  moreover have "?ys[i := ?ys ! j, j := ?ys ! i] = (xs[i := xs ! j])[j := e]"
    using False assms by (auto simp: list_update_swap)
  ultimately show ?thesis by simp
qed

lemma take_append_length [simp]: "length xs = n \<Longrightarrow> take n (xs @ ys) = xs"
  by simp

lemma drop_append_length [simp]: "length xs = n \<Longrightarrow> drop n (xs @ ys) = ys"
  by simp

section \<open>Narrowing and widening\<close>

lemma ucast_u32_u64 [simp]: "ucast (ucast (n :: u32) :: u64) = n"
  by (rule bit_word_eqI) (auto simp: bit_unsigned_iff)

lemma unat_ucast_u32_u64 [simp]: "unat (ucast (n :: u32) :: u64) = unat n"
  by (simp add: unsigned_ucast_eq take_bit_nat_eq_self unsigned_less [THEN less_le_trans])

lemma unat_ucast_u64_u32: "unat (ucast (n :: u64) :: u32) = unat n mod 2 ^ 32"
  by (simp add: unsigned_ucast_eq take_bit_eq_mod)

section \<open>Little-endian integers\<close>

primrec le_enc :: "nat \<Rightarrow> nat \<Rightarrow> byte list" where
  "le_enc 0 n = []"
| "le_enc (Suc k) n = word_of_nat (n mod 256) # le_enc k (n div 256)"

primrec le_dec :: "byte list \<Rightarrow> nat" where
  "le_dec [] = 0"
| "le_dec (b # bs) = unat b + 256 * le_dec bs"

lemma length_le_enc [simp]: "length (le_enc k n) = k"
  by (induction k arbitrary: n) simp_all

lemma le_dec_enc: "le_dec (le_enc k n) = n mod 256 ^ k"
proof (induction k arbitrary: n)
  case 0
  then show ?case by simp
next
  case (Suc k)
  have "unat (word_of_nat (n mod 256) :: byte) = n mod 256"
    by (simp add: unat_of_nat)
  then show ?case
    by (simp add: Suc.IH mod_mult2_eq)
qed

lemma le_dec_bound: "le_dec bs < 256 ^ length bs"
proof (induction bs)
  case Nil
  then show ?case by simp
next
  case (Cons b bs)
  have "unat b < 256"
    using unsigned_less [of b, where ?'a = nat] by simp
  with Cons show ?case by simp
qed

lemma le_enc_dec: "le_enc (length bs) (le_dec bs) = bs"
proof (induction bs)
  case Nil
  then show ?case by simp
next
  case (Cons b bs)
  have "unat b < 256"
    using unsigned_less [of b, where ?'a = nat] by simp
  with Cons show ?case by simp
qed

section \<open>Fixed-size codecs\<close>

text \<open>
  \<open>dec\<close> reads an object at the front of a buffer, as a pointer cast to a packed struct does;
  what follows the object in the buffer is ignored.
\<close>

definition read_array :: "nat \<Rightarrow> (byte list \<Rightarrow> 'a) \<Rightarrow> nat \<Rightarrow> byte list \<Rightarrow> 'a list" where
  "read_array sz dec n bs = map (\<lambda>i. dec (drop (i * sz) bs)) [0..<n]"

lemma length_read_array [simp]: "length (read_array sz dec n bs) = n"
  by (simp add: read_array_def)

locale codec =
  fixes enc :: "'a \<Rightarrow> byte list"
    and dec :: "byte list \<Rightarrow> 'a"
    and sz :: nat
  assumes length_enc: "length (enc x) = sz"
    and dec_enc: "dec (enc x @ r) = x"
begin

lemma enc_inj: "enc x = enc y \<Longrightarrow> x = y"
  using dec_enc [of x "[]"] dec_enc [of y "[]"] by simp

lemma length_concat_enc: "length (concat (map enc xs)) = length xs * sz"
  by (induction xs) (simp_all add: length_enc)

lemma drop_concat_enc:
  "i < length xs \<Longrightarrow>
     drop (i * sz) (concat (map enc xs) @ r) = enc (xs ! i) @ concat (map enc (drop (Suc i) xs)) @ r"
proof (induction xs arbitrary: i)
  case Nil
  then show ?case by simp
next
  case (Cons x xs)
  then show ?case
    by (cases i) (simp_all add: length_enc)
qed

lemma read_array_enc: "read_array sz dec (length xs) (concat (map enc xs) @ r) = xs"
  by (rule nth_equalityI)
    (simp_all add: read_array_def drop_concat_enc dec_enc del: drop_append)

end

definition enc_u32 :: "u32 \<Rightarrow> byte list" where
  "enc_u32 w = le_enc 4 (unat w)"

definition dec_u32 :: "byte list \<Rightarrow> u32" where
  "dec_u32 bs = word_of_nat (le_dec (take 4 bs))"

definition enc_u64 :: "u64 \<Rightarrow> byte list" where
  "enc_u64 w = le_enc 8 (unat w)"

definition dec_u64 :: "byte list \<Rightarrow> u64" where
  "dec_u64 bs = word_of_nat (le_dec (take 8 bs))"

lemma length_enc_u32 [simp]: "length (enc_u32 w) = 4"
  by (simp add: enc_u32_def)

lemma length_enc_u64 [simp]: "length (enc_u64 w) = 8"
  by (simp add: enc_u64_def)

interpretation u32c: codec enc_u32 dec_u32 4
proof
  fix x :: u32 and r
  have "unat x < 256 ^ 4"
    using unsigned_less [of x, where ?'a = nat] by simp
  then show "dec_u32 (enc_u32 x @ r) = x"
    by (simp add: enc_u32_def dec_u32_def le_dec_enc)
qed simp

interpretation u64c: codec enc_u64 dec_u64 8
proof
  fix x :: u64 and r
  have "unat x < 256 ^ 8"
    using unsigned_less [of x, where ?'a = nat] by simp
  then show "dec_u64 (enc_u64 x @ r) = x"
    by (simp add: enc_u64_def dec_u64_def le_dec_enc)
qed simp

lemmas [codec_simps] = u32c.dec_enc u64c.dec_enc length_enc_u32 length_enc_u64

end
