(* ===== verification/Binary_Heap.thy ===== *)
theory Binary_Heap
  imports Libchrome_Prelude
begin

text \<open>
  Array heaps.  The mojo message queue keeps its messages in a vector ordered by
  \<open>std::push_heap\<close> and \<open>std::pop_heap\<close>; both move a hole through the implicit tree.
  The working array is 1-based (index 0 is not part of the heap): the parent of \<open>i\<close> is
  \<open>i div 2\<close> and its children are \<open>2 * i\<close> and \<open>2 * i + 1\<close>.
  Elements are compared by a key in a linear order; the smallest key is at the root.

  \<^item> \<open>hole_up\<close>, \<open>hole_down\<close>: the two loops.
  \<^item> \<open>push_heap\<close>, \<open>pop_heap\<close>: the library operations on a whole vector.
  \<^item> \<open>heap_ops\<close>: the contract the clients rely on, interpreted on these operations.
\<close>

section \<open>Moving a hole\<close>

function hole_up :: "('a \<Rightarrow> 'k::linorder) \<Rightarrow> 'a list \<Rightarrow> nat \<Rightarrow> 'a \<Rightarrow> 'a list" where
  "hole_up key xs h e =
     (if 2 \<le> h \<and> \<not> key (xs ! (h div 2)) \<le> key e
      then hole_up key (xs[h := xs ! (h div 2)]) (h div 2) e
      else xs[h := e])"
  by pat_completeness auto
termination
  by (relation "measure (\<lambda>(key, xs, h, e). h)") auto

declare hole_up.simps [simp del]

function hole_down :: "('a \<Rightarrow> 'k::linorder) \<Rightarrow> 'a list \<Rightarrow> nat \<Rightarrow> nat \<Rightarrow> 'a list \<times> nat" where
  "hole_down key xs n h =
     (if 0 < h \<and> 2 * h < n
      then (let c = (if key (xs ! (2 * h + 1)) \<le> key (xs ! (2 * h)) then 2 * h + 1 else 2 * h)
            in hole_down key (xs[h := xs ! c]) n c)
      else if 0 < h \<and> 2 * h = n then (xs[h := xs ! (2 * h)], 2 * h)
      else (xs, h))"
  by pat_completeness auto
termination
  by (relation "measure (\<lambda>(key, xs, n, h). n - h)") auto

declare hole_down.simps [simp del]

section \<open>Heap order\<close>

definition heap1 :: "('a \<Rightarrow> 'k::linorder) \<Rightarrow> 'a list \<Rightarrow> nat \<Rightarrow> bool" where
  "heap1 key xs n \<longleftrightarrow> (\<forall>i. 2 \<le> i \<and> i \<le> n \<longrightarrow> key (xs ! (i div 2)) \<le> key (xs ! i))"

text \<open>
  Heap order of an array with a hole at \<open>h\<close>: every edge that does not touch the hole is
  ordered, and the children of the hole are ordered below the parent of the hole.
\<close>

definition holed :: "('a \<Rightarrow> 'k::linorder) \<Rightarrow> 'a list \<Rightarrow> nat \<Rightarrow> nat \<Rightarrow> bool" where
  "holed key xs n h \<longleftrightarrow>
     (\<forall>i. 2 \<le> i \<and> i \<le> n \<and> i \<noteq> h \<and> i div 2 \<noteq> h \<longrightarrow> key (xs ! (i div 2)) \<le> key (xs ! i)) \<and>
     (\<forall>i. 2 \<le> i \<and> i \<le> n \<and> i div 2 = h \<and> 2 \<le> h \<longrightarrow> key (xs ! (h div 2)) \<le> key (xs ! i))"

definition below_hole :: "('a \<Rightarrow> 'k::linorder) \<Rightarrow> 'a list \<Rightarrow> nat \<Rightarrow> nat \<Rightarrow> 'a \<Rightarrow> bool" where
  "below_hole key xs n h e \<longleftrightarrow> (\<forall>i. 2 \<le> i \<and> i \<le> n \<and> i div 2 = h \<longrightarrow> key e \<le> key (xs ! i))"

lemma heap1_holed: "heap1 key xs n \<Longrightarrow> holed key xs n h"
  unfolding heap1_def holed_def
  by (metis div_le_dividend dual_order.trans)

lemma heap1_root_min:
  assumes "heap1 key xs n" and "1 \<le> i" and "i \<le> n"
  shows "key (xs ! 1) \<le> key (xs ! i)"
  using assms(2,3)
proof (induction i rule: less_induct)
  case (less i)
  show ?case
  proof (cases "i = 1")
    case True
    then show ?thesis by simp
  next
    case False
    with less.prems have i: "2 \<le> i" by simp
    then have "key (xs ! 1) \<le> key (xs ! (i div 2))"
      using less by (intro less.IH) auto
    also have "\<dots> \<le> key (xs ! i)"
      using assms(1) i less.prems by (simp add: heap1_def)
    finally show ?thesis .
  qed
qed

subsection \<open>The hole moves up\<close>

lemma hole_up_step:
  "2 \<le> h \<and> \<not> key (xs ! (h div 2)) \<le> key e \<Longrightarrow>
     hole_up key xs h e = hole_up key (xs[h := xs ! (h div 2)]) (h div 2) e"
  by (subst hole_up.simps) (rule if_P)

lemma hole_up_stop:
  "\<not> (2 \<le> h \<and> \<not> key (xs ! (h div 2)) \<le> key e) \<Longrightarrow> hole_up key xs h e = xs[h := e]"
  by (subst hole_up.simps) (rule if_not_P)

lemma length_hole_up [simp]: "length (hole_up key xs h e) = length xs"
proof (induction key xs h e rule: hole_up.induct)
  case (1 key xs h e)
  then show ?case
    by (subst hole_up.simps) simp
qed

lemma mset_hole_up:
  "h < length xs \<Longrightarrow> mset (hole_up key xs h e) = mset (xs[h := e])"
proof (induction key xs h e rule: hole_up.induct)
  case (1 key xs h e)
  show ?case
  proof (cases "2 \<le> h \<and> \<not> key (xs ! (h div 2)) \<le> key e")
    case True
    have "mset (hole_up key (xs[h := xs ! (h div 2)]) (h div 2) e)
        = mset ((xs[h := xs ! (h div 2)])[h div 2 := e])"
      using True "1.prems" by (intro "1.IH") auto
    also have "\<dots> = mset (xs[h := e])"
      using "1.prems" by (intro mset_update_swap) auto
    finally show ?thesis
      by (simp only: hole_up_step [OF True])
  next
    case False
    show ?thesis by (simp only: hole_up_stop [OF False])
  qed
qed

lemma hole_up_nth_0: "1 \<le> h \<Longrightarrow> hole_up key xs h e ! 0 = xs ! 0"
proof (induction key xs h e rule: hole_up.induct)
  case (1 key xs h e)
  show ?case
  proof (cases "2 \<le> h \<and> \<not> key (xs ! (h div 2)) \<le> key e")
    case True
    then have "hole_up key (xs[h := xs ! (h div 2)]) (h div 2) e ! 0 = xs[h := xs ! (h div 2)] ! 0"
      by (intro "1.IH") auto
    with True show ?thesis by (simp add: hole_up_step [OF True])
  next
    case False
    show ?thesis using "1.prems" by (simp add: hole_up_stop [OF False])
  qed
qed

lemma holed_fill:
  assumes "holed key xs n h" and "below_hole key xs n h e" and "h < length xs"
    and "2 \<le> h \<Longrightarrow> key (xs ! (h div 2)) \<le> key e"
  shows "heap1 key (xs[h := e]) n"
  unfolding heap1_def
proof (intro allI impI)
  fix i
  assume i: "2 \<le> i \<and> i \<le> n"
  then have ne: "i \<noteq> i div 2" by auto
  consider "i = h" | "i \<noteq> h" "i div 2 = h" | "i \<noteq> h" "i div 2 \<noteq> h" by blast
  then show "key (xs[h := e] ! (i div 2)) \<le> key (xs[h := e] ! i)"
    using assms i ne by cases (auto simp: holed_def below_hole_def nth_list_update)
qed

lemma holed_move_up:
  assumes "holed key xs n h" and "below_hole key xs n h e" and "2 \<le> h" and "h \<le> n"
    and "n < length xs" and "key e < key (xs ! (h div 2))"
  defines "ys \<equiv> xs[h := xs ! (h div 2)]"
  shows "holed key ys n (h div 2)" and "below_hole key ys n (h div 2) e"
proof -
  let ?p = "h div 2"
  have p: "?p < h" "1 \<le> ?p" "h < length xs" using assms by auto
  have nth: "\<And>i. ys ! i = (if i = h then xs ! ?p else xs ! i)"
    using p by (auto simp: ys_def nth_list_update)
  have edge: "\<And>i. 2 \<le> i \<Longrightarrow> i \<le> n \<Longrightarrow> i \<noteq> h \<Longrightarrow> i div 2 \<noteq> h \<Longrightarrow> key (xs ! (i div 2)) \<le> key (xs ! i)"
    and skip: "\<And>i. 2 \<le> i \<Longrightarrow> i \<le> n \<Longrightarrow> i div 2 = h \<Longrightarrow> key (xs ! ?p) \<le> key (xs ! i)"
    using assms(1,3) by (auto simp: holed_def)
  show "holed key ys n ?p"
    unfolding holed_def
  proof (intro conjI allI impI)
    fix i
    assume "2 \<le> i \<and> i \<le> n \<and> i \<noteq> ?p \<and> i div 2 \<noteq> ?p"
    then show "key (ys ! (i div 2)) \<le> key (ys ! i)"
      using edge skip by (cases "i = h"; cases "i div 2 = h") (auto simp: nth)
  next
    fix i
    assume i: "2 \<le> i \<and> i \<le> n \<and> i div 2 = ?p \<and> 2 \<le> ?p"
    have up: "key (xs ! (?p div 2)) \<le> key (xs ! ?p)"
      using i assms(4) p by (intro edge) auto
    have "key (xs ! ?p) \<le> key (xs ! i)" if "i \<noteq> h"
      using edge [of i] i p that by auto
    then show "key (ys ! (?p div 2)) \<le> key (ys ! i)"
      using up p by (auto simp: nth intro: order_trans)
  qed
  show "below_hole key ys n ?p e"
    unfolding below_hole_def
  proof (intro allI impI)
    fix i
    assume i: "2 \<le> i \<and> i \<le> n \<and> i div 2 = ?p"
    have "key (xs ! ?p) \<le> key (xs ! i)" if "i \<noteq> h"
      using edge [of i] i p that by auto
    then show "key e \<le> key (ys ! i)"
      using assms(6) by (auto simp: nth intro: order_trans)
  qed
qed

lemma heap1_hole_up:
  assumes "holed key xs n h" and "below_hole key xs n h e" and "1 \<le> h" and "h \<le> n" and "n < length xs"
  shows "heap1 key (hole_up key xs h e) n"
  using assms
proof (induction key xs h e rule: hole_up.induct)
  case (1 key xs h e)
  show ?case
  proof (cases "2 \<le> h \<and> \<not> key (xs ! (h div 2)) \<le> key e")
    case True
    let ?ys = "xs[h := xs ! (h div 2)]"
    have "holed key ?ys n (h div 2)" and "below_hole key ?ys n (h div 2) e"
      using holed_move_up [of key xs n h e] "1.prems" True by (auto simp: not_le)
    then have "heap1 key (hole_up key ?ys (h div 2) e) n"
      using True "1.prems" by (intro "1.IH") auto
    then show ?thesis by (simp only: hole_up_step [OF True])
  next
    case False
    then have "heap1 key (xs[h := e]) n"
      using "1.prems" by (intro holed_fill) auto
    then show ?thesis by (simp only: hole_up_stop [OF False])
  qed
qed

subsection \<open>The hole moves down\<close>

text \<open>The child that fills the hole: the one with the smaller key.\<close>

definition small_child :: "('a \<Rightarrow> 'k::linorder) \<Rightarrow> 'a list \<Rightarrow> nat \<Rightarrow> nat" where
  "small_child key xs h =
     (if key (xs ! (2 * h + 1)) \<le> key (xs ! (2 * h)) then 2 * h + 1 else 2 * h)"

lemma small_child_cases: "small_child key xs h = 2 * h \<or> small_child key xs h = 2 * h + 1"
  by (simp add: small_child_def)

lemma small_child_least:
  assumes "i div 2 = h"
  shows "key (xs ! small_child key xs h) \<le> key (xs ! i)"
proof -
  have "i = 2 * h \<or> i = 2 * h + 1" using assms by auto
  then show ?thesis by (auto simp: small_child_def)
qed

lemma hole_down_step:
  "0 < h \<Longrightarrow> 2 * h < n \<Longrightarrow>
     hole_down key xs n h = hole_down key (xs[h := xs ! small_child key xs h]) n (small_child key xs h)"
  by (subst hole_down.simps) (simp add: small_child_def Let_def)

lemma hole_down_last:
  "0 < h \<Longrightarrow> 2 * h = n \<Longrightarrow> hole_down key xs n h = (xs[h := xs ! (2 * h)], 2 * h)"
  by (subst hole_down.simps) simp

lemma hole_down_leaf: "n < 2 * h \<Longrightarrow> hole_down key xs n h = (xs, h)"
  by (subst hole_down.simps) simp

lemma length_hole_down: "length (fst (hole_down key xs n h)) = length xs"
proof (induction key xs n h rule: hole_down.induct)
  case (1 key xs n h)
  then show ?case by (subst hole_down.simps) (auto simp: Let_def)
qed

lemma holed_move_down:
  assumes "holed key xs n h" and "1 \<le> h" and "c div 2 = h" and "c \<le> n" and "n < length xs"
    and least: "\<And>i. i \<le> n \<Longrightarrow> i div 2 = h \<Longrightarrow> key (xs ! c) \<le> key (xs ! i)"
  shows "holed key (xs[h := xs ! c]) n c"
proof -
  have c: "h < c" "2 \<le> c" "h < length xs" using assms by auto
  have nth: "\<And>i. xs[h := xs ! c] ! i = (if i = h then xs ! c else xs ! i)"
    using c by (auto simp: nth_list_update)
  have edge: "\<And>i. 2 \<le> i \<Longrightarrow> i \<le> n \<Longrightarrow> i \<noteq> h \<Longrightarrow> i div 2 \<noteq> h \<Longrightarrow> key (xs ! (i div 2)) \<le> key (xs ! i)"
    and skip: "\<And>i. 2 \<le> i \<Longrightarrow> i \<le> n \<Longrightarrow> i div 2 = h \<Longrightarrow> 2 \<le> h \<Longrightarrow> key (xs ! (h div 2)) \<le> key (xs ! i)"
    using assms(1) by (auto simp: holed_def)
  show ?thesis
    unfolding holed_def
  proof (intro conjI allI impI)
    fix i
    assume i: "2 \<le> i \<and> i \<le> n \<and> i \<noteq> c \<and> i div 2 \<noteq> c"
    show "key (xs[h := xs ! c] ! (i div 2)) \<le> key (xs[h := xs ! c] ! i)"
    proof (cases "i = h")
      case True
      with i have "i div 2 \<noteq> h" "2 \<le> h" by auto
      with True i show ?thesis using skip [of c] c assms(3,4) by (auto simp: nth)
    next
      case False
      then show ?thesis
        using i edge [of i] least [of i] by (cases "i div 2 = h") (auto simp: nth)
    qed
  next
    fix i
    assume i: "2 \<le> i \<and> i \<le> n \<and> i div 2 = c \<and> 2 \<le> c"
    then show "key (xs[h := xs ! c] ! (c div 2)) \<le> key (xs[h := xs ! c] ! i)"
      using edge [of i] c assms(3) by (auto simp: nth)
  qed
qed

lemma hole_down_spec:
  assumes "holed key xs n h" and "1 \<le> h" and "h \<le> n" and "n < length xs"
    and "hole_down key xs n h = (ys, g)"
  shows "holed key ys n g \<and> 1 \<le> g \<and> g \<le> n \<and> n < 2 * g \<and> length ys = length xs \<and>
         ys ! 0 = xs ! 0 \<and> mset (ys[g := e]) = mset (xs[h := e])"
  using assms
proof (induction key xs n h rule: hole_down.induct)
  case (1 key xs n h)
  consider "2 * h < n" | "2 * h = n" | "n < 2 * h" by linarith
  then show ?case
  proof cases
    case 1
    let ?c = "small_child key xs h"
    let ?zs = "xs[h := xs ! ?c]"
    have c: "?c div 2 = h" "?c \<le> n" "1 \<le> ?c" "h \<noteq> 0"
      using small_child_cases [of key xs h] 1 "1.prems"(2) by auto
    have "holed key ?zs n ?c"
      using "1.prems" c small_child_least by (intro holed_move_down) auto
    moreover have "hole_down key ?zs n ?c = (ys, g)"
      using "1.prems" 1 by (simp add: hole_down_step)
    moreover have "mset (?zs[?c := e]) = mset (xs[h := e])"
      using c "1.prems" by (intro mset_update_swap) auto
    ultimately show ?thesis
      using "1.IH" [of ?c] c 1 "1.prems" by (simp add: small_child_def)
  next
    case 2
    have "holed key (xs[h := xs ! (2 * h)]) n (2 * h)"
    proof (rule holed_move_down)
      fix i
      assume "i \<le> n" "i div 2 = h"
      with 2 have "i = 2 * h" by auto
      then show "key (xs ! (2 * h)) \<le> key (xs ! i)" by simp
    qed (use "1.prems" 2 in auto)
    moreover have "mset ((xs[h := xs ! (2 * h)])[2 * h := e]) = mset (xs[h := e])"
      using "1.prems" 2 by (intro mset_update_swap) auto
    ultimately show ?thesis
      using "1.prems" 2 hole_down_last [of h n key xs] by auto
  next
    case 3
    with "1.prems" show ?thesis by (simp add: hole_down_leaf)
  qed
qed

section \<open>push-heap and pop-heap\<close>

text \<open>
  \<open>std::push_heap(first, last)\<close>: the last element of the vector is inserted into the heap
  formed by the others.  \<open>std::pop_heap(first, last)\<close>: the root is moved to the end of the
  vector and the rest is a heap again.  The dummy at index 0 is cut off afterwards.
\<close>

definition push_heap :: "('a \<Rightarrow> 'k::linorder) \<Rightarrow> 'a list \<Rightarrow> 'a list" where
  "push_heap key v =
     (if v = [] then [] else tl (hole_up key (hd v # v) (length v) (last v)))"

definition pop_heap :: "('a \<Rightarrow> 'k::linorder) \<Rightarrow> 'a list \<Rightarrow> 'a list" where
  "pop_heap key v =
     (if length v \<le> 1 then v
      else (let n = length v - 1; e = last v; r = hd v;
                (ys, h) = hole_down key (r # butlast v) n 1
            in tl (hole_up key ys h e) @ [r]))"

lemma length_pop_heap [simp]: "length (pop_heap key v) = length v"
  using length_hole_down [of key "hd v # butlast v" "length v - 1" 1]
  by (auto simp: pop_heap_def Let_def split: prod.splits)

definition is_heap :: "('a \<Rightarrow> 'k::linorder) \<Rightarrow> 'a list \<Rightarrow> bool" where
  "is_heap key v \<longleftrightarrow> (\<forall>i < length v. 0 < i \<longrightarrow> key (v ! ((i - 1) div 2)) \<le> key (v ! i))"

lemma is_heap_heap1: "is_heap key v \<longleftrightarrow> heap1 key (d # v) (length v)"
proof
  assume h: "is_heap key v"
  show "heap1 key (d # v) (length v)"
    unfolding heap1_def
  proof (intro allI impI)
    fix i
    assume i: "2 \<le> i \<and> i \<le> length v"
    then obtain j where j: "i = Suc (Suc j)"
      by (metis add_2_eq_Suc le_Suc_ex)
    have "key (v ! ((Suc j - 1) div 2)) \<le> key (v ! Suc j)"
      using h [unfolded is_heap_def, rule_format, of "Suc j"] i j by simp
    then show "key ((d # v) ! (i div 2)) \<le> key ((d # v) ! i)"
      using j by simp
  qed
next
  assume h: "heap1 key (d # v) (length v)"
  show "is_heap key v"
    unfolding is_heap_def
  proof (intro allI impI)
    fix i
    assume i: "i < length v" "0 < i"
    then obtain j where j: "i = Suc j" by (cases i) auto
    have "key ((d # v) ! (Suc i div 2)) \<le> key ((d # v) ! Suc i)"
      using h [unfolded heap1_def, rule_format, of "Suc i"] i by simp
    then show "key (v ! ((i - 1) div 2)) \<le> key (v ! i)"
      using j by simp
  qed
qed

lemma hole_up_hd:
  assumes "1 \<le> h" and "xs \<noteq> []"
  shows "hole_up key xs h e = xs ! 0 # tl (hole_up key xs h e)"
proof (cases "hole_up key xs h e")
  case Nil
  with assms(2) show ?thesis by (metis length_hole_up length_0_conv)
next
  case (Cons y ys)
  with hole_up_nth_0 [OF assms(1), of key xs e] show ?thesis by simp
qed

lemma is_heap_butlast: "is_heap key v \<Longrightarrow> is_heap key (butlast v)"
  by (auto simp: is_heap_def nth_butlast)

lemma is_heap_hd_min:
  assumes "is_heap key v" and "x \<in> set v"
  shows "key (hd v) \<le> key x"
proof -
  from assms(2) obtain i where i: "i < length v" "v ! i = x"
    by (auto simp: in_set_conv_nth)
  have "key ((hd v # v) ! 1) \<le> key ((hd v # v) ! Suc i)"
    using assms(1) i by (intro heap1_root_min) (auto simp: is_heap_heap1 [of _ _ "hd v"])
  with i assms(2) show ?thesis by (cases v) auto
qed

lemma push_heap_spec:
  assumes "is_heap key v"
  shows "is_heap key (push_heap key (v @ [e]))" and "mset (push_heap key (v @ [e])) = add_mset e (mset v)"
proof -
  let ?w = "v @ [e]" and ?n = "Suc (length v)"
  let ?a = "hd ?w # ?w"
  let ?b = "hole_up key ?a ?n e"
  have base: "heap1 key (hd ?w # v) (length v)"
    using assms by (simp add: is_heap_heap1 [of key v "hd ?w"])
  have edge: "key (?a ! (i div 2)) \<le> key (?a ! i)" if "2 \<le> i" "i \<le> length v" for i
  proof -
    have "key ((hd ?w # v) ! (i div 2)) \<le> key ((hd ?w # v) ! i)"
      using base that by (simp add: heap1_def)
    moreover have "?a ! j = (hd ?w # v) ! j" if "j \<le> length v" for j
      using that by (auto simp: nth_Cons' nth_append)
    ultimately show ?thesis using that by (metis div_le_dividend order_trans)
  qed
  have holed: "holed key ?a ?n ?n"
    unfolding holed_def
  proof (intro conjI allI impI)
    fix i
    assume "2 \<le> i \<and> i \<le> ?n \<and> i \<noteq> ?n \<and> i div 2 \<noteq> ?n"
    then show "key (?a ! (i div 2)) \<le> key (?a ! i)" by (intro edge) auto
  qed auto
  have "heap1 key ?b ?n"
    using holed by (intro heap1_hole_up) (auto simp: below_hole_def)
  moreover have b: "?b = hd ?w # tl ?b"
    using hole_up_hd [of ?n ?a key e] by simp
  ultimately show "is_heap key (push_heap key ?w)"
    by (simp add: push_heap_def is_heap_heap1 [of key _ "hd ?w"] del: list.sel)
  have "mset ?b = mset ?a"
    by (subst mset_hole_up) auto
  then have "mset (tl ?b) = mset ?w"
    by (subst (asm) b) simp
  then show "mset (push_heap key ?w) = add_mset e (mset v)"
    by (simp add: push_heap_def)
qed

lemma pop_heap_spec:
  assumes "is_heap key v" and "v \<noteq> []"
  obtains w where "pop_heap key v = w @ [hd v]" and "is_heap key w" and "mset v = add_mset (hd v) (mset w)"
proof (cases "length v \<le> 1")
  case True
  with assms obtain x where "v = [x]" by (cases v) auto
  then show ?thesis by (intro that [of "[]"]) (simp_all add: pop_heap_def is_heap_def)
next
  case False
  then obtain r u e where v: "v = r # u @ [e]"
    by (cases v; cases "tl v" rule: rev_cases) auto
  let ?n = "Suc (length u)" and ?a = "r # r # u"
  obtain ys h where down: "hole_down key ?a ?n 1 = (ys, h)" by fastforce
  let ?b = "hole_up key ys h e"
  have "is_heap key (r # u)"
    using is_heap_butlast [OF assms(1)] v by simp
  then have "holed key ?a ?n 1"
    using is_heap_heap1 [of key "r # u" r] by (intro heap1_holed) simp
  then have sp: "holed key ys ?n h \<and> 1 \<le> h \<and> h \<le> ?n \<and> ?n < 2 * h \<and> length ys = length ?a \<and>
         ys ! 0 = ?a ! 0 \<and> mset (ys[h := e]) = mset (?a[1 := e])"
    using down by (intro hole_down_spec) auto
  have b_heap: "heap1 key ?b ?n"
    using sp by (intro heap1_hole_up) (auto simp: below_hole_def)
  have "ys \<noteq> []" "1 \<le> h" "ys ! 0 = r" using sp by auto
  then have b: "?b = r # tl ?b" using hole_up_hd [of h ys key e] by simp
  have len: "length (tl ?b) = ?n" using sp by simp
  show ?thesis
  proof (rule that [of "tl ?b"])
    show "pop_heap key v = tl ?b @ [hd v]"
      using down v by (simp add: pop_heap_def butlast_append)
    show "is_heap key (tl ?b)"
      using b_heap by (subst is_heap_heap1 [of _ _ r]) (simp only: len b [symmetric])
    have "mset ?b = mset (?a[1 := e])"
      using sp by (subst mset_hole_up) auto
    then have "mset (tl ?b) = add_mset e (mset u)"
      by (subst (asm) b) simp
    then show "mset v = add_mset (hd v) (mset (tl ?b))"
      using v by simp
  qed
qed

section \<open>The contract of a heap-ordered vector\<close>

text \<open>
  What a client of the heap operations may rely on: which elements the vector holds, that the
  root is least, and that the order is kept.
\<close>

locale heap_ops =
  fixes key :: "'a \<Rightarrow> 'k::linorder"
    and push :: "'a list \<Rightarrow> 'a list"
    and pop :: "'a list \<Rightarrow> 'a list"
    and inv :: "'a list \<Rightarrow> bool"
  assumes inv_Nil: "inv []"
    and inv_push: "inv v \<Longrightarrow> inv (push (v @ [e]))"
    and mset_push: "inv v \<Longrightarrow> mset (push (v @ [e])) = add_mset e (mset v)"
    and last_pop: "inv v \<Longrightarrow> v \<noteq> [] \<Longrightarrow> last (pop v) = hd v"
    and inv_pop: "inv v \<Longrightarrow> v \<noteq> [] \<Longrightarrow> inv (butlast (pop v))"
    and mset_pop: "inv v \<Longrightarrow> v \<noteq> [] \<Longrightarrow> mset v = add_mset (hd v) (mset (butlast (pop v)))"
    and hd_min: "inv v \<Longrightarrow> x \<in> set v \<Longrightarrow> key (hd v) \<le> key x"
begin

lemma push_nonempty: "inv v \<Longrightarrow> push (v @ [e]) \<noteq> []"
  using mset_push [of v e] by auto

lemma length_push: "inv v \<Longrightarrow> length (push (v @ [e])) = Suc (length v)"
  using mset_push [of v e] by (metis size_mset size_add_mset)

lemma length_pop: "inv v \<Longrightarrow> v \<noteq> [] \<Longrightarrow> length v = Suc (length (butlast (pop v)))"
  using mset_pop [of v] by (metis size_mset size_add_mset)

text \<open>An element whose key is below every other key is the root.\<close>

lemma hd_unique:
  assumes "inv v" and "x \<in> set v" and "\<And>y. y \<in> set v \<Longrightarrow> y \<noteq> x \<Longrightarrow> key x < key y"
  shows "hd v = x"
proof (rule ccontr)
  assume "hd v \<noteq> x"
  moreover have "hd v \<in> set v" using assms(2) by (cases v) auto
  ultimately have "key x < key (hd v)" by (intro assms(3))
  with hd_min [OF assms(1,2)] show False by simp
qed

end

interpretation std_heap: heap_ops key "push_heap key" "pop_heap key" "is_heap key"
  for key :: "'a \<Rightarrow> 'k::linorder"
proof
  fix v :: "'a list" and e x
  show "is_heap key []" by (simp add: is_heap_def)
  assume v: "is_heap key v"
  then show "is_heap key (push_heap key (v @ [e]))" and
    "mset (push_heap key (v @ [e])) = add_mset e (mset v)"
    by (rule push_heap_spec)+
  show "x \<in> set v \<Longrightarrow> key (hd v) \<le> key x"
    using v by (rule is_heap_hd_min)
  assume "v \<noteq> []"
  with v obtain w where "pop_heap key v = w @ [hd v]" "is_heap key w" "mset v = add_mset (hd v) (mset w)"
    by (rule pop_heap_spec)
  then show "last (pop_heap key v) = hd v" and "is_heap key (butlast (pop_heap key v))" and
    "mset v = add_mset (hd v) (mset (butlast (pop_heap key v)))"
    by simp_all
qed

end
