(* ===== verification/Port_Event.thy ===== *)
theory Port_Event
  imports Libchrome_Prelude
begin

text \<open>
  Names and events of the mojo ports layer: \<open>mojo/core/ports/name.h\<close>,
  \<open>mojo/core/ports/event.h\<close>, \<open>mojo/core/ports/event.cc\<close> and
  \<open>mojo/core/ports/user_message.h\<close>.

  A subclass of \<open>Event\<close> is a constructor of the datatype \<open>Event\<close>; the wire format is the
  packed-struct layout of \<open>event.cc\<close>, as bytes.  The embedder's message object
  (\<open>UserMessage\<close>, an abstract class) is a record of what its virtual methods return.
\<close>

section \<open>Names\<close>

datatype Name = Name (v1: u64) (v2: u64)

type_synonym PortName = Name
type_synonym NodeName = Name

instantiation Name :: linorder
begin

definition less_Name :: "Name \<Rightarrow> Name \<Rightarrow> bool" where
  "less_Name a b \<longleftrightarrow> v1 a < v1 b \<or> (v1 a = v1 b \<and> v2 a < v2 b)"

definition less_eq_Name :: "Name \<Rightarrow> Name \<Rightarrow> bool" where
  "less_eq_Name a b \<longleftrightarrow> v1 a < v1 b \<or> (v1 a = v1 b \<and> v2 a \<le> v2 b)"

instance
  by standard (auto simp: less_Name_def less_eq_Name_def Name.expand)

end

definition kInvalidPortName :: PortName where
  "kInvalidPortName = Name 0 0"

definition kInvalidNodeName :: NodeName where
  "kInvalidNodeName = Name 0 0"

definition kInitialSequenceNum :: u64 where
  "kInitialSequenceNum = 1"

definition kInvalidSequenceNum :: u64 where
  "kInvalidSequenceNum = - 1"

section \<open>Events\<close>

record PortDescriptor =
  pd_peer_node_name :: NodeName
  pd_peer_port_name :: PortName
  pd_referring_node_name :: NodeName
  pd_referring_port_name :: PortName
  pd_next_sequence_num_to_send :: u64
  pd_next_sequence_num_to_receive :: u64
  pd_last_sequence_num_to_receive :: u64
  pd_peer_closed :: bool
  pd_padding :: "56 word"

text \<open>
  \<open>WillBeRoutedExternally\<close> and \<open>GetSizeIfSerialized\<close> are the answers of the embedder's
  object; \<open>payload\<close> identifies the object.
\<close>

record UserMessage =
  payload :: "byte list"
  WillBeRoutedExternally :: bool
  um_GetSizeIfSerialized :: usize

record UserMessageEvent =
  msg_port_name :: PortName
  seq_num :: u64
  port_descriptors :: "PortDescriptor list"
  msg_ports :: "PortName list"
  message :: "UserMessage option"

datatype Event =
    UserMessageEv UserMessageEvent
  | PortAcceptedEv PortName
  | ObserveProxyEv PortName NodeName PortName NodeName PortName
  | ObserveProxyAckEv PortName u64
  | ObserveClosureEv PortName u64
  | MergePortEv PortName PortName PortDescriptor

text \<open>The value of \<open>Event::Type\<close>, a \<open>uint32_t\<close> enumeration.\<close>

primrec type_of :: "Event \<Rightarrow> u32" where
  "type_of (UserMessageEv m) = 0"
| "type_of (PortAcceptedEv p) = 1"
| "type_of (ObserveProxyEv p a b c d) = 2"
| "type_of (ObserveProxyAckEv p n) = 3"
| "type_of (ObserveClosureEv p n) = 4"
| "type_of (MergePortEv p q d) = 5"

primrec port_name :: "Event \<Rightarrow> PortName" where
  "port_name (UserMessageEv m) = msg_port_name m"
| "port_name (PortAcceptedEv p) = p"
| "port_name (ObserveProxyEv p a b c d) = p"
| "port_name (ObserveProxyAckEv p n) = p"
| "port_name (ObserveClosureEv p n) = p"
| "port_name (MergePortEv p q d) = p"

primrec set_port_name :: "PortName \<Rightarrow> Event \<Rightarrow> Event" where
  "set_port_name n (UserMessageEv m) = UserMessageEv (m\<lparr>msg_port_name := n\<rparr>)"
| "set_port_name n (PortAcceptedEv p) = PortAcceptedEv n"
| "set_port_name n (ObserveProxyEv p a b c d) = ObserveProxyEv n a b c d"
| "set_port_name n (ObserveProxyAckEv p k) = ObserveProxyAckEv n k"
| "set_port_name n (ObserveClosureEv p k) = ObserveClosureEv n k"
| "set_port_name n (MergePortEv p q d) = MergePortEv n q d"

subsection \<open>User messages\<close>

text \<open>
  The accessors \<open>sequence_num()\<close> and \<open>set_sequence_num()\<close> are declared on \<open>uint32_t\<close>
  although the member is a \<open>uint64_t\<close>.
\<close>

definition sequence_num :: "UserMessageEvent \<Rightarrow> u32" where
  "sequence_num m = ucast (seq_num m)"

definition set_sequence_num :: "u32 \<Rightarrow> UserMessageEvent \<Rightarrow> UserMessageEvent" where
  "set_sequence_num n m = m\<lparr>seq_num := ucast n\<rparr>"

definition num_ports :: "UserMessageEvent \<Rightarrow> nat" where
  "num_ports m = length (msg_ports m)"

definition empty_PortDescriptor :: PortDescriptor where
  "empty_PortDescriptor =
     \<lparr>pd_peer_node_name = kInvalidNodeName, pd_peer_port_name = kInvalidPortName,
      pd_referring_node_name = kInvalidNodeName, pd_referring_port_name = kInvalidPortName,
      pd_next_sequence_num_to_send = 0, pd_next_sequence_num_to_receive = 0,
      pd_last_sequence_num_to_receive = 0, pd_peer_closed = False, pd_padding = 0\<rparr>"

definition resize :: "'a \<Rightarrow> nat \<Rightarrow> 'a list \<Rightarrow> 'a list" where
  "resize d n xs = take n xs @ replicate (n - length xs) d"

definition ReservePorts :: "nat \<Rightarrow> UserMessageEvent \<Rightarrow> UserMessageEvent" where
  "ReservePorts n m =
     m\<lparr>port_descriptors := resize empty_PortDescriptor n (port_descriptors m),
       msg_ports := resize (Name 0 0) n (msg_ports m)\<rparr>"

definition new_UserMessageEvent :: "nat \<Rightarrow> UserMessageEvent" where
  "new_UserMessageEvent n =
     ReservePorts n
       \<lparr>msg_port_name = kInvalidPortName, seq_num = 0, port_descriptors = [],
        msg_ports = [], message = None\<rparr>"

definition AttachMessage :: "UserMessage \<Rightarrow> UserMessageEvent \<Rightarrow> UserMessageEvent" where
  "AttachMessage um m = m\<lparr>message := Some um\<rparr>"

text \<open>\<open>None\<close>: the null message object is dereferenced.\<close>

definition NotifyWillBeRoutedExternally :: "UserMessageEvent \<Rightarrow> bool option" where
  "NotifyWillBeRoutedExternally m = map_option WillBeRoutedExternally (message m)"

definition GetSizeIfSerialized :: "UserMessageEvent \<Rightarrow> usize" where
  "GetSizeIfSerialized m =
     (case message m of None \<Rightarrow> 0 | Some um \<Rightarrow> um_GetSizeIfSerialized um)"

lemma length_resize [simp]: "length (resize d n xs) = n"
  by (simp add: resize_def)

lemma set_sequence_num_simps [simp]:
  "msg_ports (set_sequence_num n m) = msg_ports m"
  "port_descriptors (set_sequence_num n m) = port_descriptors m"
  "message (set_sequence_num n m) = message m"
  "msg_port_name (set_sequence_num n m) = msg_port_name m"
  by (simp_all add: set_sequence_num_def)

lemma sequence_num_set [simp]: "sequence_num (set_sequence_num n m) = n"
  by (simp add: sequence_num_def set_sequence_num_def)

section \<open>Wire format\<close>

text \<open>
  Sizes of the packed structs of \<open>event.cc\<close>: \<open>SerializedHeader\<close> 24,
  \<open>UserMessageEventData\<close> 16, \<open>PortDescriptor\<close> 96, \<open>PortName\<close> 16,
  \<open>ObserveProxyEventData\<close> 64, \<open>ObserveProxyAckEventData\<close> and
  \<open>ObserveClosureEventData\<close> 8, \<open>MergePortEventData\<close> 112.
\<close>

definition enc_Name :: "Name \<Rightarrow> byte list" where
  "enc_Name n = enc_u64 (v1 n) @ enc_u64 (v2 n)"

definition dec_Name :: "byte list \<Rightarrow> Name" where
  "dec_Name bs = Name (dec_u64 bs) (dec_u64 (drop 8 bs))"

definition enc_PortDescriptor :: "PortDescriptor \<Rightarrow> byte list" where
  "enc_PortDescriptor d =
     enc_Name (pd_peer_node_name d) @ enc_Name (pd_peer_port_name d) @
     enc_Name (pd_referring_node_name d) @ enc_Name (pd_referring_port_name d) @
     enc_u64 (pd_next_sequence_num_to_send d) @ enc_u64 (pd_next_sequence_num_to_receive d) @
     enc_u64 (pd_last_sequence_num_to_receive d) @
     [if pd_peer_closed d then 1 else 0] @ le_enc 7 (unat (pd_padding d))"

definition dec_PortDescriptor :: "byte list \<Rightarrow> PortDescriptor" where
  "dec_PortDescriptor bs =
     \<lparr>pd_peer_node_name = dec_Name bs,
      pd_peer_port_name = dec_Name (drop 16 bs),
      pd_referring_node_name = dec_Name (drop 32 bs),
      pd_referring_port_name = dec_Name (drop 48 bs),
      pd_next_sequence_num_to_send = dec_u64 (drop 64 bs),
      pd_next_sequence_num_to_receive = dec_u64 (drop 72 bs),
      pd_last_sequence_num_to_receive = dec_u64 (drop 80 bs),
      pd_peer_closed = (take 1 (drop 88 bs) \<noteq> [0]),
      pd_padding = word_of_nat (le_dec (take 7 (drop 89 bs)))\<rparr>"

lemma length_enc_Name [simp]: "length (enc_Name n) = 16"
  by (simp add: enc_Name_def)

lemma length_enc_PortDescriptor [simp]: "length (enc_PortDescriptor d) = 96"
  by (simp add: enc_PortDescriptor_def)

interpretation namec: codec enc_Name dec_Name 16
  by unfold_locales (simp_all add: enc_Name_def dec_Name_def codec_simps)

lemmas [codec_simps] = namec.dec_enc length_enc_Name length_enc_PortDescriptor

lemma dec_padding: "(word_of_nat (le_dec (le_enc 7 (unat w))) :: 56 word) = w"
proof -
  have "unat w < 256 ^ 7"
    using unsigned_less [of w, where ?'a = nat] by simp
  then show ?thesis by (simp add: le_dec_enc)
qed

interpretation pdc: codec enc_PortDescriptor dec_PortDescriptor 96
proof
  fix d :: PortDescriptor and r
  show "dec_PortDescriptor (enc_PortDescriptor d @ r) = d"
    by (simp add: enc_PortDescriptor_def dec_PortDescriptor_def codec_simps dec_padding)
qed simp

subsection \<open>Serialize\<close>

primrec SerializeData :: "Event \<Rightarrow> byte list" where
  "SerializeData (UserMessageEv m) =
     enc_u64 (seq_num m) @ enc_u32 (word_of_nat (length (msg_ports m))) @ enc_u32 0 @
     concat (map enc_PortDescriptor (port_descriptors m)) @ concat (map enc_Name (msg_ports m))"
| "SerializeData (PortAcceptedEv p) = []"
| "SerializeData (ObserveProxyEv p a b c d) = enc_Name a @ enc_Name b @ enc_Name c @ enc_Name d"
| "SerializeData (ObserveProxyAckEv p n) = enc_u64 n"
| "SerializeData (ObserveClosureEv p n) = enc_u64 n"
| "SerializeData (MergePortEv p q d) = enc_Name q @ enc_PortDescriptor d"

definition Serialize :: "Event \<Rightarrow> byte list" where
  "Serialize e = enc_u32 (type_of e) @ enc_u32 0 @ enc_Name (port_name e) @ SerializeData e"

text \<open>
  \<open>CheckedNumeric<size_t>\<close>: a result outside the type is remembered as invalid, and
  \<open>ValueOrDie\<close> of an invalid value ends the process (\<open>None\<close>).
\<close>

definition checked_usize :: "nat \<Rightarrow> nat option" where
  "checked_usize n = (if n < 2 ^ 64 then Some n else None)"

primrec GetSerializedDataSize :: "Event \<Rightarrow> nat option" where
  "GetSerializedDataSize (UserMessageEv m) =
     (case checked_usize ((96 + 16) * length (msg_ports m)) of
        None \<Rightarrow> None
      | Some ports_size \<Rightarrow> checked_usize (16 + ports_size))"
| "GetSerializedDataSize (PortAcceptedEv p) = Some 0"
| "GetSerializedDataSize (ObserveProxyEv p a b c d) = Some 64"
| "GetSerializedDataSize (ObserveProxyAckEv p n) = Some 8"
| "GetSerializedDataSize (ObserveClosureEv p n) = Some 8"
| "GetSerializedDataSize (MergePortEv p q d) = Some 112"

definition GetSerializedSize :: "Event \<Rightarrow> nat option" where
  "GetSerializedSize e =
     (case GetSerializedDataSize e of None \<Rightarrow> None | Some n \<Rightarrow> Some (24 + n))"

subsection \<open>Deserialize\<close>

definition Deserialize_UserMessage :: "PortName \<Rightarrow> byte list \<Rightarrow> Event option" where
  "Deserialize_UserMessage p buf =
     (if length buf < 16 then None
      else (let n = unat (dec_u32 (drop 8 buf)) in
        case checked_usize (n * (96 + 16)) of
          None \<Rightarrow> None
        | Some port_data_size \<Rightarrow>
            (case checked_usize (port_data_size + 16) of
               None \<Rightarrow> None
             | Some total_size \<Rightarrow>
                 if length buf < total_size then None
                 else Some (UserMessageEv
                   \<lparr>msg_port_name = p, seq_num = dec_u64 buf,
                    port_descriptors = read_array 96 dec_PortDescriptor n (drop 16 buf),
                    msg_ports = read_array 16 dec_Name n (drop (16 + n * 96) buf),
                    message = None\<rparr>))))"

definition Deserialize_ObserveProxy :: "PortName \<Rightarrow> byte list \<Rightarrow> Event option" where
  "Deserialize_ObserveProxy p buf =
     (if length buf < 64 then None
      else Some (ObserveProxyEv p (dec_Name buf) (dec_Name (drop 16 buf))
                   (dec_Name (drop 32 buf)) (dec_Name (drop 48 buf))))"

definition Deserialize_ObserveProxyAck :: "PortName \<Rightarrow> byte list \<Rightarrow> Event option" where
  "Deserialize_ObserveProxyAck p buf =
     (if length buf < 8 then None else Some (ObserveProxyAckEv p (dec_u64 buf)))"

definition Deserialize_ObserveClosure :: "PortName \<Rightarrow> byte list \<Rightarrow> Event option" where
  "Deserialize_ObserveClosure p buf =
     (if length buf < 8 then None else Some (ObserveClosureEv p (dec_u64 buf)))"

definition Deserialize_MergePort :: "PortName \<Rightarrow> byte list \<Rightarrow> Event option" where
  "Deserialize_MergePort p buf =
     (if length buf < 112 then None
      else Some (MergePortEv p (dec_Name buf) (dec_PortDescriptor (drop 16 buf))))"

definition Deserialize :: "byte list \<Rightarrow> Event option" where
  "Deserialize buf =
     (if length buf < 24 then None
      else (let t = dec_u32 buf; p = dec_Name (drop 8 buf); d = drop 24 buf in
        if t = 0 then Deserialize_UserMessage p d
        else if t = 1 then Some (PortAcceptedEv p)
        else if t = 2 then Deserialize_ObserveProxy p d
        else if t = 3 then Deserialize_ObserveProxyAck p d
        else if t = 4 then Deserialize_ObserveClosure p d
        else if t = 5 then Deserialize_MergePort p d
        else None))"

primrec Clone :: "Event \<Rightarrow> Event option" where
  "Clone (UserMessageEv m) = None"
| "Clone (PortAcceptedEv p) = None"
| "Clone (ObserveProxyEv p a b c d) = Some (ObserveProxyEv p a b c d)"
| "Clone (ObserveProxyAckEv p n) = Some (ObserveProxyAckEv p n)"
| "Clone (ObserveClosureEv p n) = Some (ObserveClosureEv p n)"
| "Clone (MergePortEv p q d) = None"

section \<open>Correctness of the wire format\<close>

text \<open>
  A user message event is well formed when every attached port has its descriptor and the count
  fits the 32-bit field.  The embedder's message object travels outside the event.
\<close>

primrec wf_Event :: "Event \<Rightarrow> bool" where
  "wf_Event (UserMessageEv m) \<longleftrightarrow>
     length (port_descriptors m) = length (msg_ports m) \<and> length (msg_ports m) < 2 ^ 32"
| "wf_Event (PortAcceptedEv p) \<longleftrightarrow> True"
| "wf_Event (ObserveProxyEv p a b c d) \<longleftrightarrow> True"
| "wf_Event (ObserveProxyAckEv p n) \<longleftrightarrow> True"
| "wf_Event (ObserveClosureEv p n) \<longleftrightarrow> True"
| "wf_Event (MergePortEv p q d) \<longleftrightarrow> True"

primrec without_message :: "Event \<Rightarrow> Event" where
  "without_message (UserMessageEv m) = UserMessageEv (m\<lparr>message := None\<rparr>)"
| "without_message (PortAcceptedEv p) = PortAcceptedEv p"
| "without_message (ObserveProxyEv p a b c d) = ObserveProxyEv p a b c d"
| "without_message (ObserveProxyAckEv p n) = ObserveProxyAckEv p n"
| "without_message (ObserveClosureEv p n) = ObserveClosureEv p n"
| "without_message (MergePortEv p q d) = MergePortEv p q d"

lemmas Deserialize_defs =
  Deserialize_UserMessage_def Deserialize_ObserveProxy_def Deserialize_ObserveProxyAck_def
  Deserialize_ObserveClosure_def Deserialize_MergePort_def

lemma length_Serialize_UserMessage:
  assumes "wf_Event (UserMessageEv m)"
  shows "length (Serialize (UserMessageEv m)) = 40 + 112 * length (msg_ports m)"
  using assms
  by (simp add: Serialize_def pdc.length_concat_enc namec.length_concat_enc
        del: length_concat)

lemma length_Serialize:
  assumes "wf_Event e"
  shows "GetSerializedSize e = Some (length (Serialize e))"
proof (cases e)
  case (UserMessageEv m)
  with assms have "length (msg_ports m) < 2 ^ 32" by simp
  then have "16 + 112 * length (msg_ports m) < 2 ^ 64" by simp
  then show ?thesis
    using assms UserMessageEv
    by (simp add: GetSerializedSize_def checked_usize_def length_Serialize_UserMessage)
qed (simp_all add: GetSerializedSize_def Serialize_def)

lemma Deserialize_header:
  "Deserialize (Serialize e @ r) =
     (if type_of e = 0 then Deserialize_UserMessage (port_name e) (SerializeData e @ r)
      else if type_of e = 1 then Some (PortAcceptedEv (port_name e))
      else if type_of e = 2 then Deserialize_ObserveProxy (port_name e) (SerializeData e @ r)
      else if type_of e = 3 then Deserialize_ObserveProxyAck (port_name e) (SerializeData e @ r)
      else if type_of e = 4 then Deserialize_ObserveClosure (port_name e) (SerializeData e @ r)
      else if type_of e = 5 then Deserialize_MergePort (port_name e) (SerializeData e @ r)
      else None)"
  by (simp add: Deserialize_def Serialize_def Let_def codec_simps)

lemma Deserialize_UserMessage_SerializeData:
  assumes "wf_Event (UserMessageEv m)"
  shows "Deserialize_UserMessage p (SerializeData (UserMessageEv m) @ r)
       = Some (UserMessageEv (m\<lparr>msg_port_name := p, message := None\<rparr>))"
proof -
  let ?n = "length (msg_ports m)"
  let ?D = "concat (map enc_PortDescriptor (port_descriptors m))"
  let ?P = "concat (map enc_Name (msg_ports m))"
  let ?buf = "SerializeData (UserMessageEv m) @ r"
  have n: "?n < 2 ^ 32" and len: "length (port_descriptors m) = ?n" using assms by simp_all
  have buf: "?buf = enc_u64 (seq_num m) @ enc_u32 (word_of_nat ?n) @ enc_u32 0 @ ?D @ ?P @ r"
    by simp
  have lD: "length ?D = ?n * 96" and lP: "length ?P = ?n * 16"
    using len by (simp_all add: pdc.length_concat_enc namec.length_concat_enc del: length_concat)
  have cnt: "unat (dec_u32 (drop 8 ?buf)) = ?n"
    using n unfolding buf by (simp add: codec_simps unat_of_nat take_bit_nat_eq_self)
  have seq: "dec_u64 ?buf = seq_num m"
    unfolding buf by (simp add: codec_simps)
  have "drop 16 ?buf = ?D @ ?P @ r"
    unfolding buf by (simp del: length_concat)
  then have descs: "read_array 96 dec_PortDescriptor ?n (drop 16 ?buf) = port_descriptors m"
    using pdc.read_array_enc [of "port_descriptors m" "?P @ r"] len by simp
  have "drop (16 + ?n * 96) ?buf = ?P @ r"
    unfolding buf by (simp add: lD del: length_concat)
  then have names: "read_array 16 dec_Name ?n (drop (16 + ?n * 96) ?buf) = msg_ports m"
    using namec.read_array_enc [of "msg_ports m" r] by simp
  have tot: "\<not> length ?buf < ?n * 112 + 16" "\<not> length ?buf < 16"
    using lD lP unfolding buf by (simp_all del: length_concat)
  have "checked_usize (?n * (96 + 16)) = Some (?n * 112)" "checked_usize (?n * 112 + 16) = Some (?n * 112 + 16)"
    using n by (simp_all add: checked_usize_def)
  then show ?thesis
    unfolding Deserialize_UserMessage_def cnt seq descs names Let_def
    using tot by simp
qed

lemma Deserialize_MergePort_roundtrip:
  "Deserialize (Serialize (MergePortEv p n d) @ r) = Some (MergePortEv p n d)"
  by (simp add: Deserialize_header Deserialize_MergePort_def codec_simps pdc.dec_enc)

text \<open>C11: deserializing the serialized form of a well-formed event, whatever bytes follow it in
  the buffer, gives the event back, less the embedder's message object, which travels apart.\<close>

theorem event_roundtrip:
  assumes "wf_Event e"
  shows "Deserialize (Serialize e @ r) = Some (without_message e)"
proof (cases e)
  case (UserMessageEv m)
  with assms show ?thesis
    by (simp add: Deserialize_header Deserialize_UserMessage_SerializeData del: SerializeData.simps)
next
  case (ObserveProxyEv p a b c d)
  then show ?thesis
    by (simp add: Deserialize_header Deserialize_ObserveProxy_def codec_simps)
next
  case (MergePortEv p q d)
  then show ?thesis by (simp add: Deserialize_MergePort_roundtrip)
qed (simp_all add: Deserialize_header Deserialize_ObserveProxyAck_def
      Deserialize_ObserveClosure_def codec_simps)

theorem event_roundtrip_witness:
  "wf_Event (UserMessageEv (ReservePorts 1 (new_UserMessageEvent 0))) \<and>
   Deserialize (Serialize (UserMessageEv (ReservePorts 1 (new_UserMessageEvent 0))) @ [7])
     = Some (UserMessageEv (ReservePorts 1 (new_UserMessageEvent 0)))"
proof -
  let ?e = "UserMessageEv (ReservePorts 1 (new_UserMessageEvent 0))"
  have wf: "wf_Event ?e" by (simp add: ReservePorts_def)
  have "without_message ?e = ?e" by (simp add: ReservePorts_def new_UserMessageEvent_def)
  then show ?thesis using wf event_roundtrip [OF wf, of "[7]"] by simp
qed

lemma Deserialize_UserMessage_bounds:
  assumes "Deserialize_UserMessage p d = Some e"
  shows "wf_Event e \<and> length (SerializeData e) \<le> length d"
proof -
  let ?n = "unat (dec_u32 (drop 8 d))"
  from assms obtain m where e: "e = UserMessageEv m" and m: "length (msg_ports m) = ?n"
    "length (port_descriptors m) = ?n" and d: "?n * 112 + 16 \<le> length d"
    by (auto simp: Deserialize_UserMessage_def checked_usize_def Let_def split: if_splits)
  have "?n < 2 ^ 32" using unsigned_less [of "dec_u32 (drop 8 d)", where ?'a = nat] by simp
  then have "wf_Event e" using e m by simp
  moreover have "length (SerializeData e) = 16 + 112 * ?n"
    using e m by (simp add: pdc.length_concat_enc namec.length_concat_enc del: length_concat)
  ultimately show ?thesis using d by simp
qed

lemma Deserialize_other_bounds:
  "Deserialize_ObserveProxy p d = Some e \<Longrightarrow> wf_Event e \<and> length (SerializeData e) \<le> length d"
  "Deserialize_ObserveProxyAck p d = Some e \<Longrightarrow> wf_Event e \<and> length (SerializeData e) \<le> length d"
  "Deserialize_ObserveClosure p d = Some e \<Longrightarrow> wf_Event e \<and> length (SerializeData e) \<le> length d"
  "Deserialize_MergePort p d = Some e \<Longrightarrow> wf_Event e \<and> length (SerializeData e) \<le> length d"
  by (auto simp: Deserialize_defs split: if_splits)

text \<open>C12: whatever bytes arrive, an event that is accepted is well formed and all of its bytes lie
  inside the buffer: the size checks of every \<open>Deserialize\<close> cover what is read, and the port
  count of a user message cannot make the size computation overflow.\<close>

theorem deserialize_bounds:
  assumes "Deserialize buf = Some e"
  shows "wf_Event e \<and> length (Serialize e) \<le> length buf"
proof -
  from assms have len: "24 \<le> length buf"
    by (simp add: Deserialize_def split: if_splits)
  let ?t = "dec_u32 buf"
  consider "?t = 0" | "?t = 1" | "?t = 2" | "?t = 3" | "?t = 4" | "?t = 5"
    | "?t \<notin> {0, 1, 2, 3, 4, 5}" by blast
  then have "wf_Event e \<and> length (SerializeData e) \<le> length (drop 24 buf)"
    using assms len unfolding Deserialize_def Let_def
    by cases (auto dest!: Deserialize_UserMessage_bounds Deserialize_other_bounds)
  with len show ?thesis by (auto simp: Serialize_def)
qed

theorem deserialize_bounds_witness:
  "Deserialize (Serialize (ObserveClosureEv (Name 3 4) 9)) = Some (ObserveClosureEv (Name 3 4) 9) \<and>
   wf_Event (ObserveClosureEv (Name 3 4) 9) \<and>
   length (Serialize (ObserveClosureEv (Name 3 4) 9)) \<le> length (Serialize (ObserveClosureEv (Name 3 4) 9))"
proof -
  let ?e = "ObserveClosureEv (Name 3 4) 9"
  have d: "Deserialize (Serialize ?e) = Some ?e"
    using Deserialize_header [of ?e "[]"]
    by (simp add: Deserialize_ObserveClosure_def u64c.dec_enc [of _ "[]", simplified])
  show ?thesis using d deserialize_bounds [OF d] by blast
qed

end
