(* ===== verification/Message_Queue.thy ===== *)
theory Message_Queue
  imports Binary_Heap Port_Event
begin

text \<open>
  The incoming message queue of a port: \<open>mojo/core/ports/message_queue.h\<close> and
  \<open>mojo/core/ports/message_queue.cc\<close>.

  Messages may arrive in any order; \<open>GetNextMessage\<close> hands them out by sequence number.  The
  locale \<open>sequenced_inbox\<close> is the contract of such a queue, and holds the delivery lemmas;
  the queue of the source is interpreted in it.
\<close>

section \<open>The queue\<close>

record MessageQueue =
  heap :: "UserMessageEvent list"
  next_sequence_num :: u64
  signalable :: bool
  total_queued_bytes :: usize

definition new_MessageQueue :: "u64 \<Rightarrow> MessageQueue" where
  "new_MessageQueue n =
     \<lparr>heap = [], next_sequence_num = n, signalable = True, total_queued_bytes = 0\<rparr>"

definition set_signalable :: "bool \<Rightarrow> MessageQueue \<Rightarrow> MessageQueue" where
  "set_signalable v q = q\<lparr>signalable := v\<rparr>"

text \<open>The comparison widens the 32-bit accessor value to the 64-bit member.\<close>

definition HasNextMessage :: "MessageQueue \<Rightarrow> bool" where
  "HasNextMessage q \<longleftrightarrow> heap q \<noteq> [] \<and> ucast (sequence_num (hd (heap q))) = next_sequence_num q"

definition GetNextMessage ::
    "(UserMessageEvent \<Rightarrow> bool) option \<Rightarrow> MessageQueue \<Rightarrow> UserMessageEvent option \<times> MessageQueue" where
  "GetNextMessage flt q =
     (if \<not> HasNextMessage q \<or> (case flt of None \<Rightarrow> False | Some f \<Rightarrow> \<not> f (hd (heap q)))
      then (None, q)
      else (let popped = pop_heap sequence_num (heap q);
                m = last popped
            in (Some m,
                q\<lparr>total_queued_bytes := total_queued_bytes q - GetSizeIfSerialized m,
                  heap := butlast popped,
                  next_sequence_num := next_sequence_num q + 1\<rparr>)))"

definition AcceptMessage :: "UserMessageEvent \<Rightarrow> MessageQueue \<Rightarrow> bool \<times> MessageQueue" where
  "AcceptMessage m q =
     (let q' = q\<lparr>total_queued_bytes := total_queued_bytes q + GetSizeIfSerialized m,
                 heap := push_heap sequence_num (heap q @ [m])\<rparr>
      in (if \<not> signalable q' then False
          else ucast (sequence_num (hd (heap q'))) = next_sequence_num q',
          q'))"

definition TakeAllMessages :: "MessageQueue \<Rightarrow> UserMessageEvent list \<times> MessageQueue" where
  "TakeAllMessages q = (heap q, q\<lparr>heap := [], total_queued_bytes := 0\<rparr>)"

definition queued_message_count :: "MessageQueue \<Rightarrow> nat" where
  "queued_message_count q = length (heap q)"

definition queued_num_bytes :: "MessageQueue \<Rightarrow> usize" where
  "queued_num_bytes q = total_queued_bytes q"

section \<open>Invariant\<close>

definition mq_inv :: "MessageQueue \<Rightarrow> bool" where
  "mq_inv q \<longleftrightarrow> is_heap sequence_num (heap q) \<and>
     total_queued_bytes q = (\<Sum>m\<in>#mset (heap q). GetSizeIfSerialized m)"

lemma mq_inv_new [simp]: "mq_inv (new_MessageQueue n)"
  by (simp add: mq_inv_def new_MessageQueue_def std_heap.inv_Nil)

lemma mq_inv_set_signalable [simp]: "mq_inv (set_signalable v q) = mq_inv q"
  by (simp add: mq_inv_def set_signalable_def)

lemma mq_inv_AcceptMessage [simp]: "mq_inv q \<Longrightarrow> mq_inv (snd (AcceptMessage m q))"
  by (simp add: mq_inv_def AcceptMessage_def Let_def std_heap.inv_push std_heap.mset_push add.commute)

lemma AcceptMessage_content [simp]:
  "mq_inv q \<Longrightarrow> mset (heap (snd (AcceptMessage m q))) = add_mset m (mset (heap q))"
  "next_sequence_num (snd (AcceptMessage m q)) = next_sequence_num q"
  by (simp_all add: AcceptMessage_def Let_def mq_inv_def std_heap.mset_push)

lemma mq_inv_TakeAllMessages [simp]: "mq_inv (snd (TakeAllMessages q))"
  by (simp add: mq_inv_def TakeAllMessages_def std_heap.inv_Nil)

lemma GetNextMessage_Some:
  assumes "mq_inv q" and "GetNextMessage f q = (Some m, q')"
  shows "m = hd (heap q)" and "heap q \<noteq> []" and "ucast (sequence_num m) = next_sequence_num q"
    and "mset (heap q) = add_mset m (mset (heap q'))"
    and "next_sequence_num q' = next_sequence_num q + 1"
    and "signalable q' = signalable q" and "mq_inv q'"
proof -
  from assms(2) have has: "HasNextMessage q"
    and q': "q' = q\<lparr>total_queued_bytes := total_queued_bytes q - GetSizeIfSerialized m,
               heap := butlast (pop_heap sequence_num (heap q)),
               next_sequence_num := next_sequence_num q + 1\<rparr>"
    and m: "m = last (pop_heap sequence_num (heap q))"
    by (auto simp: GetNextMessage_def Let_def split: if_splits)
  from assms(1) have h: "is_heap sequence_num (heap q)" by (simp add: mq_inv_def)
  show ne: "heap q \<noteq> []" using has by (simp add: HasNextMessage_def)
  show hd: "m = hd (heap q)" using m std_heap.last_pop [OF h ne] by simp
  show "ucast (sequence_num m) = next_sequence_num q"
    using has hd by (simp add: HasNextMessage_def)
  show ms: "mset (heap q) = add_mset m (mset (heap q'))"
    using std_heap.mset_pop [OF h ne] hd q' by simp
  show "next_sequence_num q' = next_sequence_num q + 1" "signalable q' = signalable q"
    using q' by simp_all
  show "mq_inv q'"
    using assms(1) ms std_heap.inv_pop [OF h ne] q' by (simp add: mq_inv_def)
qed

lemma GetNextMessage_None: "GetNextMessage f q = (None, q') \<Longrightarrow> q' = q"
  by (auto simp: GetNextMessage_def Let_def split: if_splits)

lemma GetNextMessage_shrinks:
  "GetNextMessage f q = (Some m, q') \<Longrightarrow> length (heap q') < length (heap q)"
  by (auto simp: GetNextMessage_def HasNextMessage_def Let_def split: if_splits)

lemma mq_inv_GetNextMessage [simp]:
  assumes "mq_inv q"
  shows "mq_inv (snd (GetNextMessage f q))"
proof (cases "GetNextMessage f q")
  case (Pair r q')
  with assms show ?thesis
    by (cases r) (auto dest: GetNextMessage_None GetNextMessage_Some(7))
qed

text \<open>With no stale message in the queue, the next message is found as soon as it is there.\<close>

lemma GetNextMessage_ready:
  assumes "mq_inv q" and "m \<in> set (heap q)" and "ucast (sequence_num m) = next_sequence_num q"
    and fresh: "\<And>m'. m' \<in> set (heap q) \<Longrightarrow> unat (next_sequence_num q) \<le> unat (sequence_num m')"
  shows "HasNextMessage q"
proof -
  let ?h = "hd (heap q)"
  have ne: "heap q \<noteq> []" and h: "?h \<in> set (heap q)"
    using assms(2) by (auto intro: hd_in_set)
  have "sequence_num ?h \<le> sequence_num m"
    using assms(1,2) std_heap.hd_min [of sequence_num "heap q" m] by (simp add: mq_inv_def)
  moreover have "unat (next_sequence_num q) = unat (sequence_num m)"
    by (simp flip: assms(3))
  ultimately have "sequence_num ?h = sequence_num m"
    using fresh [OF h] by (simp add: word_le_nat_alt word_unat_eq_iff)
  then show ?thesis using assms(3) ne by (simp add: HasNextMessage_def)
qed

section \<open>Ordered delivery\<close>

text \<open>
  A client that accepts messages and takes them out, in any interleaving.  The delivered
  messages are collected in order.
\<close>

datatype 'm inbox_op = Accept 'm | Get

fun inbox_run ::
    "('m \<Rightarrow> 'q \<Rightarrow> 'q) \<Rightarrow> ('q \<Rightarrow> 'm option \<times> 'q) \<Rightarrow> 'm inbox_op list \<Rightarrow> 'q \<Rightarrow> 'm list \<times> 'q" where
  "inbox_run acc get [] q = ([], q)"
| "inbox_run acc get (Accept m # ops) q = inbox_run acc get ops (acc m q)"
| "inbox_run acc get (Get # ops) q =
     (case get q of
        (None, q') \<Rightarrow> inbox_run acc get ops q'
      | (Some m, q') \<Rightarrow> (case inbox_run acc get ops q' of (ds, q'') \<Rightarrow> (m # ds, q'')))"

fun accepted :: "'m inbox_op list \<Rightarrow> 'm list" where
  "accepted [] = []"
| "accepted (Accept m # ops) = m # accepted ops"
| "accepted (Get # ops) = accepted ops"

locale sequenced_inbox =
  fixes acc :: "'m \<Rightarrow> 'q \<Rightarrow> 'q"
    and get :: "'q \<Rightarrow> 'm option \<times> 'q"
    and pending :: "'q \<Rightarrow> 'm multiset"
    and nxt :: "'q \<Rightarrow> nat"
    and seq :: "'m \<Rightarrow> nat"
    and inv :: "'q \<Rightarrow> bool"
  assumes inv_acc: "inv q \<Longrightarrow> inv (acc m q)"
    and pending_acc: "inv q \<Longrightarrow> pending (acc m q) = add_mset m (pending q)"
    and nxt_acc: "inv q \<Longrightarrow> nxt (acc m q) = nxt q"
    and get_None: "inv q \<Longrightarrow> get q = (None, q') \<Longrightarrow> q' = q"
    and inv_get: "inv q \<Longrightarrow> get q = (Some m, q') \<Longrightarrow> inv q'"
    and get_seq: "inv q \<Longrightarrow> get q = (Some m, q') \<Longrightarrow> seq m = nxt q"
    and get_nxt: "inv q \<Longrightarrow> get q = (Some m, q') \<Longrightarrow> nxt q' = Suc (nxt q)"
    and get_pending: "inv q \<Longrightarrow> get q = (Some m, q') \<Longrightarrow> pending q = add_mset m (pending q')"
    and get_ready: "inv q \<Longrightarrow> m \<in># pending q \<Longrightarrow> seq m = nxt q \<Longrightarrow>
       (\<And>m'. m' \<in># pending q \<Longrightarrow> nxt q \<le> seq m') \<Longrightarrow> fst (get q) \<noteq> None"
begin

text \<open>
  Numbers come out consecutively, whatever the arrival order, and nothing is lost or
  duplicated: every accepted message is either delivered or still pending.
\<close>

lemma run_consecutive:
  assumes "inv q" and "inbox_run acc get ops q = (ds, q')"
  shows "map seq ds = [nxt q..<nxt q + length ds] \<and> nxt q' = nxt q + length ds \<and> inv q' \<and>
         mset ds + pending q' = mset (accepted ops) + pending q"
  using assms
proof (induction ops arbitrary: q ds)
  case Nil
  then show ?case by simp
next
  case (Cons opn ops)
  show ?case
  proof (cases opn)
    case (Accept m)
    then show ?thesis
      using Cons.IH [of "acc m q" ds] Cons.prems by (simp add: inv_acc pending_acc nxt_acc)
  next
    case Get
    obtain r q1 where g: "get q = (r, q1)" by fastforce
    show ?thesis
    proof (cases r)
      case None
      with g Cons.prems Get get_None have "inbox_run acc get ops q = (ds, q')" by fastforce
      with Cons.IH [of q ds] Cons.prems Get show ?thesis by simp
    next
      case (Some m)
      with g Cons.prems Get obtain ds1 where run: "inbox_run acc get ops q1 = (ds1, q')"
        and ds: "ds = m # ds1" by (auto split: prod.splits)
      have q: "inv q1" "seq m = nxt q" "nxt q1 = Suc (nxt q)" "pending q = add_mset m (pending q1)"
        using g Some Cons.prems inv_get get_seq get_nxt get_pending by auto
      with Cons.IH [OF q(1) run] ds Get show ?thesis
        by (simp add: upt_conv_Cons del: upt_Suc)
    qed
  qed
qed

text \<open>A complete batch is fully delivered by as many reads as there are messages.\<close>

lemma drain_complete:
  assumes "inv q" and "image_mset seq (pending q) = mset [nxt q..<nxt q + k]"
    and "inbox_run acc get (replicate k Get) q = (ds, q')"
  shows "length ds = k \<and> pending q' = {#}"
  using assms
proof (induction k arbitrary: q ds)
  case 0
  then show ?case by simp
next
  case (Suc k)
  have mem: "seq ` set_mset (pending q) = {nxt q..<nxt q + Suc k}"
    using arg_cong [OF Suc.prems(2), of set_mset] by (simp del: upt_Suc)
  then have "nxt q \<in> seq ` set_mset (pending q)" by simp
  then obtain m where m: "m \<in># pending q" "seq m = nxt q" by auto
  have "nxt q \<le> seq m'" if "m' \<in># pending q" for m'
    using imageI [OF that, of seq] mem by simp
  then have "fst (get q) \<noteq> None"
    by (rule get_ready [OF Suc.prems(1) m])
  then obtain m q1 where g: "get q = (Some m, q1)" by (cases "get q") auto
  have q: "inv q1" "seq m = nxt q" "nxt q1 = Suc (nxt q)" "pending q = add_mset m (pending q1)"
    using g Suc.prems inv_get get_seq get_nxt get_pending by auto
  have "image_mset seq (pending q1) = mset [nxt q1..<nxt q1 + k]"
    using Suc.prems(2) q by (simp add: upt_conv_Cons del: upt_Suc)
  moreover obtain ds1 where "inbox_run acc get (replicate k Get) q1 = (ds1, q')" "ds = m # ds1"
    using Suc.prems(3) g by (auto split: prod.splits)
  ultimately show ?case using Suc.IH [OF q(1), of ds1] by simp
qed

end

interpretation mq: sequenced_inbox
  "\<lambda>m q. snd (AcceptMessage m q)" "GetNextMessage None" "\<lambda>q. mset (heap q)"
  "\<lambda>q. unat (next_sequence_num q)" "\<lambda>m. unat (sequence_num m)" mq_inv
proof
  fix q q' :: MessageQueue and m
  show "mq_inv q \<Longrightarrow> mq_inv (snd (AcceptMessage m q))" by simp
  show "mq_inv q \<Longrightarrow> mset (heap (snd (AcceptMessage m q))) = add_mset m (mset (heap q))"
    by (simp add: AcceptMessage_def Let_def mq_inv_def std_heap.mset_push)
  show "unat (next_sequence_num (snd (AcceptMessage m q))) = unat (next_sequence_num q)"
    by (simp add: AcceptMessage_def Let_def)
  show "GetNextMessage None q = (None, q') \<Longrightarrow> q' = q"
    by (rule GetNextMessage_None)
  assume inv: "mq_inv q"
  {
    assume g: "GetNextMessage None q = (Some m, q')"
    note sp = GetNextMessage_Some [OF inv g]
    show "mq_inv q'" and "mset (heap q) = add_mset m (mset (heap q'))"
      using sp by simp_all
    show seq: "unat (sequence_num m) = unat (next_sequence_num q)"
      by (simp flip: sp(3))
    have "unat (next_sequence_num q) < 2 ^ 32"
      using unsigned_less [of "sequence_num m", where ?'a = nat] seq by simp
    then show "unat (next_sequence_num q') = Suc (unat (next_sequence_num q))"
      using sp(5) by (simp add: unat_word_ariths)
  }
  assume m: "m \<in># mset (heap q)" "unat (sequence_num m) = unat (next_sequence_num q)"
    and fresh: "\<And>m'. m' \<in># mset (heap q) \<Longrightarrow> unat (next_sequence_num q) \<le> unat (sequence_num m')"
  have "ucast (sequence_num m) = next_sequence_num q"
    using m(2) by (intro unsigned_word_eqI [where ?'a = nat]) simp
  then have "HasNextMessage q"
    using inv m(1) fresh by (intro GetNextMessage_ready [of q m]) auto
  then show "fst (GetNextMessage None q) \<noteq> None"
    by (simp add: GetNextMessage_def Let_def)
qed

section \<open>Properties\<close>

abbreviation mq_run :: "UserMessageEvent inbox_op list \<Rightarrow> MessageQueue \<Rightarrow> UserMessageEvent list \<times> MessageQueue" where
  "mq_run \<equiv> inbox_run (\<lambda>m q. snd (AcceptMessage m q)) (GetNextMessage None)"

lemma accepted_append_Get [simp]: "accepted (map Accept ms @ replicate k Get) = ms"
proof (induction ms)
  case Nil
  show ?case by (induction k) simp_all
next
  case (Cons m ms)
  then show ?case by simp
qed

lemma inbox_run_append:
  "inbox_run acc get (xs @ ys) q =
     (case inbox_run acc get xs q of (ds, q1) \<Rightarrow>
        (case inbox_run acc get ys q1 of (es, q2) \<Rightarrow> (ds @ es, q2)))"
  by (induction acc get xs q rule: inbox_run.induct) (auto split: prod.splits option.splits)

lemma inbox_run_Accept_only: "fst (inbox_run acc get (map Accept ms) q) = []"
  by (induction ms arbitrary: q) auto

text \<open>C8: in every interleaving of \<open>AcceptMessage\<close> and \<open>GetNextMessage\<close> calls, with messages
  arriving in any order, the messages handed out carry consecutive sequence numbers starting at
  the initial one, and each accepted message is either handed out once or still queued.\<close>

theorem mq_delivers_in_order:
  "case mq_run ops (new_MessageQueue n) of (ds, q) \<Rightarrow>
     map (\<lambda>m. unat (sequence_num m)) ds = [unat n..<unat n + length ds] \<and>
     unat (next_sequence_num q) = unat n + length ds \<and>
     mset ds + mset (heap q) = mset (accepted ops)"
proof -
  obtain ds q where run: "mq_run ops (new_MessageQueue n) = (ds, q)" by fastforce
  have "mq_inv (new_MessageQueue n)" by simp
  from mq.run_consecutive [OF this run] run show ?thesis
    by (simp add: new_MessageQueue_def)
qed

text \<open>C9: a batch of messages numbered \<open>n\<close> to \<open>n + k - 1\<close> that arrives in any order is
  completely handed out, in order, by \<open>k\<close> reads, and leaves the queue empty.\<close>

theorem mq_batch_complete:
  assumes "image_mset (\<lambda>m. unat (sequence_num m)) (mset ms) = mset [unat n..<unat n + k]"
  shows "\<exists>ds q. mq_run (map Accept ms @ replicate k Get) (new_MessageQueue n) = (ds, q) \<and>
     map (\<lambda>m. unat (sequence_num m)) ds = [unat n..<unat n + k] \<and> mset ds = mset ms \<and> heap q = []"
proof -
  let ?q0 = "new_MessageQueue n"
  obtain q1 where r1: "mq_run (map Accept ms) ?q0 = ([], q1)"
    using inbox_run_Accept_only [of _ _ ms ?q0] by (metis prod.collapse)
  obtain ds q where r2: "mq_run (replicate k Get) q1 = (ds, q)" by fastforce
  have acc: "accepted (map Accept ms) = ms" using accepted_append_Get [of ms 0] by simp
  have q1: "unat (next_sequence_num q1) = unat n" "mq_inv q1" "mset (heap q1) = mset ms"
    using mq.run_consecutive [OF _ r1] by (simp_all add: acc) (simp_all add: new_MessageQueue_def)
  have fin: "length ds = k" "mset (heap q) = {#}"
    using mq.drain_complete [OF q1(2) _ r2] assms q1 by simp_all
  have "mset ds + mset (heap q) = mset ms" "map (\<lambda>m. unat (sequence_num m)) ds = [unat n..<unat n + k]"
    using mq.run_consecutive [OF q1(2) r2] q1 fin accepted_append_Get [of "[] :: UserMessageEvent list" k]
    by auto
  moreover have "mq_run (map Accept ms @ replicate k Get) ?q0 = (ds, q)"
    by (simp add: inbox_run_append r1 r2)
  ultimately show ?thesis using fin by auto
qed

definition numbered :: "u32 \<Rightarrow> UserMessageEvent" where
  "numbered k = set_sequence_num k (new_UserMessageEvent 0)"

theorem mq_batch_complete_witness:
  "\<exists>ds q. mq_run (map Accept [numbered 2, numbered 3, numbered 1] @ replicate 3 Get) (new_MessageQueue 1) = (ds, q) \<and>
     map (\<lambda>m. unat (sequence_num m)) ds = [1, 2, 3] \<and>
     mset ds = mset [numbered 2, numbered 3, numbered 1] \<and> heap q = []"
proof -
  have upt: "[unat (1::u64)..<unat (1::u64) + 3] = [1, 2, 3]" by (simp add: upt_rec)
  have "image_mset (\<lambda>m. unat (sequence_num m)) (mset [numbered 2, numbered 3, numbered 1])
      = mset [unat (1::u64)..<unat (1::u64) + 3]"
    unfolding upt by (simp add: numbered_def)
  from mq_batch_complete [OF this] show ?thesis unfolding upt .
qed

text \<open>The number of queued bytes a port reports is always the sum of the serialized sizes of
  the messages in its queue (as \<open>size_t\<close>, which wraps), whatever is accepted, read or taken.\<close>

lemma mq_byte_accounting:
  assumes "mq_inv q"
  shows "queued_num_bytes (snd (mq_run ops q)) =
           (\<Sum>m\<in>#mset (heap (snd (mq_run ops q))). GetSizeIfSerialized m) \<and>
         queued_num_bytes (snd (TakeAllMessages (snd (mq_run ops q)))) = 0"
proof -
  have "mq_inv (snd (mq_run ops q))"
    using mq.run_consecutive [OF assms] by (metis prod.collapse)
  then show ?thesis
    by (simp add: mq_inv_def queued_num_bytes_def TakeAllMessages_def)
qed

text \<open>C16: because the accessor \<open>sequence_num()\<close> is 32 bits wide and the queue's counter 64, a
  queue whose counter has reached $2^{32}$ never hands out another message, and keeps every
  message it accepts.\<close>

theorem mq_stalls_after_u32:
  assumes "2 ^ 32 \<le> unat (next_sequence_num q)"
  shows "GetNextMessage f q = (None, q) \<and> \<not> fst (AcceptMessage m q) \<and>
     2 ^ 32 \<le> unat (next_sequence_num (snd (AcceptMessage m q)))"
proof -
  have "ucast k \<noteq> next_sequence_num q" for k :: u32
  proof
    assume "ucast k = next_sequence_num q"
    then have "unat (next_sequence_num q) = unat k" by (metis unat_ucast_u32_u64)
    with assms unsigned_less [of k, where ?'a = nat] show False by simp
  qed
  then show ?thesis
    using assms by (simp add: GetNextMessage_def HasNextMessage_def AcceptMessage_def Let_def)
qed

theorem mq_stalls_after_u32_witness:
  "GetNextMessage None (new_MessageQueue 4294967296) = (None, new_MessageQueue 4294967296)"
  by (rule mq_stalls_after_u32 [THEN conjunct1]) (simp add: new_MessageQueue_def)

text \<open>\<open>AcceptMessage\<close> signals whenever the next message is in the queue: once it is there,
  every further in-window message signals again, until the queue is made not signalable.  (The
  header describes an edge trigger.)\<close>

lemma mq_signal_is_level_triggered:
  assumes "mq_inv q" and "HasNextMessage q"
    and "unat (next_sequence_num q) \<le> unat (sequence_num m)"
  shows "fst (AcceptMessage m q) \<longleftrightarrow> signalable q"
proof -
  let ?h = "hd (heap q)" and ?v = "push_heap sequence_num (heap q @ [m])"
  have h: "is_heap sequence_num (heap q)" using assms(1) by (simp add: mq_inv_def)
  have ne: "heap q \<noteq> []" and nx: "ucast (sequence_num ?h) = next_sequence_num q"
    using assms(2) by (simp_all add: HasNextMessage_def)
  have mem: "set ?v = insert m (set (heap q))"
    using arg_cong [OF std_heap.mset_push [OF h, of m], of set_mset] by simp
  have "hd ?v \<in> set ?v" using std_heap.push_nonempty [OF h] by (rule hd_in_set)
  then have "sequence_num ?h \<le> sequence_num (hd ?v)"
    using mem assms(3) std_heap.hd_min [OF h] nx [symmetric] by (auto simp: word_le_nat_alt)
  moreover have "sequence_num (hd ?v) \<le> sequence_num ?h"
    using std_heap.hd_min [OF std_heap.inv_push [OF h, of m], of ?h] mem ne by simp
  ultimately have "sequence_num (hd ?v) = sequence_num ?h" by simp
  with nx show ?thesis by (simp add: AcceptMessage_def Let_def)
qed

end
