(* ===== verification/Port_Node.thy ===== *)
theory Port_Node
  imports Message_Queue
begin

text \<open>
  The node of the mojo ports layer: \<open>mojo/core/ports/port.h\<close>, \<open>port.cc\<close>,
  \<open>port_ref.h\<close>, \<open>port_locker.cc\<close>, \<open>node_delegate.h\<close>, \<open>node.h\<close> and \<open>node.cc\<close>.

  The state of a node is the record \<open>Node\<close>: its name, the table \<open>ports\<close> from port names to
  port objects, the store of port objects (a \<open>PortRef\<close> keeps an object alive and usable after
  its name has left the table, so objects and table entries are different things), the random
  name generator, and the calls made to the delegate so far, in order.  Every method of
  \<open>Node\<close> is a function on this record; its \<open>int\<close> result is a value of \<open>rv\<close>.  Methods in
  which a \<open>PortLocker\<close> may be given a null reference (a failing \<open>CHECK\<close>) or the same port
  twice (a lock acquired twice by one thread) return an option; \<open>None\<close> is that outcome.

  Each method runs to completion before the next one starts, and calls to the delegate are
  recorded rather than executed: a delivery to a node is a later call of \<open>AcceptEvent\<close>.
  \<open>DCHECK\<close>, \<open>DVLOG\<close> and \<open>NOTREACHED\<close> do nothing, as in release builds.
\<close>

section \<open>Ports\<close>

datatype State = kUninitialized | kReceiving | kBuffering | kProxying | kClosed

record Port =
  state :: State
  peer_node_name :: NodeName
  peer_port_name :: PortName
  next_sequence_num_to_send :: u64
  last_sequence_num_to_receive :: u64
  message_queue :: MessageQueue
  send_on_proxy_removal :: "(NodeName \<times> Event) option"
  user_data :: "nat option"
  remove_proxy_on_last_message :: bool
  peer_closed :: bool

definition new_Port :: "u64 \<Rightarrow> u64 \<Rightarrow> Port" where
  "new_Port to_send to_receive =
     \<lparr>state = kUninitialized, peer_node_name = kInvalidNodeName, peer_port_name = kInvalidPortName,
      next_sequence_num_to_send = to_send, last_sequence_num_to_receive = 0,
      message_queue = new_MessageQueue to_receive, send_on_proxy_removal = None,
      user_data = None, remove_proxy_on_last_message = False, peer_closed = False\<rparr>"

definition CanAcceptMoreMessages :: "Port \<Rightarrow> bool" where
  "CanAcceptMoreMessages p =
     (if state p = kClosed then False
      else if (peer_closed p \<or> remove_proxy_on_last_message p) \<and>
              last_sequence_num_to_receive p = next_sequence_num (message_queue p) - 1 then False
      else True)"

text \<open>A reference: the name and the address of the port object.\<close>

record PortRef =
  ref_name :: PortName
  ref_port :: nat

datatype DelegateCall =
    ForwardEvent NodeName Event
  | BroadcastEvent Event
  | PortStatusChanged PortRef

section \<open>The node\<close>

text \<open>
  \<open>rand_name k\<close> is the \<open>k\<close>-th name-sized block of the system's random source
  (\<open>crypto::RandBytes\<close>); \<open>draws\<close> counts the refills of the 256-entry cache.
\<close>

record RandomNameGenerator =
  rand_name :: "nat \<Rightarrow> PortName"
  draws :: nat
  cache :: "nat \<Rightarrow> PortName"
  cache_index :: nat

definition kRandomNameCacheSize :: nat where
  "kRandomNameCacheSize = 256"

definition GenerateRandomPortName :: "RandomNameGenerator \<Rightarrow> PortName \<times> RandomNameGenerator" where
  "GenerateRandomPortName g =
     (let g' = (if cache_index g = kRandomNameCacheSize
                then g\<lparr>cache := (\<lambda>i. rand_name g (draws g * kRandomNameCacheSize + i)),
                       draws := Suc (draws g), cache_index := 0\<rparr>
                else g)
      in (cache g' (cache_index g'), g'\<lparr>cache_index := Suc (cache_index g')\<rparr>))"

record Node =
  node_name :: NodeName
  ports :: "(PortName \<times> nat) list"
  port_objects :: "Port list"
  name_generator :: RandomNameGenerator
  delegate :: "DelegateCall list"

datatype rv =
    OK
  | ERROR_PORT_UNKNOWN
  | ERROR_PORT_EXISTS
  | ERROR_PORT_STATE_UNEXPECTED
  | ERROR_PORT_CANNOT_SEND_SELF
  | ERROR_PORT_PEER_CLOSED
  | ERROR_PORT_CANNOT_SEND_PEER
  | ERROR_NOT_IMPLEMENTED

record PortStatus =
  has_messages :: bool
  receiving_messages :: bool
  ps_peer_closed :: bool
  peer_remote :: bool
  ps_queued_message_count :: nat
  ps_queued_num_bytes :: usize

datatype ShutdownPolicy = DONT_ALLOW_LOCAL_PORTS | ALLOW_LOCAL_PORTS

definition new_Node :: "NodeName \<Rightarrow> (nat \<Rightarrow> PortName) \<Rightarrow> Node" where
  "new_Node n rnd =
     \<lparr>node_name = n, ports = [], port_objects = [],
      name_generator = \<lparr>rand_name = rnd, draws = 0, cache = (\<lambda>_. kInvalidPortName),
                        cache_index = kRandomNameCacheSize\<rparr>,
      delegate = []\<rparr>"

text \<open>Access to the port object behind a lock, and a call to the delegate.\<close>

definition port_at :: "Node \<Rightarrow> nat \<Rightarrow> Port" where
  "port_at s a = port_objects s ! a"

definition upd_port :: "nat \<Rightarrow> (Port \<Rightarrow> Port) \<Rightarrow> Node \<Rightarrow> Node" where
  "upd_port a f s = s\<lparr>port_objects := (port_objects s)[a := f (port_objects s ! a)]\<rparr>"

definition call :: "DelegateCall \<Rightarrow> Node \<Rightarrow> Node" where
  "call c s = s\<lparr>delegate := delegate s @ [c]\<rparr>"

definition fresh_name :: "Node \<Rightarrow> PortName \<times> Node" where
  "fresh_name s =
     (case GenerateRandomPortName (name_generator s) of (n, g) \<Rightarrow> (n, s\<lparr>name_generator := g\<rparr>))"

section \<open>The port table\<close>

definition CanShutdownCleanly :: "ShutdownPolicy \<Rightarrow> Node \<Rightarrow> bool" where
  "CanShutdownCleanly policy s =
     (case policy of
        DONT_ALLOW_LOCAL_PORTS \<Rightarrow> ports s = []
      | ALLOW_LOCAL_PORTS \<Rightarrow>
          list_all (\<lambda>(n, a). \<not> (peer_node_name (port_at s a) \<noteq> node_name s \<and>
                                 state (port_at s a) \<noteq> kReceiving)) (ports s))"

definition GetPort :: "PortName \<Rightarrow> Node \<Rightarrow> PortRef option" where
  "GetPort n s =
     (case map_of (ports s) n of
        None \<Rightarrow> None
      | Some a \<Rightarrow> Some \<lparr>ref_name = n, ref_port = a\<rparr>)"

definition AddPortWithName :: "PortName \<Rightarrow> Port \<Rightarrow> Node \<Rightarrow> rv \<times> Node" where
  "AddPortWithName n p s =
     (if map_of (ports s) n \<noteq> None then (ERROR_PORT_EXISTS, s)
      else (OK, s\<lparr>ports := ports s @ [(n, length (port_objects s))],
                  port_objects := port_objects s @ [p]\<rparr>))"

definition ErasePort :: "PortName \<Rightarrow> Node \<Rightarrow> Node" where
  "ErasePort n s =
     (case map_of (ports s) n of
        None \<Rightarrow> s
      | Some a \<Rightarrow>
          upd_port a (\<lambda>p. p\<lparr>message_queue := snd (TakeAllMessages (message_queue p))\<rparr>)
            (s\<lparr>ports := filter (\<lambda>(k, _). k \<noteq> n) (ports s)\<rparr>))"

definition CreateUninitializedPort :: "Node \<Rightarrow> rv \<times> PortRef option \<times> Node" where
  "CreateUninitializedPort s =
     (let (n, s1) = fresh_name s;
          (rv, s2) = AddPortWithName n (new_Port kInitialSequenceNum kInitialSequenceNum) s1
      in if rv \<noteq> OK then (rv, None, s2)
         else (OK, Some \<lparr>ref_name = n, ref_port = length (port_objects s1)\<rparr>, s2))"

definition InitializePort :: "PortRef \<Rightarrow> NodeName \<Rightarrow> PortName \<Rightarrow> Node \<Rightarrow> rv \<times> Node" where
  "InitializePort r peer_node peer_port s =
     (if state (port_at s (ref_port r)) \<noteq> kUninitialized then (ERROR_PORT_STATE_UNEXPECTED, s)
      else (OK, call (PortStatusChanged r)
              (upd_port (ref_port r)
                 (\<lambda>p. p\<lparr>state := kReceiving, peer_node_name := peer_node, peer_port_name := peer_port\<rparr>) s)))"

definition CreatePortPair :: "Node \<Rightarrow> rv \<times> (PortRef \<times> PortRef) option \<times> Node" where
  "CreatePortPair s =
     (case CreateUninitializedPort s of
        (rv0, None, s1) \<Rightarrow> (rv0, None, s1)
      | (rv0, Some r0, s1) \<Rightarrow>
          (case CreateUninitializedPort s1 of
             (rv1, None, s2) \<Rightarrow> (rv1, None, s2)
           | (rv1, Some r1, s2) \<Rightarrow>
               (case InitializePort r0 (node_name s2) (ref_name r1) s2 of (rv2, s3) \<Rightarrow>
                  if rv2 \<noteq> OK then (rv2, None, s3)
                  else (case InitializePort r1 (node_name s3) (ref_name r0) s3 of (rv3, s4) \<Rightarrow>
                    if rv3 \<noteq> OK then (rv3, None, s4) else (OK, Some (r0, r1), s4)))))"

definition SetUserData :: "PortRef \<Rightarrow> nat option \<Rightarrow> Node \<Rightarrow> rv \<times> Node" where
  "SetUserData r d s =
     (if state (port_at s (ref_port r)) = kClosed then (ERROR_PORT_STATE_UNEXPECTED, s)
      else (OK, upd_port (ref_port r) (\<lambda>p. p\<lparr>user_data := d\<rparr>) s))"

definition GetUserData :: "PortRef \<Rightarrow> Node \<Rightarrow> rv \<times> nat option" where
  "GetUserData r s =
     (if state (port_at s (ref_port r)) = kClosed then (ERROR_PORT_STATE_UNEXPECTED, None)
      else (OK, user_data (port_at s (ref_port r))))"

section \<open>Closing\<close>

text \<open>
  Closing a port closes the ports attached to its unread messages, recursively.  The fuel
  bounds the nesting; one more than the number of ports in the table is always enough
  (\<open>ClosePort_rec\<close> is the recursion of the source).
\<close>

primrec ClosePort_fuel :: "nat \<Rightarrow> PortRef \<Rightarrow> Node \<Rightarrow> rv \<times> Node" where
  "ClosePort_fuel 0 r s = (OK, s)"
| "ClosePort_fuel (Suc fuel) r s =
     (let p = port_at s (ref_port r) in
      case state p of
        kUninitialized \<Rightarrow> (OK, ErasePort (ref_name r) s)
      | kReceiving \<Rightarrow>
          (let (undelivered, q) = TakeAllMessages (message_queue p);
               s1 = upd_port (ref_port r) (\<lambda>p. p\<lparr>state := kClosed, message_queue := q\<rparr>) s;
               s2 = ErasePort (ref_name r) s1;
               s3 = call (ForwardEvent (peer_node_name p)
                       (ObserveClosureEv (peer_port_name p) (next_sequence_num_to_send p - 1))) s2
           in (OK, fold (\<lambda>n s'. case GetPort n s' of
                                  None \<Rightarrow> s'
                                | Some ref \<Rightarrow> snd (ClosePort_fuel fuel ref s'))
                     (concat (map msg_ports undelivered)) s3))
      | _ \<Rightarrow> (ERROR_PORT_STATE_UNEXPECTED, s))"

definition ClosePort :: "PortRef \<Rightarrow> Node \<Rightarrow> rv \<times> Node" where
  "ClosePort r s = ClosePort_fuel (Suc (length (ports s))) r s"

text \<open>The loop \<open>if (GetPort(name, &ref) == OK) ClosePort(ref)\<close> over a list of names.\<close>

definition close_named :: "PortName list \<Rightarrow> Node \<Rightarrow> Node" where
  "close_named ns s =
     fold (\<lambda>n s'. case GetPort n s' of None \<Rightarrow> s' | Some ref \<Rightarrow> snd (ClosePort ref s')) ns s"

section \<open>Reading\<close>

definition GetStatus :: "PortRef \<Rightarrow> Node \<Rightarrow> rv \<times> PortStatus option" where
  "GetStatus r s =
     (let p = port_at s (ref_port r) in
      if state p \<noteq> kReceiving then (ERROR_PORT_STATE_UNEXPECTED, None)
      else (OK, Some
        \<lparr>has_messages = HasNextMessage (message_queue p),
         receiving_messages = CanAcceptMoreMessages p,
         ps_peer_closed = peer_closed p,
         peer_remote = (peer_node_name p \<noteq> node_name s),
         ps_queued_message_count = queued_message_count (message_queue p),
         ps_queued_num_bytes = queued_num_bytes (message_queue p)\<rparr>))"

fun make_signalable :: "PortName list \<Rightarrow> Node \<Rightarrow> Node option" where
  "make_signalable [] s = Some s"
| "make_signalable (n # ns) s =
     (case GetPort n s of
        None \<Rightarrow> None
      | Some r \<Rightarrow>
          make_signalable ns
            (upd_port (ref_port r) (\<lambda>p. p\<lparr>message_queue := set_signalable True (message_queue p)\<rparr>) s))"

definition GetMessage ::
    "(UserMessageEvent \<Rightarrow> bool) option \<Rightarrow> PortRef \<Rightarrow> Node \<Rightarrow> (rv \<times> UserMessageEvent option \<times> Node) option" where
  "GetMessage flt r s =
     (let p = port_at s (ref_port r) in
      if state p \<noteq> kReceiving then Some (ERROR_PORT_STATE_UNEXPECTED, None, s)
      else if \<not> CanAcceptMoreMessages p then Some (ERROR_PORT_PEER_CLOSED, None, s)
      else (case GetNextMessage flt (message_queue p) of
              (None, q) \<Rightarrow> Some (OK, None, upd_port (ref_port r) (\<lambda>p. p\<lparr>message_queue := q\<rparr>) s)
            | (Some m, q) \<Rightarrow>
                (case make_signalable (msg_ports m) (upd_port (ref_port r) (\<lambda>p. p\<lparr>message_queue := q\<rparr>) s) of
                   None \<Rightarrow> None
                 | Some s' \<Rightarrow> Some (OK, Some (set_sequence_num 0 m), s'))))"

section \<open>Forwarding\<close>

text \<open>
  \<open>ConvertToProxy\<close> works on the port object at address \<open>a\<close>, known as \<open>local_name\<close>; it
  returns the name the port will have on the target node and the descriptor sent there.
\<close>

definition ConvertToProxy :: "nat \<Rightarrow> NodeName \<Rightarrow> PortName \<Rightarrow> Node \<Rightarrow> PortName \<times> PortDescriptor \<times> Node" where
  "ConvertToProxy a to_node local_name s =
     (let (new_name, s1) = fresh_name s;
          p = port_at s1 a;
          d = \<lparr>pd_peer_node_name = peer_node_name p,
               pd_peer_port_name = peer_port_name p,
               pd_referring_node_name = node_name s1,
               pd_referring_port_name = local_name,
               pd_next_sequence_num_to_send = next_sequence_num_to_send p,
               pd_next_sequence_num_to_receive = next_sequence_num (message_queue p),
               pd_last_sequence_num_to_receive = last_sequence_num_to_receive p,
               pd_peer_closed = peer_closed p,
               pd_padding = 0\<rparr>
      in (new_name, d,
          upd_port a (\<lambda>p. p\<lparr>state := kBuffering,
                            remove_proxy_on_last_message :=
                              (if peer_closed p then True else remove_proxy_on_last_message p),
                            peer_node_name := to_node,
                            peer_port_name := new_name\<rparr>) s1))"

fun convert_attached :: "PortRef list \<Rightarrow> NodeName \<Rightarrow> Node \<Rightarrow> PortName list \<times> PortDescriptor list \<times> Node" where
  "convert_attached [] to_node s = ([], [], s)"
| "convert_attached (r # rs) to_node s =
     (let (n, d, s1) = ConvertToProxy (ref_port r) to_node (ref_name r) s;
          (ns, ds, s2) = convert_attached rs to_node s1
      in (n # ns, d # ds, s2))"

text \<open>
  \<open>PortLocker\<close>: all references must be to objects, and no object is locked twice.
\<close>

definition PortLocker :: "PortRef option list \<Rightarrow> PortRef list option" where
  "PortLocker rs =
     (if None \<in> set rs \<or> \<not> distinct (map (\<lambda>r. ref_port (the r)) rs) then None
      else Some (map the rs))"

text \<open>The first attached port that cannot be sent decides the error.\<close>

fun attached_error :: "PortName \<Rightarrow> PortRef list \<Rightarrow> Node \<Rightarrow> rv" where
  "attached_error peer [] s = OK"
| "attached_error peer (r # rs) s =
     (if state (port_at s (ref_port r)) \<noteq> kReceiving then ERROR_PORT_STATE_UNEXPECTED
      else if ref_name r = peer then ERROR_PORT_CANNOT_SEND_PEER
      else attached_error peer rs s)"

definition notify_local_peers :: "PortDescriptor list \<Rightarrow> Node \<Rightarrow> Node" where
  "notify_local_peers ds s =
     fold (\<lambda>d s'. if pd_peer_node_name d = node_name s'
                  then (case GetPort (pd_peer_port_name d) s' of
                          None \<Rightarrow> s'
                        | Some peer \<Rightarrow> call (PortStatusChanged peer) s')
                  else s') ds s"

text \<open>
  A message that has no sequence number yet takes the next one of the sending port.
\<close>

definition assign_sequence_num :: "nat \<Rightarrow> UserMessageEvent \<Rightarrow> Node \<Rightarrow> UserMessageEvent \<times> Node" where
  "assign_sequence_num a m s =
     (if sequence_num m = 0
      then (set_sequence_num (ucast (next_sequence_num_to_send (port_at s a))) m,
            upd_port a (\<lambda>p. p\<lparr>next_sequence_num_to_send := next_sequence_num_to_send p + 1\<rparr>) s)
      else (m, s))"

text \<open>Only a message that leaves the node has its attached ports turned into proxies.\<close>

definition rewrite_attached :: "PortRef list \<Rightarrow> NodeName \<Rightarrow> UserMessageEvent \<Rightarrow> Node \<Rightarrow> UserMessageEvent \<times> Node" where
  "rewrite_attached attached target m s =
     (if num_ports m > 0 \<and> target \<noteq> node_name s
      then (case convert_attached attached target s of (ns, ds, s') \<Rightarrow>
              (m\<lparr>msg_ports := ns, port_descriptors := ds\<rparr>, s'))
      else (m, s))"

text \<open>
  The result is the code, the message as modified, the target node and the state.  With methods
  running one at a time the target read first is still the target under the lock, so the retry of
  the source's loop is never taken.
\<close>

definition PrepareToForwardUserMessage ::
    "PortRef \<Rightarrow> State \<Rightarrow> bool \<Rightarrow> UserMessageEvent \<Rightarrow> Node \<Rightarrow> (rv \<times> UserMessageEvent \<times> NodeName \<times> Node) option" where
  "PrepareToForwardUserMessage r expected ignore_closed_peer m s =
     (let a = ref_port r;
          target = peer_node_name (port_at s a) in
      case (if target \<noteq> node_name s then NotifyWillBeRoutedExternally m else Some True) of
        None \<Rightarrow> None
      | Some routable \<Rightarrow>
          if \<not> routable then Some (ERROR_PORT_STATE_UNEXPECTED, m, kInvalidNodeName, s)
          else
          (case PortLocker (Some r # map (\<lambda>n. GetPort n s) (msg_ports m)) of
             None \<Rightarrow> None
           | Some locked \<Rightarrow>
               (let p = port_at s a; attached = tl locked in
                if state p \<noteq> expected
                then Some (ERROR_PORT_STATE_UNEXPECTED, m, kInvalidNodeName, s)
                else if peer_closed p \<and> \<not> ignore_closed_peer
                then Some (ERROR_PORT_PEER_CLOSED, m, kInvalidNodeName, s)
                else
                  (let (m1, s1) = assign_sequence_num a m s;
                       err = attached_error (peer_port_name p) attached s1 in
                   if err \<noteq> OK
                   then Some (err, m1, kInvalidNodeName,
                          upd_port a (\<lambda>p. p\<lparr>next_sequence_num_to_send := next_sequence_num_to_send p - 1\<rparr>) s1)
                   else
                     (let (m2, s2) = rewrite_attached attached target m1 s1;
                          m3 = m2\<lparr>msg_port_name := peer_port_name (port_at s2 a)\<rparr>
                      in Some (OK, m3, target,
                           if target \<noteq> node_name s2
                           then notify_local_peers (take (num_ports m3) (port_descriptors m3)) s2
                           else s2))))))"

section \<open>What forwarding changes\<close>

lemma length_upd_port [simp]: "length (port_objects (upd_port a f s)) = length (port_objects s)"
  by (simp add: upd_port_def)

lemma upd_port_frame [simp]:
  "ports (upd_port a f s) = ports s" "node_name (upd_port a f s) = node_name s"
  "name_generator (upd_port a f s) = name_generator s" "delegate (upd_port a f s) = delegate s"
  by (simp_all add: upd_port_def)

lemma port_at_upd_port:
  "port_at (upd_port a f s) b =
     (if b = a \<and> a < length (port_objects s) then f (port_at s a) else port_at s b)"
  by (auto simp: port_at_def upd_port_def nth_list_update list_update_beyond)

lemma port_at_upd_same [simp]:
  "a < length (port_objects s) \<Longrightarrow> port_at (upd_port a f s) a = f (port_at s a)"
  by (simp add: port_at_upd_port)

lemma port_at_upd_other [simp]: "b \<noteq> a \<Longrightarrow> port_at (upd_port a f s) b = port_at s b"
  by (simp add: port_at_upd_port)

lemma call_frame [simp]:
  "ports (call c s) = ports s" "node_name (call c s) = node_name s"
  "name_generator (call c s) = name_generator s" "port_objects (call c s) = port_objects s"
  "port_at (call c s) a = port_at s a" "delegate (call c s) = delegate s @ [c]"
  by (simp_all add: call_def port_at_def)

lemma GetPort_frame [simp]:
  "GetPort n (upd_port a f s) = GetPort n s" "GetPort n (call c s) = GetPort n s"
  by (simp_all add: GetPort_def)

lemma fresh_name_eq: "fresh_name s = (n, s') \<Longrightarrow> \<exists>g. s' = s\<lparr>name_generator := g\<rparr>"
  by (auto simp: fresh_name_def split: prod.splits)

lemma name_generator_frame [simp]:
  "port_at (s\<lparr>name_generator := g\<rparr>) a = port_at s a"
  by (simp add: port_at_def)

lemma attached_error_OK:
  "attached_error peer rs s = OK \<Longrightarrow> r \<in> set rs \<Longrightarrow>
     state (port_at s (ref_port r)) = kReceiving \<and> ref_name r \<noteq> peer"
  by (induction rs) (auto split: if_splits)

lemma PortLocker_Some:
  "PortLocker (Some r # rs) = Some locked \<Longrightarrow>
     locked = r # map the rs \<and> None \<notin> set rs \<and> distinct (map ref_port locked)"
  by (auto simp: PortLocker_def comp_def split: if_splits)

text \<open>The three ways in which \<open>PrepareToForwardUserMessage\<close> returns.\<close>

lemma PrepareE:
  assumes "PrepareToForwardUserMessage r expected ign m s = Some (rv, m', t, s')"
  obtains (fail) "rv \<noteq> OK" "m' = m" "s' = s"
  | (backpedal) m1 s1 v where "assign_sequence_num (ref_port r) m s = (m1, s1)" "rv \<noteq> OK" "m' = m1"
      "state (port_at s (ref_port r)) = expected"
      "s' = upd_port (ref_port r) (\<lambda>p. p\<lparr>next_sequence_num_to_send := next_sequence_num_to_send p - 1\<rparr>) s1"
      "rv = attached_error (peer_port_name (port_at s (ref_port r))) v s1"
      "PortLocker (Some r # map (\<lambda>n. GetPort n s) (msg_ports m)) = Some (r # v)"
  | (sent) attached m1 s1 m2 s2 where "assign_sequence_num (ref_port r) m s = (m1, s1)" "rv = OK"
      "PortLocker (Some r # map (\<lambda>n. GetPort n s) (msg_ports m)) = Some (r # attached)"
      "distinct (map ref_port (r # attached))"
      "state (port_at s (ref_port r)) = expected" "peer_closed (port_at s (ref_port r)) \<longrightarrow> ign"
      "attached_error (peer_port_name (port_at s (ref_port r))) attached s1 = OK"
      "t = peer_node_name (port_at s (ref_port r))"
      "rewrite_attached attached t m1 s1 = (m2, s2)"
      "m' = m2\<lparr>msg_port_name := peer_port_name (port_at s2 (ref_port r))\<rparr>"
      "s' = (if t \<noteq> node_name s2
             then notify_local_peers (take (num_ports m') (port_descriptors m')) s2 else s2)"
proof -
  let ?a = "ref_port r"
  let ?lk = "PortLocker (Some r # map (\<lambda>n. GetPort n s) (msg_ports m))"
  obtain m1 s1 where as: "assign_sequence_num ?a m s = (m1, s1)" by fastforce
  show ?thesis
  proof (cases ?lk)
    case None
    with assms show ?thesis
      by (intro that(1)) (auto simp: PrepareToForwardUserMessage_def Let_def split: option.splits if_splits)
  next
    case (Some locked)
    then obtain v where v: "locked = r # v" "distinct (map ref_port (r # v))"
      using PortLocker_Some [OF Some] by blast
    let ?t = "peer_node_name (port_at s ?a)"
    obtain m2 s2 where rw: "rewrite_attached v ?t m1 s1 = (m2, s2)" by fastforce
    note prep = assms [unfolded PrepareToForwardUserMessage_def Let_def Some v(1) as rw, simplified]
    show ?thesis
    proof (cases "rv = OK")
      case True
      show ?thesis
        by (rule that(3) [of m1 s1 v m2 s2])
          (use prep True Some v as rw in \<open>auto split: option.splits if_splits\<close>)
    next
      case False
      then consider "m' = m" "s' = s"
        | "m' = m1" "state (port_at s ?a) = expected" "rv = attached_error (peer_port_name (port_at s ?a)) v s1"
          "s' = upd_port ?a (\<lambda>p. p\<lparr>next_sequence_num_to_send := next_sequence_num_to_send p - 1\<rparr>) s1"
        using prep by (auto split: option.splits if_splits prod.splits)
      then show ?thesis
      proof cases
        case 1
        with False show ?thesis by (rule that(1))
      next
        case 2
        show ?thesis by (rule that(2) [OF as False]) (use 2 Some v in simp_all)
      qed
    qed
  qed
qed

text \<open>
  A relation \<open>R\<close> between states that every primitive change of the forwarding path respects;
  \<open>E\<close> says which changes of a single port object are allowed.  Everything that only forwards
  messages then respects \<open>R\<close>.
\<close>

locale forwarding_frame =
  fixes R :: "Node \<Rightarrow> Node \<Rightarrow> bool"
    and E :: "Port \<Rightarrow> Port \<Rightarrow> bool"
  assumes R_refl: "R s s"
    and R_trans: "R s t \<Longrightarrow> R t u \<Longrightarrow> R s u"
    and R_call: "R s (call c s)"
    and R_name: "R s (s\<lparr>name_generator := g\<rparr>)"
    and R_upd: "E (port_at s a) (f (port_at s a)) \<Longrightarrow> R s (upd_port a f s)"
    and E_send: "E p (p\<lparr>next_sequence_num_to_send := n\<rparr>)"
    and E_proxy: "state p = kReceiving \<Longrightarrow>
      E p (p\<lparr>state := kBuffering, remove_proxy_on_last_message := b, peer_node_name := x, peer_port_name := y\<rparr>)"
begin

lemma R_ConvertToProxy:
  assumes "state (port_at s a) = kReceiving" and "ConvertToProxy a t l s = (n, d, s')"
  shows "R s s'"
proof -
  obtain g nn where f: "fresh_name s = (nn, s\<lparr>name_generator := g\<rparr>)"
    using fresh_name_eq by (metis surj_pair)
  let ?u = "s\<lparr>name_generator := g\<rparr>"
  have "R ?u s'"
    using assms f by (auto simp: ConvertToProxy_def Let_def intro!: R_upd E_proxy)
  with R_name show ?thesis by (rule R_trans)
qed

lemma ConvertToProxy_others:
  "ConvertToProxy a t l s = (n, d, s') \<Longrightarrow> b \<noteq> a \<Longrightarrow> port_at s' b = port_at s b"
  using fresh_name_eq [of s "fst (fresh_name s)" "snd (fresh_name s)"]
  by (auto simp: ConvertToProxy_def Let_def split: prod.splits)

lemma R_convert_attached:
  assumes "\<And>r. r \<in> set rs \<Longrightarrow> state (port_at s (ref_port r)) = kReceiving"
    and "distinct (map ref_port rs)" and "convert_attached rs t s = (ns, ds, s')"
  shows "R s s'"
  using assms
proof (induction rs arbitrary: s ns ds)
  case Nil
  then show ?case by (simp add: R_refl)
next
  case (Cons r rs)
  obtain n d s1 where c: "ConvertToProxy (ref_port r) t (ref_name r) s = (n, d, s1)"
    by (metis prod_cases3)
  obtain ns1 ds1 where rest: "convert_attached rs t s1 = (ns1, ds1, s')"
    using Cons.prems(3) c by (auto split: prod.splits)
  have "R s s1" using Cons.prems(1) c by (intro R_ConvertToProxy) auto
  moreover have "R s1 s'"
  proof (rule Cons.IH [OF _ _ rest])
    fix r'
    assume r': "r' \<in> set rs"
    then have "ref_port r' \<noteq> ref_port r" using Cons.prems(2) by (auto dest: image_eqI)
    then show "state (port_at s1 (ref_port r')) = kReceiving"
      using r' Cons.prems(1) ConvertToProxy_others [OF c] by simp
  qed (use Cons.prems in simp)
  ultimately show ?case by (rule R_trans)
qed

lemma R_assign_sequence_num: "assign_sequence_num a m s = (m', s') \<Longrightarrow> R s s'"
  by (auto simp: assign_sequence_num_def R_refl intro!: R_upd E_send split: if_splits)

lemma R_rewrite_attached:
  assumes "\<And>r. r \<in> set rs \<Longrightarrow> state (port_at s (ref_port r)) = kReceiving"
    and "distinct (map ref_port rs)" and "rewrite_attached rs t m s = (m', s')"
  shows "R s s'"
  using assms R_convert_attached [OF assms(1,2)]
  by (auto simp: rewrite_attached_def R_refl split: if_splits prod.splits)

lemma R_notify_local_peers: "R s (notify_local_peers ds s)"
  unfolding notify_local_peers_def
proof (induction ds arbitrary: s)
  case Nil
  then show ?case by (simp add: R_refl)
next
  case (Cons d ds)
  have "R s (if pd_peer_node_name d = node_name s
             then case GetPort (pd_peer_port_name d) s of None \<Rightarrow> s
                  | Some peer \<Rightarrow> call (PortStatusChanged peer) s
             else s)"
    by (auto simp: R_refl R_call split: option.splits)
  from R_trans [OF this Cons.IH] show ?case by simp
qed

lemma R_PrepareToForwardUserMessage:
  assumes "PrepareToForwardUserMessage r expected ign m s = Some (rv, m', t, s')"
  shows "R s s'"
  using assms
proof (cases rule: PrepareE)
  case fail
  then show ?thesis by (simp add: R_refl)
next
  case (backpedal m1 s1 v)
  then show ?thesis
    by (auto intro!: R_upd E_send R_trans [OF R_assign_sequence_num [OF backpedal(1)]])
next
  case (sent attached m1 s1 m2 s2)
  have "R s s1" using sent by (intro R_assign_sequence_num)
  moreover have "R s1 s2"
    using sent attached_error_OK by (intro R_rewrite_attached [of attached]) auto
  moreover have "R s2 s'" using sent by (auto simp: R_refl R_notify_local_peers)
  ultimately show ?thesis using R_trans by blast
qed

end

text \<open>Forwarding leaves every message queue alone.\<close>

definition same_queues :: "Node \<Rightarrow> Node \<Rightarrow> bool" where
  "same_queues s t \<longleftrightarrow> length (port_objects t) = length (port_objects s) \<and>
     ports t = ports s \<and> node_name t = node_name s \<and>
     (\<forall>a. message_queue (port_at t a) = message_queue (port_at s a))"

interpretation queue_frame: forwarding_frame same_queues "\<lambda>p p'. message_queue p' = message_queue p"
  by unfold_locales (auto simp: same_queues_def port_at_upd_port)

text \<open>
  The loop of \<open>ForwardUserMessagesFromProxy\<close> takes a message off the queue of the proxy in
  every iteration; forwarding never adds one.  (A reference always names a port object; the first
  test only makes the recursion total.)
\<close>

function ForwardUserMessagesFromProxy :: "PortRef \<Rightarrow> Node \<Rightarrow> (rv \<times> Node) option" where
  "ForwardUserMessagesFromProxy r s =
     (if \<not> ref_port r < length (port_objects s) then None
      else
       (case GetNextMessage None (message_queue (port_at s (ref_port r))) of
          (None, q) \<Rightarrow> Some (OK, upd_port (ref_port r) (\<lambda>p. p\<lparr>message_queue := q\<rparr>) s)
        | (Some m, q) \<Rightarrow>
            (let s1 = upd_port (ref_port r) (\<lambda>p. p\<lparr>message_queue := q\<rparr>) s in
             case PrepareToForwardUserMessage r kProxying True m s1 of
               None \<Rightarrow> None
             | Some (rv, m', target, s2) \<Rightarrow>
                 if rv \<noteq> OK then Some (rv, s2)
                 else ForwardUserMessagesFromProxy r (call (ForwardEvent target (UserMessageEv m')) s2))))"
  by pat_completeness auto

termination
proof (relation "measure (\<lambda>(r, s). length (heap (message_queue (port_at s (ref_port r)))))", goal_cases)
  case 1
  then show ?case by simp
next
  case (2 r s x q m s1 rst rv y m' z target s2)
  have "same_queues s1 s2"
    using 2 by (auto intro: queue_frame.R_PrepareToForwardUserMessage)
  then have "message_queue (port_at s2 (ref_port r)) = q"
    using 2 by (auto simp: same_queues_def)
  then show ?case
    using GetNextMessage_shrinks [of None "message_queue (port_at s (ref_port r))" m q] 2 by auto
qed

declare ForwardUserMessagesFromProxy.simps [simp del]

end
