(* ===== verification/Node_Handlers.thy ===== *)
theory Node_Handlers
  imports Port_Node
begin

text \<open>
  The event handlers of \<open>mojo/core/ports/node.cc\<close>: proxy removal, acceptance of user messages
  and of the ports attached to them, the control events of the proxy protocol, merging, and the
  loss of a connection.  The table \<open>ports_\<close> of the source is an unordered map; loops over it
  visit the entries in the order of the list \<open>ports\<close>.
\<close>

section \<open>Removing proxies\<close>

definition InitiateProxyRemoval :: "PortRef \<Rightarrow> Node \<Rightarrow> Node" where
  "InitiateProxyRemoval r s =
     (let p = port_at s (ref_port r) in
      call (ForwardEvent (peer_node_name p)
             (ObserveProxyEv (peer_port_name p) (node_name s) (ref_name r)
                (peer_node_name p) (peer_port_name p))) s)"

definition TryRemoveProxy :: "PortRef \<Rightarrow> Node \<Rightarrow> Node" where
  "TryRemoveProxy r s =
     (let p = port_at s (ref_port r) in
      if \<not> remove_proxy_on_last_message p then s
      else if \<not> CanAcceptMoreMessages p then
        (let s1 = ErasePort (ref_name r)
                    (upd_port (ref_port r) (\<lambda>p. p\<lparr>send_on_proxy_removal := None\<rparr>) s)
         in case send_on_proxy_removal p of
              None \<Rightarrow> s1
            | Some (target, event) \<Rightarrow> call (ForwardEvent target event) s1)
      else s)"

definition BeginProxying :: "PortRef \<Rightarrow> Node \<Rightarrow> (rv \<times> Node) option" where
  "BeginProxying r s =
     (if state (port_at s (ref_port r)) \<noteq> kBuffering then Some (ERROR_PORT_STATE_UNEXPECTED, s)
      else (case ForwardUserMessagesFromProxy r
                   (upd_port (ref_port r) (\<lambda>p. p\<lparr>state := kProxying\<rparr>) s) of
              None \<Rightarrow> None
            | Some (rv, s1) \<Rightarrow>
                if rv \<noteq> OK then Some (rv, s1)
                else (let p = port_at s1 (ref_port r) in
                  if state p \<noteq> kProxying then Some (ERROR_PORT_STATE_UNEXPECTED, s1)
                  else if remove_proxy_on_last_message p
                  then Some (OK, call (ForwardEvent (peer_node_name p)
                               (ObserveClosureEv (peer_port_name p) (last_sequence_num_to_receive p)))
                               (TryRemoveProxy r s1))
                  else Some (OK, InitiateProxyRemoval r s1))))"

section \<open>User messages\<close>

definition AcceptPort :: "PortName \<Rightarrow> PortDescriptor \<Rightarrow> Node \<Rightarrow> rv \<times> Node" where
  "AcceptPort n d s =
     (let p0 = new_Port (pd_next_sequence_num_to_send d) (pd_next_sequence_num_to_receive d);
          p = p0\<lparr>state := kReceiving,
                 peer_node_name := pd_peer_node_name d,
                 peer_port_name := pd_peer_port_name d,
                 last_sequence_num_to_receive := pd_last_sequence_num_to_receive d,
                 peer_closed := pd_peer_closed d,
                 message_queue := set_signalable False (message_queue p0)\<rparr>;
          (rv, s1) = AddPortWithName n p s
      in if rv \<noteq> OK then (rv, s1)
         else (OK, call (ForwardEvent (pd_referring_node_name d)
                           (PortAcceptedEv (pd_referring_port_name d))) s1))"

text \<open>
  The loop over the attached ports of a message: a port with an invalid referring node must
  already exist, any other is bound here and its referring node wiped out of the descriptor.
\<close>

fun accept_attached :: "(PortName \<times> PortDescriptor) list \<Rightarrow> Node \<Rightarrow> rv \<times> PortDescriptor list \<times> Node" where
  "accept_attached [] s = (OK, [], s)"
| "accept_attached ((n, d) # rest) s =
     (if pd_referring_node_name d = kInvalidNodeName
      then (case GetPort n s of
              None \<Rightarrow> (ERROR_PORT_UNKNOWN, d # map snd rest, s)
            | Some _ \<Rightarrow> (case accept_attached rest s of (rv, ds, s') \<Rightarrow> (rv, d # ds, s')))
      else (case AcceptPort n d s of (rv, s1) \<Rightarrow>
              if rv \<noteq> OK then (rv, d # map snd rest, s1)
              else (case accept_attached rest s1 of (rv', ds, s') \<Rightarrow>
                (rv', d\<lparr>pd_referring_node_name := kInvalidNodeName\<rparr> # ds, s'))))"

definition OnUserMessage :: "UserMessageEvent \<Rightarrow> Node \<Rightarrow> (rv \<times> Node) option" where
  "OnUserMessage m s =
     (case accept_attached (zip (msg_ports m) (port_descriptors m)) s of (rv, ds, s1) \<Rightarrow>
        if rv \<noteq> OK then Some (rv, s1)
        else (case GetPort (msg_port_name m) s1 of
                None \<Rightarrow> Some (OK, close_named (msg_ports m) s1)
              | Some r \<Rightarrow>
                  (let p = port_at s1 (ref_port r) in
                   if CanAcceptMoreMessages p then
                     (let (has_next, q) = AcceptMessage (m\<lparr>port_descriptors := ds\<rparr>) (message_queue p);
                          s2 = upd_port (ref_port r) (\<lambda>p. p\<lparr>message_queue := q\<rparr>) s1 in
                      if state p = kBuffering then Some (OK, s2)
                      else if state p = kProxying then
                        (case ForwardUserMessagesFromProxy r s2 of
                           None \<Rightarrow> None
                         | Some (rv, s3) \<Rightarrow>
                             if rv \<noteq> OK then Some (rv, s3) else Some (OK, TryRemoveProxy r s3))
                      else if has_next then Some (OK, call (PortStatusChanged r) s2)
                      else Some (OK, s2))
                   else Some (OK, close_named (msg_ports m) s1))))"

definition OnPortAccepted :: "PortName \<Rightarrow> Node \<Rightarrow> (rv \<times> Node) option" where
  "OnPortAccepted n s =
     (case GetPort n s of
        None \<Rightarrow> Some (ERROR_PORT_UNKNOWN, s)
      | Some r \<Rightarrow> BeginProxying r s)"

section \<open>The loss of a peer\<close>

definition has_peer :: "NodeName \<Rightarrow> PortName \<Rightarrow> Port \<Rightarrow> bool" where
  "has_peer node port p \<longleftrightarrow>
     peer_node_name p = node \<and> (port = kInvalidPortName \<or> peer_port_name p = port)"

text \<open>
  The first loop of \<open>DestroyAllPortsWithPeer\<close>: the receiving ports to notify, the names of
  the dead proxies, and the messages these still held.
\<close>

fun destroy_scan ::
    "NodeName \<Rightarrow> PortName \<Rightarrow> (PortName \<times> nat) list \<Rightarrow> Node \<Rightarrow>
     PortRef list \<times> PortName list \<times> UserMessageEvent list \<times> Node" where
  "destroy_scan node port [] s = ([], [], [], s)"
| "destroy_scan node port ((n, a) # rest) s =
     (let p = port_at s a in
      if \<not> has_peer node port p then destroy_scan node port rest s
      else
        (let s1 = (if peer_closed p then s
                   else upd_port a (\<lambda>p. p\<lparr>peer_closed := True,
                          last_sequence_num_to_receive := next_sequence_num (message_queue p) - 1\<rparr>) s);
             notify = (if \<not> peer_closed p \<and> state p = kReceiving
                       then [\<lparr>ref_name = n, ref_port = a\<rparr>] else []) in
         if state p = kReceiving
         then (case destroy_scan node port rest s1 of (ns, dead, ms, s') \<Rightarrow> (notify @ ns, dead, ms, s'))
         else (case TakeAllMessages (message_queue (port_at s1 a)) of (taken, q) \<Rightarrow>
                 case destroy_scan node port rest (upd_port a (\<lambda>p. p\<lparr>message_queue := q\<rparr>) s1) of
                   (ns, dead, ms, s') \<Rightarrow> (notify @ ns, n # dead, taken @ ms, s'))))"

text \<open>
  A dead proxy may itself be the peer of a local proxy, so the routine calls itself for every
  dead proxy.  All dead proxies leave the table before that, so a depth of the number of ports is
  enough (\<open>DestroyAllPortsWithPeer_rec\<close>).
\<close>

primrec DestroyAllPortsWithPeer_fuel :: "nat \<Rightarrow> NodeName \<Rightarrow> PortName \<Rightarrow> Node \<Rightarrow> Node" where
  "DestroyAllPortsWithPeer_fuel 0 node port s = s"
| "DestroyAllPortsWithPeer_fuel (Suc fuel) node port s =
     (case destroy_scan node port (ports s) s of (notify, dead, undelivered, s1) \<Rightarrow>
        (let s2 = fold ErasePort dead s1;
             s3 = fold (\<lambda>r. call (PortStatusChanged r)) notify s2;
             s4 = fold (\<lambda>x s'. DestroyAllPortsWithPeer_fuel fuel (node_name s') x
                          (call (BroadcastEvent (ObserveProxyEv kInvalidPortName (node_name s') x
                                   kInvalidNodeName kInvalidPortName)) s')) dead s3
         in close_named (concat (map msg_ports undelivered)) s4))"

definition DestroyAllPortsWithPeer :: "NodeName \<Rightarrow> PortName \<Rightarrow> Node \<Rightarrow> Node" where
  "DestroyAllPortsWithPeer node port s =
     DestroyAllPortsWithPeer_fuel (Suc (length (ports s))) node port s"

definition LostConnectionToNode :: "NodeName \<Rightarrow> Node \<Rightarrow> rv \<times> Node" where
  "LostConnectionToNode node s = (OK, DestroyAllPortsWithPeer node kInvalidPortName s)"

section \<open>Control events\<close>

definition OnObserveProxy ::
    "PortName \<Rightarrow> NodeName \<Rightarrow> PortName \<Rightarrow> NodeName \<Rightarrow> PortName \<Rightarrow> Node \<Rightarrow> rv \<times> Node" where
  "OnObserveProxy n proxy_node proxy_port target_node target_port s =
     (if n = kInvalidPortName then (OK, DestroyAllPortsWithPeer proxy_node proxy_port s)
      else (case GetPort n s of
              None \<Rightarrow> (OK, s)
            | Some r \<Rightarrow>
                (let a = ref_port r; p = port_at s a in
                 if peer_node_name p = proxy_node \<and> peer_port_name p = proxy_port then
                   if state p = kReceiving then
                     (OK, call (PortStatusChanged r)
                           (call (ForwardEvent proxy_node
                                    (ObserveProxyAckEv proxy_port (next_sequence_num_to_send p - 1)))
                             (upd_port a (\<lambda>p. p\<lparr>peer_node_name := target_node,
                                               peer_port_name := target_port\<rparr>) s)))
                   else
                     (OK, upd_port a (\<lambda>p. p\<lparr>send_on_proxy_removal :=
                            Some (proxy_node, ObserveProxyAckEv proxy_port kInvalidSequenceNum)\<rparr>) s)
                 else
                   (OK, call (ForwardEvent (peer_node_name p)
                          (ObserveProxyEv (peer_port_name p) proxy_node proxy_port
                             target_node target_port)) s))))"

definition OnObserveProxyAck :: "PortName \<Rightarrow> u64 \<Rightarrow> Node \<Rightarrow> rv \<times> Node" where
  "OnObserveProxyAck n last_sequence_num s =
     (case GetPort n s of
        None \<Rightarrow> (ERROR_PORT_UNKNOWN, s)
      | Some r \<Rightarrow>
          if state (port_at s (ref_port r)) \<noteq> kProxying then (ERROR_PORT_STATE_UNEXPECTED, s)
          else if last_sequence_num \<noteq> kInvalidSequenceNum
          then (OK, TryRemoveProxy r
                 (upd_port (ref_port r) (\<lambda>p. p\<lparr>remove_proxy_on_last_message := True,
                    last_sequence_num_to_receive := last_sequence_num\<rparr>) s))
          else (OK, InitiateProxyRemoval r s))"

definition OnObserveClosure :: "PortName \<Rightarrow> u64 \<Rightarrow> Node \<Rightarrow> rv \<times> Node" where
  "OnObserveClosure n last_sequence_num s =
     (case GetPort n s of
        None \<Rightarrow> (OK, s)
      | Some r \<Rightarrow>
          (let a = ref_port r; p = port_at s a in
           if state p = kReceiving then
             (OK, call (PortStatusChanged r)
                   (call (ForwardEvent (peer_node_name p)
                            (ObserveClosureEv (peer_port_name p) (next_sequence_num_to_send p - 1)))
                     (upd_port a (\<lambda>p. p\<lparr>peer_closed := True,
                        last_sequence_num_to_receive := last_sequence_num\<rparr>) s)))
           else
             (let s1 = upd_port a (\<lambda>p. p\<lparr>peer_closed := True,
                         last_sequence_num_to_receive := last_sequence_num,
                         remove_proxy_on_last_message := True\<rparr>) s;
                  s2 = (if state p = kProxying then TryRemoveProxy r s1 else s1)
              in (OK, call (ForwardEvent (peer_node_name p)
                              (ObserveClosureEv (peer_port_name p) last_sequence_num)) s2))))"

section \<open>Merging\<close>

definition swap_peers :: "nat \<Rightarrow> nat \<Rightarrow> Node \<Rightarrow> Node" where
  "swap_peers a b s =
     (let p = port_at s a; q = port_at s b in
      upd_port b (\<lambda>x. x\<lparr>peer_node_name := peer_node_name p, peer_port_name := peer_port_name p\<rparr>)
        (upd_port a (\<lambda>x. x\<lparr>peer_node_name := peer_node_name q, peer_port_name := peer_port_name q\<rparr>) s))"

definition can_merge :: "PortRef \<Rightarrow> PortRef \<Rightarrow> Node \<Rightarrow> bool" where
  "can_merge r0 r1 s =
     (let p0 = port_at s (ref_port r0); p1 = port_at s (ref_port r1) in
      \<not> (state p0 \<noteq> kReceiving \<or> state p1 \<noteq> kReceiving \<or>
         (peer_node_name p0 = node_name s \<and> peer_port_name p0 = ref_name r1) \<or>
         (peer_node_name p1 = node_name s \<and> peer_port_name p1 = ref_name r0) \<or>
         next_sequence_num_to_send p0 \<noteq> kInitialSequenceNum \<or>
         next_sequence_num_to_send p1 \<noteq> kInitialSequenceNum))"

definition start_proxying :: "nat \<Rightarrow> Node \<Rightarrow> Node" where
  "start_proxying a s =
     upd_port a (\<lambda>p. p\<lparr>state := kProxying,
                       remove_proxy_on_last_message :=
                         (if peer_closed p then True else remove_proxy_on_last_message p)\<rparr>) s"

definition complete_merge :: "PortRef \<Rightarrow> Node \<Rightarrow> Node" where
  "complete_merge r s =
     (let p = port_at s (ref_port r);
          s1 = (if remove_proxy_on_last_message p then TryRemoveProxy r s else InitiateProxyRemoval r s)
      in if remove_proxy_on_last_message p \<or> peer_closed p
         then call (ForwardEvent (peer_node_name p)
                     (ObserveClosureEv (peer_port_name p) (last_sequence_num_to_receive p))) s1
         else s1)"

definition undo_proxying :: "nat \<Rightarrow> Node \<Rightarrow> Node" where
  "undo_proxying a s =
     upd_port a (\<lambda>p. p\<lparr>remove_proxy_on_last_message := False, state := kReceiving\<rparr>) s"

definition MergePortsInternal :: "PortRef \<Rightarrow> PortRef \<Rightarrow> bool \<Rightarrow> Node \<Rightarrow> (rv \<times> Node) option" where
  "MergePortsInternal r0 r1 allow_close_on_bad_state s =
     (let a = ref_port r0; b = ref_port r1 in
      case PortLocker [Some r0, Some r1] of
        None \<Rightarrow> None
      | Some _ \<Rightarrow>
          if \<not> can_merge r0 r1 s then
            (let close0 = state (port_at s a) = kReceiving \<or> allow_close_on_bad_state;
                 close1 = state (port_at s b) = kReceiving \<or> allow_close_on_bad_state;
                 s1 = (if close0 then snd (ClosePort r0 s) else s);
                 s2 = (if close1 then snd (ClosePort r1 s1) else s1)
             in Some (ERROR_PORT_STATE_UNEXPECTED, s2))
          else
            (let s1 = start_proxying b (start_proxying a (swap_peers a b s));
                 undo = (\<lambda>s'. let u = undo_proxying b (undo_proxying a (swap_peers a b s'))
                              in Some (ERROR_PORT_STATE_UNEXPECTED,
                                   snd (ClosePort r1 (snd (ClosePort r0 u))))) in
             case ForwardUserMessagesFromProxy r0 s1 of
               None \<Rightarrow> None
             | Some (rv0, s2) \<Rightarrow>
                 if rv0 \<noteq> OK then undo s2
                 else (case ForwardUserMessagesFromProxy r1 s2 of
                         None \<Rightarrow> None
                       | Some (rv1, s3) \<Rightarrow>
                           if rv1 \<noteq> OK then undo s3
                           else Some (OK, complete_merge r1 (complete_merge r0 s3)))))"

definition MergeLocalPorts :: "PortRef \<Rightarrow> PortRef \<Rightarrow> Node \<Rightarrow> (rv \<times> Node) option" where
  "MergeLocalPorts r0 r1 s = MergePortsInternal r0 r1 True s"

definition MergePorts :: "PortRef \<Rightarrow> NodeName \<Rightarrow> PortName \<Rightarrow> Node \<Rightarrow> rv \<times> Node" where
  "MergePorts r destination_node destination_port s =
     (case ConvertToProxy (ref_port r) destination_node (ref_name r) s of (new_name, d, s1) \<Rightarrow>
        (let s2 = (if pd_peer_node_name d = node_name s1 \<and> destination_node \<noteq> node_name s1
                   then (case GetPort (pd_peer_port_name d) s1 of
                           None \<Rightarrow> s1
                         | Some local_peer \<Rightarrow> call (PortStatusChanged local_peer) s1)
                   else s1)
         in (OK, call (ForwardEvent destination_node (MergePortEv destination_port new_name d)) s2)))"

definition OnMergePort :: "PortName \<Rightarrow> PortName \<Rightarrow> PortDescriptor \<Rightarrow> Node \<Rightarrow> (rv \<times> Node) option" where
  "OnMergePort n new_name d s =
     (let port_ref = GetPort n s in
      case AcceptPort new_name d s of (rv, s1) \<Rightarrow>
        if rv \<noteq> OK
        then Some (ERROR_PORT_STATE_UNEXPECTED,
               case port_ref of None \<Rightarrow> s1 | Some r \<Rightarrow> snd (ClosePort r s1))
        else (case (port_ref, GetPort new_name s1) of
                (None, Some new_ref) \<Rightarrow> Some (ERROR_PORT_UNKNOWN, snd (ClosePort new_ref s1))
              | (Some r, None) \<Rightarrow> Some (ERROR_PORT_UNKNOWN, snd (ClosePort r s1))
              | (None, None) \<Rightarrow> None
              | (Some r, Some new_ref) \<Rightarrow> MergePortsInternal r new_ref False s1))"

section \<open>Dispatch and sending\<close>

primrec AcceptEvent :: "Event \<Rightarrow> Node \<Rightarrow> (rv \<times> Node) option" where
  "AcceptEvent (UserMessageEv m) s = OnUserMessage m s"
| "AcceptEvent (PortAcceptedEv n) s = OnPortAccepted n s"
| "AcceptEvent (ObserveProxyEv n pn pp tn tp) s = Some (OnObserveProxy n pn pp tn tp s)"
| "AcceptEvent (ObserveProxyAckEv n l) s = Some (OnObserveProxyAck n l s)"
| "AcceptEvent (ObserveClosureEv n l) s = Some (OnObserveClosure n l s)"
| "AcceptEvent (MergePortEv n nn d) s = OnMergePort n nn d s"

text \<open>The message is returned as modified by a failed attempt.\<close>

definition SendUserMessageInternal ::
    "PortRef \<Rightarrow> UserMessageEvent \<Rightarrow> Node \<Rightarrow> (rv \<times> UserMessageEvent \<times> Node) option" where
  "SendUserMessageInternal r m s =
     (if ref_name r \<in> set (msg_ports m) then Some (ERROR_PORT_CANNOT_SEND_SELF, m, s)
      else (case PrepareToForwardUserMessage r kReceiving False m s of
              None \<Rightarrow> None
            | Some (rv, m', target, s1) \<Rightarrow>
                if rv \<noteq> OK then Some (rv, m', s1)
                else if target \<noteq> node_name s1
                then Some (OK, m', call (ForwardEvent target (UserMessageEv m')) s1)
                else (case AcceptEvent (UserMessageEv m') s1 of
                        None \<Rightarrow> None
                      | Some (accept_result, s2) \<Rightarrow> Some (OK, m', s2))))"

definition SendUserMessage :: "PortRef \<Rightarrow> UserMessageEvent \<Rightarrow> Node \<Rightarrow> (rv \<times> Node) option" where
  "SendUserMessage r m s =
     (case SendUserMessageInternal r m s of
        None \<Rightarrow> None
      | Some (rv, m', s1) \<Rightarrow>
          Some (rv, if rv \<noteq> OK
                    then close_named (filter (\<lambda>n. n \<noteq> ref_name r) (msg_ports m')) s1
                    else s1))"

end
