(* ===== verification/Node_Invariant.thy ===== *)
theory Node_Invariant
  imports Node_Handlers "HOL-Library.Sublist"
begin

text \<open>
  The node as a state machine: the recursion equations of the two recursive methods (with enough
  fuel), the invariant of the port table and of the queues, and the life cycle of ports, both
  preserved by every method and event handler.
\<close>

section \<open>The table never grows while closing\<close>

lemma filter_absent: "map_of es n = None \<Longrightarrow> filter (\<lambda>(k, _). k \<noteq> n) es = es"
  by (induction es) (auto split: if_splits)

lemma ports_ErasePort: "ports (ErasePort n s) = filter (\<lambda>(k, _). k \<noteq> n) (ports s)"
  by (cases "map_of (ports s) n") (simp_all add: ErasePort_def filter_absent)

lemma length_ErasePort_le: "length (ports (ErasePort n s)) \<le> length (ports s)"
  by (simp add: ports_ErasePort)

lemma length_ErasePort_less:
  assumes "map_of (ports s) n \<noteq> None"
  shows "length (ports (ErasePort n s)) < length (ports s)"
proof -
  from assms obtain a where "(n, a) \<in> set (ports s)" by (auto dest: map_of_SomeD)
  then show ?thesis unfolding ports_ErasePort by (intro length_filter_less) auto
qed

lemma GetPort_Some:
  "GetPort n s = Some r \<Longrightarrow> ref_name r = n \<and> map_of (ports s) n = Some (ref_port r)"
  by (auto simp: GetPort_def split: option.splits)

lemma fold_table_cong:
  assumes "length (ports s) \<le> k"
    and "\<And>x s'. length (ports s') \<le> k \<Longrightarrow> f x s' = g x s' \<and> length (ports (f x s')) \<le> length (ports s')"
  shows "fold f xs s = fold g xs s \<and> length (ports (fold f xs s)) \<le> length (ports s)"
  using assms(1)
proof (induction xs arbitrary: s)
  case (Cons x xs)
  from assms(2) [OF Cons.prems, of x] have "f x s = g x s" "length (ports (f x s)) \<le> length (ports s)" by auto
  with Cons.IH [of "f x s"] Cons.prems show ?case by fastforce
qed simp

lemma length_ClosePort_fuel: "length (ports (snd (ClosePort_fuel fuel r s))) \<le> length (ports s)"
proof (induction fuel arbitrary: r s)
  case (Suc fuel)
  let ?f = "\<lambda>n s'. case GetPort n s' of None \<Rightarrow> s' | Some ref \<Rightarrow> snd (ClosePort_fuel fuel ref s')"
  have "length (ports (?f n s')) \<le> length (ports s')" for n s'
    using Suc by (auto split: option.splits)
  then have le: "length (ports (fold ?f ns s')) \<le> length (ports s')" for ns s'
    using fold_table_cong [of s' "length (ports s')" ?f ?f ns] by simp
  have "length (ports (fold ?f ns (call c (ErasePort n (upd_port a h s))))) \<le> length (ports s)" for ns c n a h
    using le [of ns "call c (ErasePort n (upd_port a h s))"] length_ErasePort_le [of n "upd_port a h s"]
    by simp
  then show ?case
    by (simp add: Let_def length_ErasePort_le split: State.splits prod.splits)
qed simp

lemma ClosePort_fuel_enough:
  assumes "map_of (ports s) (ref_name r) \<noteq> None"
    and "length (ports s) \<le> f" and "length (ports s) \<le> g"
  shows "ClosePort_fuel f r s = ClosePort_fuel g r s"
  using assms
proof (induction f arbitrary: g r s)
  case 0
  then show ?case by simp
next
  case (Suc f)
  from Suc.prems obtain g' where g: "g = Suc g'"
    by (cases g) auto
  let ?F = "\<lambda>h n s'. case GetPort n s' of None \<Rightarrow> s' | Some ref \<Rightarrow> snd (ClosePort_fuel h ref s')"
  let ?k = "length (ports s) - 1"
  have step: "?F f n s' = ?F g' n s' \<and> length (ports (?F f n s')) \<le> length (ports s')"
    if "length (ports s') \<le> ?k" for n s'
    using that Suc.prems g Suc.IH [of s' _ g'] length_ClosePort_fuel
    by (auto split: option.splits dest!: GetPort_Some)
  have "fold (?F f) ns (call c (ErasePort (ref_name r) (upd_port a h s))) =
        fold (?F g') ns (call c (ErasePort (ref_name r) (upd_port a h s)))" for ns c a h
    using length_ErasePort_less [of "upd_port a h s" "ref_name r"] Suc.prems(1)
    by (intro fold_table_cong [of _ ?k, THEN conjunct1] step) auto
  then show ?case unfolding g by (simp add: Let_def split: State.splits prod.splits)
qed

text \<open>The recursion of the source, whatever the fuel beyond the number of ports.\<close>

lemma ClosePort_fuel_unfold:
  "ClosePort_fuel (Suc (length (ports s) + k)) r s =
     (let p = port_at s (ref_port r) in
      case state p of
        kUninitialized \<Rightarrow> (OK, ErasePort (ref_name r) s)
      | kReceiving \<Rightarrow>
          (let (undelivered, q) = TakeAllMessages (message_queue p);
               s1 = upd_port (ref_port r) (\<lambda>p. p\<lparr>state := kClosed, message_queue := q\<rparr>) s;
               s2 = ErasePort (ref_name r) s1;
               s3 = call (ForwardEvent (peer_node_name p)
                       (ObserveClosureEv (peer_port_name p) (next_sequence_num_to_send p - 1))) s2
           in (OK, close_named (concat (map msg_ports undelivered)) s3))
      | _ \<Rightarrow> (ERROR_PORT_STATE_UNEXPECTED, s))"
proof -
  let ?k = "length (ports s) + k"
  let ?F = "\<lambda>n s'. case GetPort n s' of None \<Rightarrow> s' | Some ref \<Rightarrow> snd (ClosePort_fuel ?k ref s')"
  let ?G = "\<lambda>n s'. case GetPort n s' of None \<Rightarrow> s' | Some ref \<Rightarrow> snd (ClosePort ref s')"
  have step: "?F n s' = ?G n s' \<and> length (ports (?F n s')) \<le> length (ports s')"
    if "length (ports s') \<le> ?k" for n s'
    using that ClosePort_fuel_enough [of s' _ ?k "Suc (length (ports s'))"] length_ClosePort_fuel
    by (auto simp: ClosePort_def split: option.splits dest!: GetPort_Some)
  have "fold ?F ns (call c (ErasePort n' (upd_port a h s))) =
             close_named ns (call c (ErasePort n' (upd_port a h s)))" for ns c n' a h
    unfolding close_named_def
    using length_ErasePort_le [of n' "upd_port a h s"]
    by (intro fold_table_cong [of _ ?k, THEN conjunct1] step) auto
  then show ?thesis
    by (simp add: Let_def split: State.splits prod.splits)
qed

lemmas ClosePort_unfold = ClosePort_fuel_unfold [where k = 0, unfolded add_0_right, folded ClosePort_def]

lemma length_ClosePort: "length (ports (snd (ClosePort r s))) \<le> length (ports s)"
  by (simp add: ClosePort_def length_ClosePort_fuel del: ClosePort_fuel.simps)

lemma length_close_named: "length (ports (close_named ns s)) \<le> length (ports s)"
proof -
  let ?G = "\<lambda>n s'. case GetPort n s' of None \<Rightarrow> s' | Some ref \<Rightarrow> snd (ClosePort ref s')"
  have "length (ports (?G n s')) \<le> length (ports s')" for n s'
    using length_ClosePort by (auto split: option.splits)
  then show ?thesis
    unfolding close_named_def using fold_table_cong [of s "length (ports s)" ?G ?G ns] by simp
qed

section \<open>The recursion over dead proxies\<close>

lemma destroy_scan_frame:
  "destroy_scan node port es s = (notify, dead, ms, s') \<Longrightarrow>
     ports s' = ports s \<and> node_name s' = node_name s \<and> set dead \<subseteq> fst ` set es"
proof (induction es arbitrary: s notify dead ms s')
  case (Cons e es)
  from Cons.prems show ?case
    by (cases e) (auto simp: Let_def split: if_splits prod.splits dest!: Cons.IH)
qed simp

lemma fold_ErasePort_less:
  assumes "set dead \<subseteq> fst ` set (ports s)" and "dead \<noteq> []"
  shows "length (ports (fold ErasePort dead s)) < length (ports s)"
proof -
  have le: "length (ports (fold ErasePort ns t)) \<le> length (ports t)" for ns t
    using fold_table_cong [of t "length (ports t)" ErasePort ErasePort ns] length_ErasePort_le by simp
  from assms(2) obtain n ns where d: "dead = n # ns" by (cases dead) auto
  with assms(1) have "map_of (ports s) n \<noteq> None" by (auto simp: map_of_eq_None_iff)
  from length_ErasePort_less [OF this] le [of ns "ErasePort n s"] show ?thesis by (simp add: d)
qed

lemma fold_notify_frame:
  "ports (fold (\<lambda>r. call (PortStatusChanged r)) rs s) = ports s"
  "node_name (fold (\<lambda>r. call (PortStatusChanged r)) rs s) = node_name s"
  by (induction rs arbitrary: s) simp_all

lemma fold_table_le:
  assumes "\<And>x s'. length (ports (f x s')) \<le> length (ports s')"
  shows "length (ports (fold f xs s)) \<le> length (ports s)"
  using fold_table_cong [of s "length (ports s)" f f xs] assms by simp

lemma length_Destroy_fuel: "length (ports (DestroyAllPortsWithPeer_fuel fuel node port s)) \<le> length (ports s)"
proof (induction fuel arbitrary: node port s)
  case (Suc fuel)
  obtain notify dead ms s1 where sc: "destroy_scan node port (ports s) s = (notify, dead, ms, s1)"
    by (metis prod_cases4)
  let ?f = "\<lambda>x s'. DestroyAllPortsWithPeer_fuel fuel (node_name s') x
     (call (BroadcastEvent (ObserveProxyEv kInvalidPortName (node_name s') x kInvalidNodeName kInvalidPortName)) s')"
  have "length (ports (?f x s')) \<le> length (ports s')" for x s'
    using Suc.IH [of "node_name s'" x "call (BroadcastEvent (ObserveProxyEv kInvalidPortName
      (node_name s') x kInvalidNodeName kInvalidPortName)) s'"] by simp
  then have le: "length (ports (fold ?f dead s')) \<le> length (ports s')" for s'
    by (intro fold_table_le)
  have "length (ports (fold ErasePort dead s1)) \<le> length (ports s)"
    using fold_table_le [of ErasePort dead s1] length_ErasePort_le destroy_scan_frame [OF sc] by simp
  then show ?case
    by (simp add: sc Let_def)
       (rule order.trans [OF length_close_named order.trans [OF le]], simp add: fold_notify_frame)
qed simp

abbreviation destroy_dead :: "(NodeName \<Rightarrow> PortName \<Rightarrow> Node \<Rightarrow> Node) \<Rightarrow> PortName list \<Rightarrow> Node \<Rightarrow> Node" where
  "destroy_dead destroy dead s \<equiv>
     fold (\<lambda>x s'. destroy (node_name s') x
             (call (BroadcastEvent (ObserveProxyEv kInvalidPortName (node_name s') x
                      kInvalidNodeName kInvalidPortName)) s')) dead s"

lemma destroy_dead_cong:
  assumes "length (ports s) \<le> k"
    and "\<And>x s'. length (ports s') \<le> k \<Longrightarrow>
           f (node_name s') x s' = g (node_name s') x s' \<and>
           length (ports (f (node_name s') x s')) \<le> length (ports s')"
  shows "destroy_dead f dead s = destroy_dead g dead s"
proof -
  have "f (node_name s') x (call c s') = g (node_name s') x (call c s') \<and>
        length (ports (f (node_name s') x (call c s'))) \<le> length (ports s')"
    if "length (ports s') \<le> k" for x s' c
    using assms(2) [of "call c s'" x] that by (metis call_frame(1,2))
  with assms(1) show ?thesis by (intro fold_table_cong [of _ k, THEN conjunct1])
qed

lemma destroy_scan_empty: "ports s = [] \<Longrightarrow> DestroyAllPortsWithPeer_fuel fuel node port s = s"
  by (cases fuel) (simp_all add: close_named_def)

lemma scan_erase_less:
  assumes "destroy_scan node port (ports s) s = (notify, dead, ms, s1)" and "dead \<noteq> []"
  shows "length (ports (fold (\<lambda>r. call (PortStatusChanged r)) notify (fold ErasePort dead s1))) < length (ports s)"
  using destroy_scan_frame [OF assms(1)] fold_ErasePort_less [of dead s1] assms(2)
  by (simp add: fold_notify_frame)

lemma Destroy_fuel_enough:
  assumes "length (ports s) \<le> f" and "length (ports s) \<le> g"
  shows "DestroyAllPortsWithPeer_fuel f node port s = DestroyAllPortsWithPeer_fuel g node port s"
  using assms
proof (induction f arbitrary: g node port s)
  case 0
  then show ?case by (simp add: destroy_scan_empty del: DestroyAllPortsWithPeer_fuel.simps)
next
  case (Suc f)
  show ?case
  proof (cases g)
    case 0
    with Suc.prems show ?thesis by (simp add: destroy_scan_empty del: DestroyAllPortsWithPeer_fuel.simps)
  next
    case g: (Suc g')
    obtain notify dead ms s1 where sc: "destroy_scan node port (ports s) s = (notify, dead, ms, s1)"
      by (metis prod_cases4)
    let ?s3 = "fold (\<lambda>r. call (PortStatusChanged r)) notify (fold ErasePort dead s1)"
    have "destroy_dead (DestroyAllPortsWithPeer_fuel f) dead ?s3 =
          destroy_dead (DestroyAllPortsWithPeer_fuel g') dead ?s3"
    proof (cases "dead = []")
      case False
      from scan_erase_less [OF sc False] have le: "length (ports ?s3) \<le> length (ports s) - 1" by simp
      show ?thesis
      proof (rule destroy_dead_cong [OF le], intro conjI length_Destroy_fuel)
        fix x and s' :: Node
        assume "length (ports s') \<le> length (ports s) - 1"
        then show "DestroyAllPortsWithPeer_fuel f (node_name s') x s' =
                   DestroyAllPortsWithPeer_fuel g' (node_name s') x s'"
          using Suc.prems g by (intro Suc.IH) auto
      qed
    qed simp
    then show ?thesis by (simp add: g sc Let_def)
  qed
qed

lemma Destroy_fuel_unfold:
  "DestroyAllPortsWithPeer_fuel (Suc (length (ports s) + k)) node port s =
     (case destroy_scan node port (ports s) s of (notify, dead, undelivered, s1) \<Rightarrow>
        close_named (concat (map msg_ports undelivered))
          (destroy_dead DestroyAllPortsWithPeer dead
            (fold (\<lambda>r. call (PortStatusChanged r)) notify (fold ErasePort dead s1))))"
proof -
  obtain notify dead ms s1 where sc: "destroy_scan node port (ports s) s = (notify, dead, ms, s1)"
    by (metis prod_cases4)
  let ?s3 = "fold (\<lambda>r. call (PortStatusChanged r)) notify (fold ErasePort dead s1)"
  have "destroy_dead (DestroyAllPortsWithPeer_fuel (length (ports s) + k)) dead ?s3 =
        destroy_dead DestroyAllPortsWithPeer dead ?s3"
  proof (cases "dead = []")
    case False
    from scan_erase_less [OF sc False] have le: "length (ports ?s3) \<le> length (ports s)" by simp
    show ?thesis
    proof (rule destroy_dead_cong [OF le], intro conjI length_Destroy_fuel)
      fix x and s' :: Node
      assume "length (ports s') \<le> length (ports s)"
      then show "DestroyAllPortsWithPeer_fuel (length (ports s) + k) (node_name s') x s' =
                 DestroyAllPortsWithPeer (node_name s') x s'"
        unfolding DestroyAllPortsWithPeer_def by (intro Destroy_fuel_enough) auto
    qed
  qed simp
  then show ?thesis by (simp add: sc Let_def)
qed

lemmas DestroyAllPortsWithPeer_unfold =
  Destroy_fuel_unfold [where k = 0, unfolded add_0_right, folded DestroyAllPortsWithPeer_def]

section \<open>Invariant and evolution\<close>

text \<open>
  The life cycle of a port: initialized once; then it receives until it is closed or turned into
  a proxy, directly (a merge) or after a period of buffering (a transfer).
\<close>

definition lifecycle :: "State \<Rightarrow> State \<Rightarrow> bool" where
  "lifecycle x y \<longleftrightarrow> x = y \<or>
     (case x of
        kUninitialized \<Rightarrow> True
      | kReceiving \<Rightarrow> y \<noteq> kUninitialized
      | kBuffering \<Rightarrow> y = kProxying
      | kProxying \<Rightarrow> False
      | kClosed \<Rightarrow> False)"

lemma lifecycle_refl [simp]: "lifecycle x x"
  by (simp add: lifecycle_def)

lemma lifecycle_trans: "lifecycle x y \<Longrightarrow> lifecycle y z \<Longrightarrow> lifecycle x z"
  by (auto simp: lifecycle_def split: State.splits)

definition node_wf :: "Node \<Rightarrow> bool" where
  "node_wf s \<longleftrightarrow>
     distinct (map fst (ports s)) \<and> distinct (map snd (ports s)) \<and>
     (\<forall>(n, a)\<in>set (ports s). a < length (port_objects s) \<and> state (port_at s a) \<noteq> kClosed) \<and>
     (\<forall>p\<in>set (port_objects s). mq_inv (message_queue p))"

text \<open>
  What never changes between two states of a node: its name, the calls already made, the
  existence of a port object, the order of the life cycle, and the name of an object.
\<close>

definition history :: "Node \<Rightarrow> Node \<Rightarrow> bool" where
  "history s t \<longleftrightarrow>
     node_name t = node_name s \<and> prefix (delegate s) (delegate t) \<and>
     length (port_objects s) \<le> length (port_objects t) \<and>
     (\<forall>a<length (port_objects s). lifecycle (state (port_at s a)) (state (port_at t a))) \<and>
     (\<forall>(n, a)\<in>set (ports t). a < length (port_objects s) \<longrightarrow> (n, a) \<in> set (ports s))"

definition evolves :: "Node \<Rightarrow> Node \<Rightarrow> bool" where
  "evolves s t \<longleftrightarrow> (node_wf s \<longrightarrow> node_wf t \<and> history s t)"

definition live_change :: "Port \<Rightarrow> Port \<Rightarrow> bool" where
  "live_change p p' \<longleftrightarrow>
     lifecycle (state p) (state p') \<and> (state p' = kClosed \<longrightarrow> state p = kClosed) \<and>
     (mq_inv (message_queue p) \<longrightarrow> mq_inv (message_queue p'))"

text \<open>A reference obtained from this node: its object exists, and is known by no other name.\<close>

definition port_ok :: "PortRef \<Rightarrow> Node \<Rightarrow> bool" where
  "port_ok r s \<longleftrightarrow> ref_port r < length (port_objects s) \<and>
     (\<forall>n. (n, ref_port r) \<in> set (ports s) \<longrightarrow> n = ref_name r)"

lemma history_refl [simp]: "history s s"
  by (auto simp: history_def)

lemma history_trans:
  assumes "history s t" and "history t u"
  shows "history s u"
proof -
  have "lifecycle (state (port_at s a)) (state (port_at u a))" if "a < length (port_objects s)" for a
    using assms that by (auto simp: history_def intro: lifecycle_trans [of _ "state (port_at t a)"])
  moreover have "(n, a) \<in> set (ports s)"
    if "(n, a) \<in> set (ports u)" "a < length (port_objects s)" for n a
    using assms that by (fastforce simp: history_def)
  ultimately show ?thesis
    using assms by (auto simp: history_def intro: prefix_order.trans)
qed

lemma evolves_refl [simp]: "evolves s s"
  by (simp add: evolves_def)

lemma evolves_wfI: "(node_wf s \<Longrightarrow> evolves s t) \<Longrightarrow> evolves s t"
  by (simp add: evolves_def)

lemma evolves_trans [trans]: "evolves s t \<Longrightarrow> evolves t u \<Longrightarrow> evolves s u"
  using history_trans by (auto simp: evolves_def)

lemma evolves_upd:
  assumes "live_change (port_at s a) (f (port_at s a))"
  shows "evolves s (upd_port a f s)"
proof (cases "a < length (port_objects s)")
  case True
  have "node_wf (upd_port a f s)" if wf: "node_wf s"
  proof -
    have "mq_inv (message_queue p)" if "p \<in> set (port_objects (upd_port a f s))" for p
    proof -
      from that have "p = f (port_at s a) \<or> p \<in> set (port_objects s)"
        by (auto simp: upd_port_def port_at_def dest: set_update_subset_insert [THEN subsetD])
      moreover have "mq_inv (message_queue (port_at s a))"
        using wf True by (simp add: node_wf_def port_at_def)
      ultimately show ?thesis using wf assms by (auto simp: live_change_def node_wf_def)
    qed
    then show ?thesis
      using wf assms by (auto simp: node_wf_def port_at_upd_port live_change_def split: if_splits)
  qed
  moreover have "history s (upd_port a f s)"
    using assms by (auto simp: history_def port_at_upd_port live_change_def)
  ultimately show ?thesis by (simp add: evolves_def)
next
  case False
  then have "upd_port a f s = s" by (simp add: upd_port_def list_update_beyond)
  then show ?thesis by simp
qed

lemma evolves_call [simp]: "evolves s (call c s)"
  by (auto simp: evolves_def node_wf_def history_def)

interpretation evolution: forwarding_frame evolves live_change
proof unfold_locales
  fix s t u :: Node
  assume "evolves s t" "evolves t u"
  then show "evolves s u" by (rule evolves_trans)
next
  fix s :: Node and g
  show "evolves s (s\<lparr>name_generator := g\<rparr>)"
    by (auto simp: evolves_def node_wf_def history_def)
qed (auto simp: live_change_def lifecycle_def intro: evolves_upd)

section \<open>Every method evolves the node\<close>

lemma port_ok_GetPort: "node_wf s \<Longrightarrow> GetPort n s = Some r \<Longrightarrow> port_ok r s"
  by (fastforce simp: port_ok_def node_wf_def distinct_map inj_on_def dest!: GetPort_Some map_of_SomeD)

lemma port_ok_history: "history s t \<Longrightarrow> port_ok r s \<Longrightarrow> port_ok r t"
  by (fastforce simp: history_def port_ok_def)

lemma port_ok_evolves: "evolves s t \<Longrightarrow> node_wf s \<Longrightarrow> port_ok r s \<Longrightarrow> port_ok r t"
  by (auto simp: evolves_def intro: port_ok_history)

text \<open>Changes of a port that keep its state and its queue.\<close>

lemma live_change_soft: "state p' = state p \<Longrightarrow> message_queue p' = message_queue p \<Longrightarrow> live_change p p'"
  by (simp add: live_change_def)

lemma live_change_queue:
  "(mq_inv (message_queue p) \<Longrightarrow> mq_inv q) \<Longrightarrow> live_change p (p\<lparr>message_queue := q\<rparr>)"
  by (simp add: live_change_def)

lemma evolves_queue:
  "(mq_inv (message_queue (port_at s a)) \<Longrightarrow> mq_inv q) \<Longrightarrow>
     evolves s (upd_port a (\<lambda>p. p\<lparr>message_queue := q\<rparr>) s)"
  by (intro evolves_upd live_change_queue)

lemma evolves_table: "evolves s (s\<lparr>ports := filter P (ports s)\<rparr>)"
  by (auto simp: evolves_def node_wf_def history_def port_at_def distinct_map_filter)

lemma evolves_ErasePort: "evolves s (ErasePort n s)"
proof (cases "map_of (ports s) n")
  case (Some a)
  have "evolves (s\<lparr>ports := filter (\<lambda>(k, _). k \<noteq> n) (ports s)\<rparr>) (ErasePort n s)"
    using Some by (auto simp: ErasePort_def intro!: evolves_upd live_change_queue)
  with evolves_table show ?thesis by (rule evolves_trans)
qed (simp add: ErasePort_def)

lemma evolves_fold:
  assumes "\<And>x s'. evolves s' (f x s')"
  shows "evolves s (fold f xs s)"
proof (induction xs arbitrary: s)
  case (Cons x xs)
  from evolves_trans [OF assms Cons.IH] show ?case by simp
qed simp

lemma evolves_AddPortWithName:
  assumes "mq_inv (message_queue p)" and "state p \<noteq> kClosed"
  shows "evolves s (snd (AddPortWithName n p s))"
proof (cases "map_of (ports s) n")
  case None
  let ?t = "s\<lparr>ports := ports s @ [(n, length (port_objects s))], port_objects := port_objects s @ [p]\<rparr>"
  have at: "port_at ?t a = (if a < length (port_objects s) then port_at s a else p)"
    if "a \<le> length (port_objects s)" for a
    using that by (auto simp: port_at_def nth_append)
  have "node_wf ?t" if "node_wf s"
    using that assms None at by (auto simp: node_wf_def map_of_eq_None_iff less_imp_le)
  moreover have "history s ?t"
    using at by (auto simp: history_def less_imp_le)
  ultimately show ?thesis using None by (simp add: AddPortWithName_def evolves_def)
qed (simp add: AddPortWithName_def)

lemma evolves_fresh_name: "evolves s (snd (fresh_name s))"
  using evolution.R_name by (auto simp: fresh_name_def split: prod.splits)

lemma evolves_CreateUninitializedPort: "evolves s (snd (snd (CreateUninitializedPort s)))"
proof -
  obtain n s1 where f: "fresh_name s = (n, s1)" by fastforce
  have "evolves s s1" using evolves_fresh_name [of s] f by simp
  moreover have "evolves s1 (snd (AddPortWithName n (new_Port kInitialSequenceNum kInitialSequenceNum) s1))"
    by (intro evolves_AddPortWithName) (simp_all add: new_Port_def)
  ultimately have "evolves s (snd (AddPortWithName n (new_Port kInitialSequenceNum kInitialSequenceNum) s1))"
    by (rule evolves_trans)
  then show ?thesis
    using f by (auto simp: CreateUninitializedPort_def Let_def split: prod.splits)
qed

lemma evolves_InitializePort: "evolves s (snd (InitializePort r node port s))"
  by (auto simp: InitializePort_def live_change_def lifecycle_def
           intro!: evolves_trans [OF evolves_upd evolves_call])

lemma evolves_CreatePortPair: "evolves s (snd (snd (CreatePortPair s)))"
proof -
  obtain rv0 o0 s1 where c0: "CreateUninitializedPort s = (rv0, o0, s1)" by (metis prod_cases3)
  obtain rv1 o1 s2 where c1: "CreateUninitializedPort s1 = (rv1, o1, s2)" by (metis prod_cases3)
  have 1: "evolves s s1" using evolves_CreateUninitializedPort [of s] c0 by simp
  have 2: "evolves s s2"
    using evolves_trans [OF 1] evolves_CreateUninitializedPort [of s1] c1 by simp
  have 3: "evolves s (snd (InitializePort a x y s2))" for a x y
    using 2 evolves_InitializePort by (rule evolves_trans)
  have 4: "evolves s (snd (InitializePort b z w (snd (InitializePort a x y s2))))" for a b x y z w
    using 3 evolves_InitializePort by (rule evolves_trans)
  show ?thesis
    using 1 2 3 4 by (auto simp: CreatePortPair_def c0 c1 split: option.splits prod.splits) (metis snd_conv)+
qed

lemma evolves_SetUserData: "evolves s (snd (SetUserData r d s))"
  by (auto simp: SetUserData_def intro!: evolves_upd live_change_soft)

text \<open>
  Closing marks the object closed and takes its name off the table in one step; in between the
  invariant does not hold.
\<close>

lemma evolves_close:
  assumes "port_ok r s" and "state (port_at s (ref_port r)) = kReceiving" and "mq_inv q"
  shows "evolves s (ErasePort (ref_name r) (upd_port (ref_port r) (\<lambda>p. p\<lparr>state := kClosed, message_queue := q\<rparr>) s))"
    (is "evolves s (ErasePort ?n ?u)")
proof -
  let ?t = "?u\<lparr>ports := filter (\<lambda>(k, _). k \<noteq> ?n) (ports s)\<rparr>"
  have obj: "port_objects ?t = port_objects ?u" "port_at ?t b = port_at ?u b" for b
    by (simp_all add: port_at_def)
  have "evolves s ?t"
    unfolding evolves_def
  proof (intro impI conjI)
    assume wf: "node_wf s"
    have "mq_inv (message_queue p)" if "p \<in> set (port_objects ?u)" for p
      using that wf assms(3)
      by (auto simp: upd_port_def node_wf_def dest!: set_update_subset_insert [THEN subsetD])
    moreover have "b < length (port_objects s) \<and> state (port_at ?u b) \<noteq> kClosed"
      if "(k, b) \<in> set (ports s)" "k \<noteq> ?n" for k b
      using that wf assms(1) by (auto simp: node_wf_def port_ok_def port_at_upd_port)
    ultimately show "node_wf ?t"
      using wf by (auto simp: node_wf_def obj distinct_map_filter)
    show "history s ?t"
      using assms(2) by (auto simp: history_def obj port_at_upd_port lifecycle_def)
  qed
  moreover have "evolves ?t (ErasePort ?n ?u)"
  proof (cases "map_of (ports s) ?n")
    case None
    then have "?t = ?u" by (simp add: filter_absent)
    with None show ?thesis by (simp add: ErasePort_def)
  next
    case (Some a)
    then show ?thesis
      by (auto simp: ErasePort_def intro!: evolves_upd live_change_queue)
  qed
  ultimately show ?thesis by (rule evolves_trans)
qed

lemma evolves_ClosePort_fuel:
  "node_wf s \<Longrightarrow> port_ok r s \<Longrightarrow> evolves s (snd (ClosePort_fuel fuel r s))"
proof (induction fuel arbitrary: r s)
  case (Suc fuel)
  let ?f = "\<lambda>n s'. case GetPort n s' of None \<Rightarrow> s' | Some ref \<Rightarrow> snd (ClosePort_fuel fuel ref s')"
  have "evolves s' (?f n s')" for n s'
    by (rule evolves_wfI) (auto intro: Suc.IH port_ok_GetPort split: option.splits)
  then have all: "evolves s' (fold ?f ns s')" for ns s' by (rule evolves_fold)
  let ?q = "snd (TakeAllMessages (message_queue (port_at s (ref_port r))))"
  let ?u = "ErasePort (ref_name r) (upd_port (ref_port r) (\<lambda>p. p\<lparr>state := kClosed, message_queue := ?q\<rparr>) s)"
  have "evolves s (fold ?f ns (call c ?u))" if "state (port_at s (ref_port r)) = kReceiving" for ns c
    using evolves_close [OF Suc.prems(2) that] by (intro evolves_trans [OF _ all] evolves_trans [OF _ evolves_call]) simp
  then show ?case
    by (auto simp: Let_def evolves_ErasePort split: State.splits prod.splits)
qed simp

lemma evolves_ClosePort: "port_ok r s \<Longrightarrow> evolves s (snd (ClosePort r s))"
  unfolding ClosePort_def by (rule evolves_wfI) (rule evolves_ClosePort_fuel)

lemma evolves_close_named: "evolves s (close_named ns s)"
proof -
  have "evolves s' (case GetPort n s' of None \<Rightarrow> s' | Some ref \<Rightarrow> snd (ClosePort ref s'))" for n s'
    by (rule evolves_wfI) (auto intro: evolves_ClosePort port_ok_GetPort split: option.splits)
  then show ?thesis unfolding close_named_def by (rule evolves_fold)
qed

lemma evolves_make_signalable: "make_signalable ns s = Some s' \<Longrightarrow> evolves s s'"
proof (induction ns arbitrary: s)
  case (Cons n ns)
  then obtain r where r: "GetPort n s = Some r"
    and rest: "make_signalable ns (upd_port (ref_port r)
       (\<lambda>p. p\<lparr>message_queue := set_signalable True (message_queue p)\<rparr>) s) = Some s'"
    by (auto split: option.splits)
  show ?case
    by (rule evolves_trans [OF _ Cons.IH [OF rest]]) (auto intro!: evolves_upd live_change_queue)
qed simp

lemma evolves_GetMessage:
  assumes "GetMessage flt r s = Some (rv, m, s')"
  shows "evolves s s'"
proof -
  obtain x q where g: "GetNextMessage flt (message_queue (port_at s (ref_port r))) = (x, q)" by fastforce
  have "evolves s (upd_port (ref_port r) (\<lambda>p. p\<lparr>message_queue := q\<rparr>) s)"
    using mq_inv_GetNextMessage [of "message_queue (port_at s (ref_port r))" flt] g by (intro evolves_queue) simp
  then show ?thesis
    using assms g evolves_make_signalable evolves_trans
    by (auto simp: GetMessage_def Let_def split: if_splits option.splits)
qed

lemma evolves_ForwardUserMessagesFromProxy:
  "ForwardUserMessagesFromProxy r s = Some (rv, s') \<Longrightarrow> evolves s s'"
proof (induction r s arbitrary: rv s' rule: ForwardUserMessagesFromProxy.induct)
  case (1 r s)
  let ?mq = "message_queue (port_at s (ref_port r))"
  obtain x q where g: "GetNextMessage None ?mq = (x, q)" by fastforce
  let ?s1 = "upd_port (ref_port r) (\<lambda>p. p\<lparr>message_queue := q\<rparr>) s"
  have s1: "evolves s ?s1"
    using mq_inv_GetNextMessage [of ?mq None] g by (intro evolves_queue) simp
  from "1.prems" have len: "ref_port r < length (port_objects s)"
    by (subst (asm) ForwardUserMessagesFromProxy.simps) (simp split: if_splits)
  show ?case
  proof (cases x)
    case None
    with "1.prems" g len s1 show ?thesis
      by (subst (asm) ForwardUserMessagesFromProxy.simps) simp
  next
    case (Some m)
    with "1.prems" g len obtain rv1 m' t s2 where
      p: "PrepareToForwardUserMessage r kProxying True m ?s1 = Some (rv1, m', t, s2)"
      by (subst (asm) ForwardUserMessagesFromProxy.simps) (auto simp: Let_def split: option.splits)
    have s2: "evolves s s2"
      using evolves_trans [OF s1 evolution.R_PrepareToForwardUserMessage [OF p]] .
    show ?thesis
    proof (cases "rv1 = OK")
      case True
      let ?s3 = "call (ForwardEvent t (UserMessageEv m')) s2"
      have "ForwardUserMessagesFromProxy r ?s3 = Some (rv, s')"
        using "1.prems" g len Some p True
        by (subst (asm) ForwardUserMessagesFromProxy.simps) (simp add: Let_def)
      with "1.IH" len g Some p True have "evolves ?s3 s'" by simp
      with s2 show ?thesis using evolves_trans evolves_call by blast
    next
      case False
      then show ?thesis
        using "1.prems" g len Some p s2
        by (subst (asm) ForwardUserMessagesFromProxy.simps) (simp add: Let_def)
    qed
  qed
qed

lemma evolves_InitiateProxyRemoval: "evolves s (InitiateProxyRemoval r s)"
  by (simp add: InitiateProxyRemoval_def Let_def)

lemma evolves_TryRemoveProxy: "evolves s (TryRemoveProxy r s)"
proof -
  let ?u = "upd_port (ref_port r) (\<lambda>p. p\<lparr>send_on_proxy_removal := None\<rparr>) s"
  have e: "evolves s (ErasePort (ref_name r) ?u)"
    by (rule evolves_trans [OF evolves_upd evolves_ErasePort]) (simp add: live_change_soft)
  then show ?thesis
    using evolves_trans [OF e evolves_call]
    by (auto simp: TryRemoveProxy_def Let_def split: option.splits)
qed

lemma evolves_BeginProxying:
  assumes "BeginProxying r s = Some (rv, s')"
  shows "evolves s s'"
proof (cases "state (port_at s (ref_port r)) = kBuffering")
  case False
  with assms show ?thesis by (simp add: BeginProxying_def)
next
  case True
  let ?u = "upd_port (ref_port r) (\<lambda>p. p\<lparr>state := kProxying\<rparr>) s"
  from assms True obtain rv1 s1 where f: "ForwardUserMessagesFromProxy r ?u = Some (rv1, s1)"
    by (auto simp: BeginProxying_def split: option.splits)
  have "evolves s ?u" using True by (intro evolves_upd) (simp add: live_change_def lifecycle_def)
  from evolves_trans [OF this evolves_ForwardUserMessagesFromProxy [OF f]] have s1: "evolves s s1" .
  then have "evolves s (InitiateProxyRemoval r s1)" "evolves s (call c (TryRemoveProxy r s1))" for c
    using evolves_trans evolves_InitiateProxyRemoval evolves_TryRemoveProxy evolves_call by blast+
  with s1 assms True f show ?thesis
    by (auto simp: BeginProxying_def Let_def split: if_splits)
qed

lemma evolves_AcceptPort: "evolves s (snd (AcceptPort n d s))"
proof -
  have add: "evolves s (snd (AddPortWithName n p s))"
    if "mq_inv (message_queue p)" "state p = kReceiving" for p
    using that by (intro evolves_AddPortWithName) auto
  show ?thesis
    using add evolves_trans [OF add evolves_call]
    by (simp add: AcceptPort_def Let_def new_Port_def case_prod_beta)
qed

lemma evolves_accept_attached: "accept_attached es s = (rv, ds, s') \<Longrightarrow> evolves s s'"
proof (induction es s arbitrary: rv ds s' rule: accept_attached.induct)
  case (2 n d rest s)
  obtain rv1 s1 where a: "AcceptPort n d s = (rv1, s1)" by fastforce
  have s1: "evolves s s1" using evolves_AcceptPort [of s n d] a by simp
  show ?case
  proof (cases "pd_referring_node_name d = kInvalidNodeName")
    case True
    with "2.prems" "2.IH"(1) show ?thesis by (auto split: option.splits prod.splits)
  next
    case False
    with "2.prems" "2.IH"(2) [OF False a [symmetric]] s1 a show ?thesis
      by (auto split: if_splits prod.splits intro: evolves_trans)
  qed
qed simp

lemma evolves_OnUserMessage:
  assumes "OnUserMessage m s = Some (rv, s')"
  shows "evolves s s'"
proof -
  obtain rv1 ds s1 where a: "accept_attached (zip (msg_ports m) (port_descriptors m)) s = (rv1, ds, s1)"
    by (metis prod_cases3)
  then have s1: "evolves s s1" by (rule evolves_accept_attached)
  then have cl: "evolves s (close_named ns s1)" for ns
    using evolves_close_named by (rule evolves_trans)
  show ?thesis
  proof (cases "GetPort (msg_port_name m) s1")
    case None
    with assms a s1 cl show ?thesis by (auto simp: OnUserMessage_def split: if_splits)
  next
    case (Some r)
    let ?p = "port_at s1 (ref_port r)"
    obtain h q where q: "AcceptMessage (m\<lparr>port_descriptors := ds\<rparr>) (message_queue ?p) = (h, q)" by fastforce
    let ?s2 = "upd_port (ref_port r) (\<lambda>p. p\<lparr>message_queue := q\<rparr>) s1"
    have "evolves s1 ?s2"
      using mq_inv_AcceptMessage [of "message_queue ?p" "m\<lparr>port_descriptors := ds\<rparr>"] q by (intro evolves_queue) simp
    with s1 have s2: "evolves s ?s2" by (rule evolves_trans)
    have fw: "evolves s s3" "evolves s (TryRemoveProxy r s3)"
      if "ForwardUserMessagesFromProxy r ?s2 = Some (rv3, s3)" for rv3 s3
      using evolves_trans [OF s2 evolves_ForwardUserMessagesFromProxy [OF that]]
        evolves_TryRemoveProxy evolves_trans by blast+
    have st: "evolves s (call c ?s2)" for c
      using s2 evolves_call by (rule evolves_trans)
    from assms a Some q show ?thesis
      using s1 cl s2 fw st
      by (auto simp: OnUserMessage_def Let_def split: if_splits option.splits)
  qed
qed

lemma evolves_destroy_scan:
  "destroy_scan node port es s = (notify, dead, ms, s') \<Longrightarrow> evolves s s'"
proof (induction es arbitrary: s notify dead ms s')
  case (Cons e es)
  obtain n a where e: "e = (n, a)" by fastforce
  let ?p = "port_at s a"
  define s1 where "s1 = (if peer_closed ?p then s
     else upd_port a (\<lambda>p. p\<lparr>peer_closed := True,
            last_sequence_num_to_receive := next_sequence_num (message_queue p) - 1\<rparr>) s)"
  let ?s2 = "upd_port a (\<lambda>p. p\<lparr>message_queue := snd (TakeAllMessages (message_queue (port_at s1 a)))\<rparr>) s1"
  have s1: "evolves s s1" by (auto simp: s1_def intro!: evolves_upd live_change_soft)
  have s2: "evolves s ?s2" by (rule evolves_trans [OF s1 evolves_queue]) simp
  from Cons.prems have "\<exists>t notify' dead' ms'. (t = s \<or> t = s1 \<or> t = ?s2) \<and>
      destroy_scan node port es t = (notify', dead', ms', s')"
    by (auto simp: e Let_def s1_def [symmetric] split: if_splits prod.splits)
  with Cons.IH s1 s2 show ?case using evolves_trans evolves_refl by metis
qed simp

lemma evolves_Destroy_fuel: "evolves s (DestroyAllPortsWithPeer_fuel fuel node port s)"
proof (induction fuel arbitrary: node port s)
  case (Suc fuel)
  obtain notify dead ms s1 where sc: "destroy_scan node port (ports s) s = (notify, dead, ms, s1)"
    by (metis prod_cases4)
  note evolves_destroy_scan [OF sc]
  also have "evolves s1 (fold ErasePort dead s1)"
    by (intro evolves_fold evolves_ErasePort)
  also have "evolves (fold ErasePort dead s1)
      (fold (\<lambda>r. call (PortStatusChanged r)) notify (fold ErasePort dead s1))"
    by (intro evolves_fold evolves_call)
  also have "evolves t (destroy_dead (DestroyAllPortsWithPeer_fuel fuel) dead t)" for t
    by (intro evolves_fold evolves_trans [OF evolves_call Suc.IH])
  also note evolves_close_named [of _ "concat (map msg_ports ms)"]
  finally show ?case by (simp add: sc Let_def)
qed simp

lemma evolves_DestroyAllPortsWithPeer: "evolves s (DestroyAllPortsWithPeer node port s)"
  unfolding DestroyAllPortsWithPeer_def by (rule evolves_Destroy_fuel)

lemma evolves_OnObserveProxy: "evolves s (snd (OnObserveProxy n pn pp tn tp s))"
proof -
  have "evolves s (call c (call c' (upd_port a (\<lambda>p. p\<lparr>peer_node_name := x, peer_port_name := y\<rparr>) s)))" for a x y c c'
    by (rule evolves_trans [OF evolves_trans [OF evolves_upd evolves_call] evolves_call])
       (simp add: live_change_soft)
  then show ?thesis
    by (auto simp: OnObserveProxy_def Let_def evolves_DestroyAllPortsWithPeer
             intro!: evolves_upd live_change_soft split: option.splits)
qed

lemma evolves_OnObserveProxyAck: "evolves s (snd (OnObserveProxyAck n l s))"
proof -
  have "evolves s (TryRemoveProxy r (upd_port a (\<lambda>p. p\<lparr>remove_proxy_on_last_message := True,
          last_sequence_num_to_receive := l\<rparr>) s))" for r a
    by (rule evolves_trans [OF evolves_upd evolves_TryRemoveProxy]) (simp add: live_change_soft)
  then show ?thesis
    by (auto simp: OnObserveProxyAck_def evolves_InitiateProxyRemoval split: option.splits)
qed

lemma evolves_OnObserveClosure: "evolves s (snd (OnObserveClosure n l s))"
proof -
  let ?u = "\<lambda>a. upd_port a (\<lambda>p. p\<lparr>peer_closed := True, last_sequence_num_to_receive := l\<rparr>) s"
  let ?v = "\<lambda>a. upd_port a (\<lambda>p. p\<lparr>peer_closed := True, last_sequence_num_to_receive := l,
               remove_proxy_on_last_message := True\<rparr>) s"
  have u: "evolves s (call c (call c' (?u a)))" for a c c'
    by (rule evolves_trans [OF evolves_trans [OF evolves_upd evolves_call] evolves_call])
       (simp add: live_change_soft)
  have v: "evolves s (?v a)" for a by (intro evolves_upd) (simp add: live_change_soft)
  have "evolves s (call c (?v a))" "evolves s (call c (TryRemoveProxy r (?v a)))" for r a c
    by (rule evolves_trans [OF v evolves_call])
       (rule evolves_trans [OF v evolves_trans [OF evolves_TryRemoveProxy evolves_call]])
  with u show ?thesis
    by (auto simp: OnObserveClosure_def Let_def split: option.splits)
qed

lemma evolves_swap_peers: "evolves s (swap_peers a b s)"
  unfolding swap_peers_def Let_def
  by (rule evolves_trans [OF evolves_upd evolves_upd]) (simp_all add: live_change_soft)

lemma evolves_start_proxying:
  "state (port_at s a) = kReceiving \<Longrightarrow> evolves s (start_proxying a s)"
  unfolding start_proxying_def by (intro evolves_upd) (simp add: live_change_def lifecycle_def)

text \<open>A merge that fails puts a port back to receiving, which it was when the merge began.\<close>

lemma evolves_undo_proxying:
  assumes "evolves s t" and "state (port_at s a) = kReceiving" and "a < length (port_objects s)"
  shows "evolves s (undo_proxying a t)"
  unfolding evolves_def
proof (intro impI conjI)
  let ?f = "\<lambda>p. p\<lparr>remove_proxy_on_last_message := False, state := kReceiving\<rparr>"
  assume wf: "node_wf s"
  with assms(1) have t: "node_wf t" "history s t" by (simp_all add: evolves_def)
  have "mq_inv (message_queue p)" if "p \<in> set (port_objects (upd_port a ?f t))" for p
    using that t(1) assms(3) t(2)
    by (auto simp: upd_port_def node_wf_def history_def dest!: set_update_subset_insert [THEN subsetD])
  then show "node_wf (undo_proxying a t)"
    using t(1) by (auto simp: undo_proxying_def node_wf_def port_at_upd_port split: if_splits)
  show "history s (undo_proxying a t)"
    using t(2) assms(2) by (auto simp: undo_proxying_def history_def port_at_upd_port)
qed

lemma evolves_complete_merge: "evolves s (complete_merge r s)"
proof -
  have "evolves s (if b then TryRemoveProxy r s else InitiateProxyRemoval r s)" for b
    by (simp add: evolves_TryRemoveProxy evolves_InitiateProxyRemoval)
  from this evolves_trans [OF this evolves_call] show ?thesis
    unfolding complete_merge_def Let_def by (cases "remove_proxy_on_last_message (port_at s (ref_port r)) \<or>
      peer_closed (port_at s (ref_port r))") (simp_all only: if_True if_False)
qed

lemma evolves_close_both:
  assumes "node_wf s" and "port_ok r0 s" and "port_ok r1 s" and "evolves s t"
  shows "evolves s (if b then snd (ClosePort r1 (if c then snd (ClosePort r0 t) else t))
                    else if c then snd (ClosePort r0 t) else t)"
proof -
  let ?u = "if c then snd (ClosePort r0 t) else t"
  have "evolves t ?u" using assms by (auto intro: evolves_ClosePort port_ok_evolves)
  with assms(4) have u: "evolves s ?u" by (rule evolves_trans)
  with assms have "evolves ?u (snd (ClosePort r1 ?u))" by (intro evolves_ClosePort port_ok_evolves [OF u])
  with u have "evolves s (snd (ClosePort r1 ?u))" by (rule evolves_trans)
  with u show ?thesis by simp
qed

text \<open>The two branches of a merge of different ports.\<close>

lemma MergePortsInternal_reject:
  assumes "ref_port r0 \<noteq> ref_port r1" and "\<not> can_merge r0 r1 s"
  shows "MergePortsInternal r0 r1 allow s = Some (ERROR_PORT_STATE_UNEXPECTED,
     if state (port_at s (ref_port r1)) = kReceiving \<or> allow
     then snd (ClosePort r1 (if state (port_at s (ref_port r0)) = kReceiving \<or> allow
                             then snd (ClosePort r0 s) else s))
     else if state (port_at s (ref_port r0)) = kReceiving \<or> allow then snd (ClosePort r0 s) else s)"
  using assms by (simp add: MergePortsInternal_def PortLocker_def Let_def)

definition merge_start :: "PortRef \<Rightarrow> PortRef \<Rightarrow> Node \<Rightarrow> Node" where
  "merge_start r0 r1 s =
     start_proxying (ref_port r1) (start_proxying (ref_port r0) (swap_peers (ref_port r0) (ref_port r1) s))"

definition merge_undo :: "PortRef \<Rightarrow> PortRef \<Rightarrow> Node \<Rightarrow> Node" where
  "merge_undo r0 r1 s =
     undo_proxying (ref_port r1) (undo_proxying (ref_port r0) (swap_peers (ref_port r0) (ref_port r1) s))"

lemma MergePortsInternal_cases:
  assumes "MergePortsInternal r0 r1 allow s = Some (rv, s')" and "can_merge r0 r1 s"
  obtains (undo) rv1 s1 t where "ForwardUserMessagesFromProxy r0 (merge_start r0 r1 s) = Some (rv1, s1)"
      "t = s1 \<or> (\<exists>rv2. ForwardUserMessagesFromProxy r1 s1 = Some (rv2, t))"
      "rv = ERROR_PORT_STATE_UNEXPECTED"
      "s' = snd (ClosePort r1 (snd (ClosePort r0 (merge_undo r0 r1 t))))"
  | (merged) s1 t where "ForwardUserMessagesFromProxy r0 (merge_start r0 r1 s) = Some (OK, s1)"
      "ForwardUserMessagesFromProxy r1 s1 = Some (OK, t)"
      "rv = OK" "s' = complete_merge r1 (complete_merge r0 t)"
proof -
  have ab: "ref_port r0 \<noteq> ref_port r1" using assms(1) by (auto simp: MergePortsInternal_def PortLocker_def)
  have lk: "PortLocker [Some r0, Some r1] = Some [r0, r1]" using ab by (simp add: PortLocker_def)
  note m = assms(1) [unfolded MergePortsInternal_def Let_def lk merge_start_def [symmetric] merge_undo_def [symmetric]]
  from m assms(2) obtain rv1 s1 where f: "ForwardUserMessagesFromProxy r0 (merge_start r0 r1 s) = Some (rv1, s1)"
    by (auto split: option.splits)
  show ?thesis
  proof (cases "rv1 = OK")
    case False
    with m f assms(2) show ?thesis by (intro undo [of rv1 s1 s1]) auto
  next
    case True
    with m f assms(2) obtain rv2 t where g: "ForwardUserMessagesFromProxy r1 s1 = Some (rv2, t)"
      by (auto split: option.splits)
    show ?thesis
    proof (cases "rv2 = OK")
      case False
      with m f g True assms(2) show ?thesis by (intro undo [of rv1 s1 t]) auto
    next
      case rv2: True
      with m f g True assms(2) show ?thesis by (intro merged [of s1 t]) auto
    qed
  qed
qed

lemma evolves_MergePortsInternal:
  assumes "MergePortsInternal r0 r1 allow s = Some (rv, s')" and "port_ok r0 s" and "port_ok r1 s"
  shows "evolves s s'"
proof (rule evolves_wfI)
  assume wf: "node_wf s"
  note both = evolves_close_both [OF wf assms(2,3)]
  let ?a = "ref_port r0" and ?b = "ref_port r1"
  from assms(1) have ab: "?a \<noteq> ?b" by (auto simp: MergePortsInternal_def PortLocker_def)
  show "evolves s s'"
  proof (cases "can_merge r0 r1 s")
    case False
    let ?c0 = "state (port_at s ?a) = kReceiving \<or> allow" and ?c1 = "state (port_at s ?b) = kReceiving \<or> allow"
    have eq: "s' = (if ?c1 then snd (ClosePort r1 (if ?c0 then snd (ClosePort r0 s) else s))
                else if ?c0 then snd (ClosePort r0 s) else s)"
      using trans [OF assms(1) [symmetric] MergePortsInternal_reject [OF ab False]]
      by (simp only: option.inject prod.inject)
    show ?thesis unfolding eq by (rule both [OF evolves_refl])
  next
    case True
    then have st: "state (port_at s ?a) = kReceiving" "state (port_at s ?b) = kReceiving"
      by (auto simp: can_merge_def Let_def)
    have len: "?a < length (port_objects s)" "?b < length (port_objects s)"
      using assms(2,3) by (simp_all add: port_ok_def)
    have sw: "state (port_at (swap_peers ?a ?b s) ?a) = kReceiving"
      "state (port_at (start_proxying ?a (swap_peers ?a ?b s)) ?b) = kReceiving"
      using st ab len by (simp_all add: swap_peers_def start_proxying_def Let_def port_at_upd_port)
    have start: "evolves s (merge_start r0 r1 s)"
      unfolding merge_start_def
      by (rule evolves_trans [OF evolves_trans [OF evolves_swap_peers evolves_start_proxying [OF sw(1)]]
            evolves_start_proxying [OF sw(2)]])
    have rollback: "evolves s (merge_undo r0 r1 t)" if "evolves s t" for t
      unfolding merge_undo_def
      using that st len by (intro evolves_undo_proxying evolves_trans [OF that evolves_swap_peers])
    from assms(1) True show ?thesis
    proof (cases rule: MergePortsInternal_cases)
      case (undo rv1 s1 t)
      have s1: "evolves s s1" using evolves_trans [OF start evolves_ForwardUserMessagesFromProxy [OF undo(1)]] .
      then have "evolves s t" using undo(2) evolves_ForwardUserMessagesFromProxy evolves_trans by blast
      from both [OF rollback [OF this], of True True] undo(4) show ?thesis by simp
    next
      case (merged s1 t)
      have "evolves s t"
        using start merged(1,2) evolves_ForwardUserMessagesFromProxy evolves_trans by blast
      with merged(4) show ?thesis using evolves_complete_merge evolves_trans by blast
    qed
  qed
qed

lemma evolves_OnMergePort:
  assumes "OnMergePort n nn d s = Some (rv, s')"
  shows "evolves s s'"
proof (rule evolves_wfI)
  assume wf: "node_wf s"
  obtain rv1 s1 where a: "AcceptPort nn d s = (rv1, s1)" by fastforce
  have s1: "evolves s s1" using evolves_AcceptPort [of s nn d] a by simp
  with wf have wf1: "node_wf s1" by (simp add: evolves_def)
  have old: "port_ok r s1" if "GetPort n s = Some r" for r
    using port_ok_evolves [OF s1 wf] port_ok_GetPort [OF wf that] .
  have new: "port_ok r s1" if "GetPort nn s1 = Some r" for r
    using port_ok_GetPort [OF wf1 that] .
  have "evolves s1 s'"
    using assms a old new evolves_ClosePort evolves_MergePortsInternal
    by (auto simp: OnMergePort_def Let_def split: if_splits option.splits)
  with s1 show "evolves s s'" by (rule evolves_trans)
qed

lemma evolves_AcceptEvent: "AcceptEvent e s = Some (rv, s') \<Longrightarrow> evolves s s'"
  using evolves_OnObserveProxy evolves_OnObserveProxyAck evolves_OnObserveClosure
  by (cases e)
     (auto intro: evolves_OnUserMessage evolves_OnMergePort
           simp: OnPortAccepted_def evolves_BeginProxying split: option.splits, (metis snd_conv)+)

lemma evolves_SendUserMessage:
  assumes "SendUserMessage r m s = Some (rv, s')"
  shows "evolves s s'"
proof -
  from assms obtain m' s1 where i: "SendUserMessageInternal r m s = Some (rv, m', s1)"
    and s': "s' = (if rv \<noteq> OK then close_named (filter (\<lambda>n. n \<noteq> ref_name r) (msg_ports m')) s1 else s1)"
    by (auto simp: SendUserMessage_def split: option.splits)
  have "evolves s s1"
  proof (cases "ref_name r \<in> set (msg_ports m)")
    case True
    with i show ?thesis by (simp add: SendUserMessageInternal_def)
  next
    case False
    with i obtain rv0 m0 t s0 where p: "PrepareToForwardUserMessage r kReceiving False m s = Some (rv0, m0, t, s0)"
      by (auto simp: SendUserMessageInternal_def split: option.splits)
    have s0: "evolves s s0" using evolution.R_PrepareToForwardUserMessage [OF p] .
    then have "evolves s s2" if "OnUserMessage m0 s0 = Some (rv2, s2)" for rv2 s2
      using that evolves_OnUserMessage evolves_trans by blast
    with i False p s0 evolves_trans [OF s0 evolves_call] show ?thesis
      by (auto simp: SendUserMessageInternal_def split: if_splits option.splits)
  qed
  then show ?thesis using evolves_trans [OF _ evolves_close_named] by (auto simp: s')
qed

lemma evolves_MergePorts:
  assumes "state (port_at s (ref_port r)) = kReceiving"
  shows "evolves s (snd (MergePorts r node port s))"
proof -
  obtain nn d s1 where c: "ConvertToProxy (ref_port r) node (ref_name r) s = (nn, d, s1)"
    by (metis prod_cases3)
  from evolution.R_ConvertToProxy [OF assms c] have s1: "evolves s s1" .
  then have "evolves s (call c' s1)" "evolves s (call c' (call c'' s1))" for c' c''
    using evolves_trans evolves_call by blast+
  with s1 c show ?thesis
    by (auto simp: MergePorts_def Let_def split: option.splits)
qed

lemma evolves_LostConnectionToNode: "evolves s (snd (LostConnectionToNode node s))"
  by (simp add: LostConnectionToNode_def evolves_DestroyAllPortsWithPeer)

section \<open>Runs of a node\<close>

text \<open>
  One call of a method.  References are references of this node; \<open>MergePorts\<close> is called on a
  receiving port, as its \<open>DCHECK\<close> demands.
\<close>

inductive node_step :: "Node \<Rightarrow> Node \<Rightarrow> bool" where
  create: "CreateUninitializedPort s = (rv, r, s') \<Longrightarrow> node_step s s'"
| create_pair: "CreatePortPair s = (rv, rs, s') \<Longrightarrow> node_step s s'"
| initialize: "port_ok r s \<Longrightarrow> InitializePort r node port s = (rv, s') \<Longrightarrow> node_step s s'"
| set_data: "port_ok r s \<Longrightarrow> SetUserData r d s = (rv, s') \<Longrightarrow> node_step s s'"
| close: "port_ok r s \<Longrightarrow> ClosePort r s = (rv, s') \<Longrightarrow> node_step s s'"
| get: "port_ok r s \<Longrightarrow> GetMessage flt r s = Some (rv, m, s') \<Longrightarrow> node_step s s'"
| send: "port_ok r s \<Longrightarrow> SendUserMessage r m s = Some (rv, s') \<Longrightarrow> node_step s s'"
| merge: "port_ok r s \<Longrightarrow> state (port_at s (ref_port r)) = kReceiving \<Longrightarrow>
    MergePorts r node port s = (rv, s') \<Longrightarrow> node_step s s'"
| merge_local: "port_ok r0 s \<Longrightarrow> port_ok r1 s \<Longrightarrow> MergeLocalPorts r0 r1 s = Some (rv, s') \<Longrightarrow> node_step s s'"
| lost: "LostConnectionToNode node s = (rv, s') \<Longrightarrow> node_step s s'"
| event: "AcceptEvent e s = Some (rv, s') \<Longrightarrow> node_step s s'"

inductive_cases node_stepE: "node_step s s'"

lemma node_step_evolves: "node_step s s' \<Longrightarrow> evolves s s'"
proof (induction rule: node_step.induct)
  case (create s rv r s')
  then show ?case using evolves_CreateUninitializedPort [of s] by simp
next
  case (create_pair s rv rs s')
  then show ?case using evolves_CreatePortPair [of s] by simp
next
  case (initialize r s node port rv s')
  then show ?case using evolves_InitializePort [of s r node port] by simp
next
  case (set_data r s d rv s')
  then show ?case using evolves_SetUserData [of s r d] by simp
next
  case (close r s rv s')
  then show ?case using evolves_ClosePort [of r s] by simp
next
  case (merge r s node port rv s')
  then show ?case using evolves_MergePorts [of s r node port] by simp
next
  case (merge_local r0 s r1 rv s')
  then show ?case by (auto simp: MergeLocalPorts_def intro: evolves_MergePortsInternal)
next
  case (lost node s rv s')
  then show ?case using evolves_LostConnectionToNode [of s node] by simp
qed (auto intro: evolves_GetMessage evolves_SendUserMessage evolves_AcceptEvent)

lemma node_run_evolves: "node_step\<^sup>*\<^sup>* s t \<Longrightarrow> evolves s t"
  by (induction rule: rtranclp_induct) (auto intro: evolves_trans node_step_evolves)

lemma node_wf_new [simp]: "node_wf (new_Node n rnd)"
  by (simp add: node_wf_def new_Node_def)

text \<open>C2: in every state a node reaches by any sequence of method calls and incoming events, no
  two table entries share a name or a port object, every entry refers to an existing object that
  is not closed, and every message queue is a heap with an exact byte count.\<close>

theorem node_invariant:
  assumes "node_step\<^sup>*\<^sup>* (new_Node n rnd) s"
  shows "node_wf s"
  using node_run_evolves [OF assms] by (simp add: evolves_def)

definition sample_names :: "nat \<Rightarrow> PortName" where
  "sample_names k = Name (of_nat (Suc k)) 7"

theorem node_invariant_witness:
  "node_wf (snd (snd (CreatePortPair (new_Node kInvalidNodeName sample_names))))"
proof (rule node_invariant)
  show "node_step\<^sup>*\<^sup>* (new_Node kInvalidNodeName sample_names)
          (snd (snd (CreatePortPair (new_Node kInvalidNodeName sample_names))))"
    by (intro r_into_rtranclp create_pair [OF surjective_pairing [THEN trans]]) (simp add: prod_eq_iff)
qed

text \<open>C4: along every run of a node, a port only moves forward in its life cycle (a closed port
  stays closed and a proxy stays a proxy, whatever happens), a name in the table never changes
  to another existing port object, and calls already made to the delegate are never changed.\<close>

theorem port_lifecycle:
  assumes "node_step\<^sup>*\<^sup>* s t" and "node_wf s" and "a < length (port_objects s)"
  shows "lifecycle (state (port_at s a)) (state (port_at t a)) \<and>
         ((m, a) \<in> set (ports t) \<longrightarrow> (m, a) \<in> set (ports s)) \<and>
         prefix (delegate s) (delegate t)"
  using node_run_evolves [OF assms(1)] assms(2,3) by (auto simp: evolves_def history_def)

text \<open>A node with one pair of ports, for the witnesses.\<close>

definition sample_pair :: Node where
  "sample_pair = snd (snd (CreatePortPair (new_Node (Name 1 1) sample_names)))"

definition sample_ref0 :: PortRef where
  "sample_ref0 = \<lparr>ref_name = Name 1 7, ref_port = 0\<rparr>"

definition sample_ref1 :: PortRef where
  "sample_ref1 = \<lparr>ref_name = Name 2 7, ref_port = 1\<rparr>"

lemmas sample_simps = sample_names_def new_Node_def fresh_name_def GenerateRandomPortName_def
  kRandomNameCacheSize_def AddPortWithName_def new_Port_def InitializePort_def
  upd_port_def port_at_def call_def Let_def

lemma sample_pair_eq: "CreatePortPair (new_Node (Name 1 1) sample_names) = (OK, Some (sample_ref0, sample_ref1), sample_pair)"
  unfolding sample_pair_def CreatePortPair_def
  by (simp add: CreateUninitializedPort_def sample_simps sample_ref0_def sample_ref1_def)

lemma sample_pair_fields:
  "ports sample_pair = [(Name 1 7, 0), (Name 2 7, 1)]" "node_name sample_pair = Name 1 1"
  "delegate sample_pair = [PortStatusChanged sample_ref0, PortStatusChanged sample_ref1]"
  "port_objects sample_pair =
     [(new_Port 1 1)\<lparr>state := kReceiving, peer_node_name := Name 1 1, peer_port_name := Name 2 7\<rparr>,
      (new_Port 1 1)\<lparr>state := kReceiving, peer_node_name := Name 1 1, peer_port_name := Name 1 7\<rparr>]"
  unfolding sample_pair_def CreatePortPair_def
  by (simp_all add: CreateUninitializedPort_def sample_simps sample_ref0_def sample_ref1_def kInitialSequenceNum_def)

lemma sample_pair_reached: "node_step\<^sup>*\<^sup>* (new_Node (Name 1 1) sample_names) sample_pair"
  by (intro r_into_rtranclp create_pair [OF sample_pair_eq])

lemma sample_pair_wf: "node_wf sample_pair"
  using node_run_evolves [OF sample_pair_reached] by (simp add: evolves_def)

lemma sample_port_ok: "port_ok sample_ref0 sample_pair" "port_ok sample_ref1 sample_pair"
  by (simp_all add: port_ok_def sample_pair_fields sample_ref0_def sample_ref1_def)

theorem port_lifecycle_witness:
  "state (port_at (snd (ClosePort sample_ref0 sample_pair)) 0) = kClosed \<and>
   lifecycle (state (port_at sample_pair 0)) (state (port_at (snd (ClosePort sample_ref0 sample_pair)) 0)) \<and>
   (Name 2 7, 0) \<notin> set (ports (snd (ClosePort sample_ref0 sample_pair))) \<and>
   prefix (delegate sample_pair) (delegate (snd (ClosePort sample_ref0 sample_pair)))"
proof -
  let ?t = "snd (ClosePort sample_ref0 sample_pair)"
  have "node_step\<^sup>*\<^sup>* sample_pair ?t"
    by (intro r_into_rtranclp close [OF sample_port_ok(1)]) (simp add: prod_eq_iff)
  note life = port_lifecycle [OF this sample_pair_wf, of 0 "Name 2 7"]
  have "state (port_at ?t 0) = kClosed"
    unfolding ClosePort_unfold
    by (simp add: port_at_def sample_pair_fields sample_ref0_def new_Port_def new_MessageQueue_def
      TakeAllMessages_def Let_def upd_port_def call_def ErasePort_def close_named_def)
  with life show ?thesis by (simp add: sample_pair_fields)
qed

end
