(* ===== verification/Node_Channel.thy ===== *)
theory Node_Channel
  imports Node_Invariant
begin

text \<open>
  A pair of ports on one node is a FIFO channel.  \<open>fifo_run\<close> is the specification, a list;
  \<open>pair_run\<close> performs the same operations with \<open>SendUserMessage\<close> and \<open>GetMessage\<close>.  The
  relation \<open>channel\<close> ties the list of messages in flight to the counters of the two ports and
  to the queue of the receiver.
\<close>

section \<open>The specification\<close>





section \<open>The receiving end\<close>

definition stamp :: "PortName \<Rightarrow> nat \<Rightarrow> UserMessageEvent \<Rightarrow> UserMessageEvent" where
  "stamp n k m = m\<lparr>msg_port_name := n, seq_num := of_nat k\<rparr>"

definition plain :: "UserMessageEvent \<Rightarrow> bool" where
  "plain m \<longleftrightarrow> msg_ports m = [] \<and> port_descriptors m = [] \<and> seq_num m = 0"

fun stamped :: "PortName \<Rightarrow> nat \<Rightarrow> UserMessageEvent list \<Rightarrow> UserMessageEvent list" where
  "stamped n k [] = []"
| "stamped n k (x # xs) = stamp n k x # stamped n (Suc k) xs"

lemma stamped_append [simp]: "stamped n k (xs @ [x]) = stamped n k xs @ [stamp n (k + length xs) x]"
  by (induction xs arbitrary: k) simp_all

lemma sequence_num_stamp: "k < 2 ^ 32 \<Longrightarrow> unat (sequence_num (stamp n k m)) = k"
  by (simp add: sequence_num_def stamp_def unat_ucast_u64_u32 unat_of_nat take_bit_eq_mod)

lemma stamped_window:
  "y \<in> set (stamped n k xs) \<Longrightarrow> k + length xs \<le> 2 ^ 32 \<Longrightarrow>
     k \<le> unat (sequence_num y) \<and> unat (sequence_num y) < k + length xs \<and> (\<exists>x\<in>set xs. \<exists>i. y = stamp n i x)"
proof (induction xs arbitrary: k)
  case (Cons x xs)
  show ?case
  proof (cases "y = stamp n k x")
    case True
    with Cons.prems sequence_num_stamp [of k n x] show ?thesis by auto
  next
    case False
    with Cons.prems Cons.IH [of "Suc k"] show ?thesis by auto
  qed
qed simp

text \<open>The port behind \<open>r\<close> is receiving and holds exactly the messages \<open>xs\<close>, next one first.\<close>

definition inbox_holds :: "PortRef \<Rightarrow> UserMessageEvent list \<Rightarrow> Node \<Rightarrow> bool" where
  "inbox_holds r xs s \<longleftrightarrow>
     (let p = port_at s (ref_port r); q = message_queue p; k = unat (next_sequence_num q) in
      ref_port r < length (port_objects s) \<and> state p = kReceiving \<and>
      \<not> remove_proxy_on_last_message p \<and> mq_inv q \<and> k + length xs \<le> 2 ^ 32 \<and>
      (\<forall>x\<in>set xs. plain x) \<and> mset (heap q) = mset (stamped (ref_name r) k xs))"

text \<open>A queue that holds a consecutive run hands out its first message.\<close>

lemma GetNextMessage_stamped:
  assumes "mq_inv q" and "mset (heap q) = mset (stamped n k (x # xs))"
    and "k = unat (next_sequence_num q)" and "k + length (x # xs) \<le> 2 ^ 32"
  shows "\<exists>q'. GetNextMessage None q = (Some (stamp n k x), q') \<and> mq_inv q' \<and>
           mset (heap q') = mset (stamped n (Suc k) xs) \<and> unat (next_sequence_num q') = Suc k"
proof -
  let ?m = "stamp n k x"
  have set: "set (heap q) = set (stamped n k (x # xs))" using assms(2) by (metis set_mset_mset)
  have sm: "unat (sequence_num ?m) = k" using assms(4) by (intro sequence_num_stamp) simp
  have "HasNextMessage q"
  proof (rule GetNextMessage_ready [OF assms(1), of ?m])
    show "?m \<in> set (heap q)" using set by simp
    show "ucast (sequence_num ?m) = next_sequence_num q"
      using sm assms(3) by (simp add: word_unat_eq_iff)
    fix m'
    assume "m' \<in> set (heap q)"
    then show "unat (next_sequence_num q) \<le> unat (sequence_num m')"
      using set stamped_window [of m' n k "x # xs"] assms(3,4) by auto
  qed
  then obtain m q' where g: "GetNextMessage None q = (Some m, q')"
    by (auto simp: GetNextMessage_def Let_def)
  note got = GetNextMessage_Some [OF assms(1) g]
  have "m \<in> set (stamped n k (x # xs))" using got(1,2) set hd_in_set by metis
  moreover have "unat (sequence_num m) = k" using got(3) assms(3) by (metis unat_ucast_u32_u64)
  moreover have "unat (sequence_num y) \<noteq> k" if "y \<in> set (stamped n (Suc k) xs)" for y
    using stamped_window [OF that] assms(4) by auto
  ultimately have m: "m = ?m" by auto
  have "unat (next_sequence_num q') = Suc k"
    using got(5) assms(3,4) unat_word_ariths(1) [of "next_sequence_num q" 1] by simp
  moreover have "mset (heap q') = mset (stamped n (Suc k) xs)"
    using got(4) assms(2) m by simp
  ultimately show ?thesis using g m got(7) by blast
qed

lemma set_sequence_num_stamp: "plain x \<Longrightarrow> set_sequence_num 0 (stamp n k x) = x\<lparr>msg_port_name := n\<rparr>"
  by (cases x) (simp add: set_sequence_num_def stamp_def plain_def)

lemma GetMessage_inbox:
  assumes "inbox_holds r (x # xs) s" and "CanAcceptMoreMessages (port_at s (ref_port r))"
  obtains q' where
    "GetMessage None r s = Some (OK, Some (x\<lparr>msg_port_name := ref_name r\<rparr>),
       upd_port (ref_port r) (\<lambda>p. p\<lparr>message_queue := q'\<rparr>) s)"
    "inbox_holds r xs (upd_port (ref_port r) (\<lambda>p. p\<lparr>message_queue := q'\<rparr>) s)"
    "unat (next_sequence_num q') = Suc (unat (next_sequence_num (message_queue (port_at s (ref_port r)))))"
proof -
  let ?p = "port_at s (ref_port r)" and ?k = "unat (next_sequence_num (message_queue (port_at s (ref_port r))))"
  from assms(1) have h: "ref_port r < length (port_objects s)" "state ?p = kReceiving"
    "\<not> remove_proxy_on_last_message ?p" "mq_inv (message_queue ?p)" "?k + length (x # xs) \<le> 2 ^ 32"
    "\<forall>y\<in>set (x # xs). plain y" "mset (heap (message_queue ?p)) = mset (stamped (ref_name r) ?k (x # xs))"
    by (simp_all add: inbox_holds_def Let_def)
  from GetNextMessage_stamped [OF h(4,7) refl h(5)] obtain q' where
    q': "GetNextMessage None (message_queue ?p) = (Some (stamp (ref_name r) ?k x), q')" "mq_inv q'"
      "mset (heap q') = mset (stamped (ref_name r) (Suc ?k) xs)" "unat (next_sequence_num q') = Suc ?k"
    by blast
  have "msg_ports (stamp (ref_name r) ?k x) = []" using h(6) by (simp add: stamp_def plain_def)
  then have "GetMessage None r s = Some (OK, Some (x\<lparr>msg_port_name := ref_name r\<rparr>),
       upd_port (ref_port r) (\<lambda>p. p\<lparr>message_queue := q'\<rparr>) s)"
    using h(2,6) assms(2) q'(1) by (simp add: GetMessage_def Let_def set_sequence_num_stamp)
  moreover have "inbox_holds r xs (upd_port (ref_port r) (\<lambda>p. p\<lparr>message_queue := q'\<rparr>) s)"
    using h q' by (simp add: inbox_holds_def Let_def)
  ultimately show ?thesis using that q'(4) by blast
qed


section \<open>The channel\<close>

definition channel :: "PortRef \<Rightarrow> PortRef \<Rightarrow> UserMessageEvent list \<Rightarrow> Node \<Rightarrow> bool" where
  "channel r0 r1 xs s \<longleftrightarrow>
     (let p0 = port_at s (ref_port r0); p1 = port_at s (ref_port r1);
          k = unat (next_sequence_num (message_queue p1)) in
      inbox_holds r1 xs s \<and> GetPort (ref_name r1) s = Some r1 \<and>
      ref_port r0 < length (port_objects s) \<and> ref_port r0 \<noteq> ref_port r1 \<and>
      state p0 = kReceiving \<and> peer_node_name p0 = node_name s \<and> peer_port_name p0 = ref_name r1 \<and>
      \<not> peer_closed p0 \<and> \<not> peer_closed p1 \<and> 0 < k \<and>
      unat (next_sequence_num_to_send p0) = k + length xs)"

lemma channel_open: "channel r0 r1 xs s \<Longrightarrow> CanAcceptMoreMessages (port_at s (ref_port r1))"
  by (simp add: channel_def inbox_holds_def CanAcceptMoreMessages_def Let_def)



text \<open>Sending through an open channel: the message is numbered, and accepted by the peer.\<close>

lemma Prepare_plain:
  assumes "state (port_at s (ref_port r)) = kReceiving" and "\<not> peer_closed (port_at s (ref_port r))"
    and "peer_node_name (port_at s (ref_port r)) = node_name s" and "plain m"
    and "unat (next_sequence_num_to_send (port_at s (ref_port r))) = k" and "k < 2 ^ 32"
    and "ref_port r < length (port_objects s)"
  shows "PrepareToForwardUserMessage r kReceiving False m s =
     Some (OK, stamp (peer_port_name (port_at s (ref_port r))) k m, node_name s,
       upd_port (ref_port r) (\<lambda>p. p\<lparr>next_sequence_num_to_send := next_sequence_num_to_send p + 1\<rparr>) s)"
proof -
  have "(ucast (ucast (next_sequence_num_to_send (port_at s (ref_port r))) :: u32) :: u64) = of_nat k"
    using assms(5,6) by (simp add: word_unat_eq_iff unat_ucast_u64_u32 unat_of_nat take_bit_eq_mod)
  then have "set_sequence_num (ucast (next_sequence_num_to_send (port_at s (ref_port r)))) m
      = m\<lparr>seq_num := of_nat k\<rparr>"
    by (simp add: set_sequence_num_def)
  then show ?thesis
    using assms by (simp add: PrepareToForwardUserMessage_def Let_def PortLocker_def plain_def
      assign_sequence_num_def sequence_num_def rewrite_attached_def num_ports_def stamp_def)
qed

lemma inbox_holds_accept:
  assumes "inbox_holds r xs s" and "plain m"
    and "unat (next_sequence_num (message_queue (port_at s (ref_port r)))) + length xs < 2 ^ 32"
    and "AcceptMessage (stamp (ref_name r)
           (unat (next_sequence_num (message_queue (port_at s (ref_port r)))) + length xs) m)
           (message_queue (port_at s (ref_port r))) = (h, q)"
  shows "inbox_holds r (xs @ [m]) (upd_port (ref_port r) (\<lambda>p. p\<lparr>message_queue := q\<rparr>) s) \<and>
         next_sequence_num q = next_sequence_num (message_queue (port_at s (ref_port r)))"
proof -
  let ?q = "message_queue (port_at s (ref_port r))"
  let ?m = "stamp (ref_name r) (unat (next_sequence_num ?q) + length xs) m"
  have q: "q = snd (AcceptMessage ?m ?q)" using assms(4) by simp
  have inv: "mq_inv ?q" using assms(1) by (simp add: inbox_holds_def Let_def)
  then have "mset (heap q) = add_mset ?m (mset (heap ?q))" "next_sequence_num q = next_sequence_num ?q"
    by (simp_all add: q)
  moreover have "mq_inv q" using inv by (simp add: q)
  ultimately show ?thesis using assms(1-3) by (simp add: inbox_holds_def Let_def)
qed

lemma inbox_holds_cong:
  assumes "inbox_holds r xs s" and "port_at t (ref_port r) = port_at s (ref_port r)"
    and "length (port_objects t) = length (port_objects s)"
  shows "inbox_holds r xs t"
  using assms by (simp add: inbox_holds_def)

lemma channel_send:
  assumes "channel r0 r1 xs s" and "plain m"
    and "unat (next_sequence_num_to_send (port_at s (ref_port r0))) < 2 ^ 32"
  shows "\<exists>s'. SendUserMessage r0 m s = Some (OK, s') \<and> channel r0 r1 (xs @ [m]) s' \<and>
           unat (next_sequence_num_to_send (port_at s' (ref_port r0))) =
             Suc (unat (next_sequence_num_to_send (port_at s (ref_port r0)))) \<and>
           ports s' = ports s \<and>
           message_queue (port_at s' (ref_port r0)) = message_queue (port_at s (ref_port r0))"
proof -
  let ?a = "ref_port r0" and ?b = "ref_port r1"
  let ?k = "unat (next_sequence_num (message_queue (port_at s ?b)))"
  let ?s1 = "upd_port ?a (\<lambda>p. p\<lparr>next_sequence_num_to_send := next_sequence_num_to_send p + 1\<rparr>) s"
  let ?m = "stamp (ref_name r1) (?k + length xs) m"
  from assms(1) have c: "inbox_holds r1 xs s" "GetPort (ref_name r1) s = Some r1" "?a < length (port_objects s)"
    "?a \<noteq> ?b" "state (port_at s ?a) = kReceiving" "peer_node_name (port_at s ?a) = node_name s"
    "peer_port_name (port_at s ?a) = ref_name r1" "\<not> peer_closed (port_at s ?a)" "\<not> peer_closed (port_at s ?b)"
    "0 < ?k" "unat (next_sequence_num_to_send (port_at s ?a)) = ?k + length xs"
    by (simp_all add: channel_def Let_def)
  have b: "port_at ?s1 ?b = port_at s ?b" "?b < length (port_objects s)" "state (port_at s ?b) = kReceiving"
    using c(1,4) by (simp_all add: inbox_holds_def Let_def)
  have prep: "PrepareToForwardUserMessage r0 kReceiving False m s = Some (OK, ?m, node_name s, ?s1)"
    using Prepare_plain [OF c(5,8,6) assms(2) c(11) _ c(3)] assms(3) c(7,11) by simp
  obtain h q where acc: "AcceptMessage ?m (message_queue (port_at s ?b)) = (h, q)" by fastforce
  let ?s2 = "upd_port ?b (\<lambda>p. p\<lparr>message_queue := q\<rparr>) ?s1"
  have in1: "inbox_holds r1 xs ?s1" using inbox_holds_cong [OF c(1) b(1)] by simp
  have in2: "inbox_holds r1 (xs @ [m]) ?s2" and nx: "next_sequence_num q = next_sequence_num (message_queue (port_at s ?b))"
    using inbox_holds_accept [OF in1 assms(2)] acc b(1) assms(3) c(11) by auto
  have m: "msg_port_name ?m = ref_name r1" "msg_ports ?m = []" "?m\<lparr>port_descriptors := []\<rparr> = ?m"
    "port_descriptors ?m = []" "msg_ports m = []"
    using assms(2) by (simp_all add: stamp_def plain_def)
  have acc': "AcceptMessage (?m\<lparr>port_descriptors := []\<rparr>) (message_queue (port_at s ?b)) = (h, q)"
    using acc by (simp only: m(3))
  have "OnUserMessage ?m ?s1 = Some (OK, if h then call (PortStatusChanged r1) ?s2 else ?s2)"
    using c(2) channel_open [OF assms(1)] acc' m(1,2) b by (simp add: OnUserMessage_def Let_def)
  then have send: "SendUserMessage r0 m s = Some (OK, if h then call (PortStatusChanged r1) ?s2 else ?s2)"
    using prep m(5) by (simp add: SendUserMessage_def SendUserMessageInternal_def)
  have nxt: "unat (next_sequence_num_to_send (port_at ?s2 ?a)) =
      Suc (unat (next_sequence_num_to_send (port_at s ?a)))"
    using c(3,4) assms(3) unat_word_ariths(1) [of "next_sequence_num_to_send (port_at s ?a)" 1] by simp
  moreover have "channel r0 r1 (xs @ [m]) ?s2"
    using in2 c b nx nxt by (simp add: channel_def Let_def)
  moreover have "channel r0 r1 (xs @ [m]) (call x ?s2) = channel r0 r1 (xs @ [m]) ?s2" for x
    by (simp add: channel_def inbox_holds_def)
  moreover have "message_queue (port_at ?s2 ?a) = message_queue (port_at s ?a)"
    using c(3,4) by simp
  ultimately show ?thesis using send by auto
qed


section \<open>A new pair is a channel in both directions\<close>

lemma CreateUninitializedPort_Some:
  assumes "CreateUninitializedPort s = (rv, Some r, s')"
  shows "\<exists>g. s' = s\<lparr>name_generator := g, ports := ports s @ [(ref_name r, length (port_objects s))],
                 port_objects := port_objects s @ [new_Port kInitialSequenceNum kInitialSequenceNum]\<rparr>"
    and "ref_port r = length (port_objects s)" and "map_of (ports s) (ref_name r) = None"
proof -
  obtain n g where f: "fresh_name s = (n, s\<lparr>name_generator := g\<rparr>)"
    using fresh_name_eq by (metis surj_pair)
  from assms f have r: "map_of (ports s) n = None" "r = \<lparr>ref_name = n, ref_port = length (port_objects s)\<rparr>"
    "s' = s\<lparr>name_generator := g, ports := ports s @ [(n, length (port_objects s))],
           port_objects := port_objects s @ [new_Port kInitialSequenceNum kInitialSequenceNum]\<rparr>"
    by (auto simp: CreateUninitializedPort_def AddPortWithName_def split: if_splits)
  then show "ref_port r = length (port_objects s)" "map_of (ports s) (ref_name r) = None" by simp_all
  show "\<exists>g. s' = s\<lparr>name_generator := g, ports := ports s @ [(ref_name r, length (port_objects s))],
                 port_objects := port_objects s @ [new_Port kInitialSequenceNum kInitialSequenceNum]\<rparr>"
    using r by auto
qed

lemma CreatePortPair_channel:
  assumes "CreatePortPair s = (OK, Some (r0, r1), s')"
  shows "channel r0 r1 [] s' \<and> channel r1 r0 [] s' \<and>
         next_sequence_num_to_send (port_at s' (ref_port r0)) = 1"
proof -
  from assms obtain s1 s2 where c0: "CreateUninitializedPort s = (fst (CreateUninitializedPort s), Some r0, s1)"
    and c1: "CreateUninitializedPort s1 = (fst (CreateUninitializedPort s1), Some r1, s2)"
    and s': "s' = snd (InitializePort r1 (node_name (snd (InitializePort r0 (node_name s2) (ref_name r1) s2)))
          (ref_name r0) (snd (InitializePort r0 (node_name s2) (ref_name r1) s2)))"
    by (auto simp: CreatePortPair_def split: prod.splits option.splits if_splits)
  note a = CreateUninitializedPort_Some [OF c0] and b = CreateUninitializedPort_Some [OF c1]
  let ?new = "new_Port kInitialSequenceNum kInitialSequenceNum"
  from a(1) b(1) obtain g where s2: "s2 = s\<lparr>name_generator := g,
      ports := ports s @ [(ref_name r0, length (port_objects s)), (ref_name r1, Suc (length (port_objects s)))],
      port_objects := port_objects s @ [?new, ?new]\<rparr>" by auto
  have r: "ref_port r0 = length (port_objects s)" "ref_port r1 = Suc (length (port_objects s))"
    using a b by auto
  have nm: "map_of (ports s) (ref_name r0) = None" "map_of (ports s) (ref_name r1) = None" "ref_name r1 \<noteq> ref_name r0"
    using a(1,3) b(3) by (auto simp: map_add_def split: if_splits option.splits)
  have eq: "r0 = \<lparr>ref_name = ref_name r0, ref_port = length (port_objects s)\<rparr>"
    "r1 = \<lparr>ref_name = ref_name r1, ref_port = Suc (length (port_objects s))\<rparr>"
    using r by simp_all
  have at: "port_at s2 (ref_port r0) = ?new" "port_at s2 (ref_port r1) = ?new"
    "ref_port r0 < length (port_objects s2)" "ref_port r1 < length (port_objects s2)" "ref_port r0 \<noteq> ref_port r1"
    using r by (simp_all add: s2 port_at_def nth_append)
  have un: "state ?new = kUninitialized" by (simp add: new_Port_def)
  have fin: "port_at s' (ref_port r0) = ?new\<lparr>state := kReceiving, peer_node_name := node_name s, peer_port_name := ref_name r1\<rparr>"
    "port_at s' (ref_port r1) = ?new\<lparr>state := kReceiving, peer_node_name := node_name s, peer_port_name := ref_name r0\<rparr>"
    "ports s' = ports s2" "node_name s' = node_name s" "length (port_objects s') = length (port_objects s2)"
    using at un by (simp_all add: s' InitializePort_def) (simp_all add: s2)
  have get: "GetPort (ref_name r0) s' = Some r0" "GetPort (ref_name r1) s' = Some r1"
    using nm eq by (auto simp: GetPort_def fin(3) s2 map_add_def)
  show ?thesis
    using get at fin by (simp add: channel_def inbox_holds_def Let_def new_Port_def kInitialSequenceNum_def new_MessageQueue_def)
      (simp add: mq_inv_def std_heap.inv_Nil)
qed



section \<open>Closing one end\<close>

text \<open>The results of successive reads.\<close>

primrec reads :: "nat \<Rightarrow> PortRef \<Rightarrow> Node \<Rightarrow> (rv \<times> UserMessageEvent option) list option" where
  "reads 0 r s = Some []"
| "reads (Suc n) r s =
     (case GetMessage None r s of
        None \<Rightarrow> None
      | Some (rv, m, s') \<Rightarrow> map_option (Cons (rv, m)) (reads n r s'))"

text \<open>The peer is known to be closed, and \<open>xs\<close> is what it sent before that.\<close>

definition closing :: "PortRef \<Rightarrow> UserMessageEvent list \<Rightarrow> Node \<Rightarrow> bool" where
  "closing r xs s \<longleftrightarrow>
     (let p = port_at s (ref_port r); k = unat (next_sequence_num (message_queue p)) in
      inbox_holds r xs s \<and> peer_closed p \<and> 0 < k \<and>
      Suc (unat (last_sequence_num_to_receive p)) = k + length xs)"

lemma closing_CanAccept:
  assumes "closing r xs s"
  shows "CanAcceptMoreMessages (port_at s (ref_port r)) \<longleftrightarrow> xs \<noteq> []"
proof -
  let ?p = "port_at s (ref_port r)"
  let ?n = "next_sequence_num (message_queue ?p)" and ?l = "last_sequence_num_to_receive ?p"
  from assms have h: "0 < unat ?n" "Suc (unat ?l) = unat ?n + length xs" "state ?p = kReceiving" "peer_closed ?p"
    by (simp_all add: closing_def inbox_holds_def Let_def)
  have "unat (?n - 1) = unat ?n - 1" using h(1) by (simp add: unat_minus_one unat_gt_0)
  then have "?l = ?n - 1 \<longleftrightarrow> xs = []" using h(1,2) by (auto simp: word_unat_eq_iff)
  with h(3,4) show ?thesis by (simp add: CanAcceptMoreMessages_def)
qed

lemma reads_closing:
  "closing r xs s \<Longrightarrow>
     reads (Suc (length xs)) r s =
       Some (map (\<lambda>m. (OK, Some (m\<lparr>msg_port_name := ref_name r\<rparr>))) xs @ [(ERROR_PORT_PEER_CLOSED, None)])"
proof (induction xs arbitrary: s)
  case Nil
  then have "state (port_at s (ref_port r)) = kReceiving"
    by (simp add: closing_def inbox_holds_def Let_def)
  with closing_CanAccept [OF Nil] show ?case by (simp add: GetMessage_def Let_def)
next
  case (Cons x xs)
  have "inbox_holds r (x # xs) s" using Cons.prems by (simp add: closing_def Let_def)
  moreover have "CanAcceptMoreMessages (port_at s (ref_port r))" using closing_CanAccept [OF Cons.prems] by simp
  ultimately obtain q' where
    g: "GetMessage None r s = Some (OK, Some (x\<lparr>msg_port_name := ref_name r\<rparr>),
          upd_port (ref_port r) (\<lambda>p. p\<lparr>message_queue := q'\<rparr>) s)"
      "inbox_holds r xs (upd_port (ref_port r) (\<lambda>p. p\<lparr>message_queue := q'\<rparr>) s)"
      "unat (next_sequence_num q') = Suc (unat (next_sequence_num (message_queue (port_at s (ref_port r)))))"
    using GetMessage_inbox by blast
  have "ref_port r < length (port_objects s)"
    using Cons.prems by (simp add: closing_def inbox_holds_def Let_def)
  then have "closing r xs (upd_port (ref_port r) (\<lambda>p. p\<lparr>message_queue := q'\<rparr>) s)"
    using Cons.prems g(2,3) by (simp add: closing_def Let_def)
  from Cons.IH [OF this] g(1) show ?case by simp
qed

lemma map_of_erase: "map_of (filter (\<lambda>(k, _). k \<noteq> m) es) n = (if n = m then None else map_of es n)"
  by (induction es) auto

lemma GetPort_ErasePort: "GetPort n (ErasePort m s) = (if n = m then None else GetPort n s)"
  by (simp add: GetPort_def ports_ErasePort map_of_erase)

lemma close_channel:
  assumes "channel r0 r1 xs s" and "GetPort (ref_name r0) s = Some r0"
    and "\<forall>m\<in>set (heap (message_queue (port_at s (ref_port r0)))). msg_ports m = []"
  shows "\<exists>s1 e s2. ClosePort r0 s = (OK, s1) \<and> delegate s1 = delegate s @ [ForwardEvent (node_name s) e] \<and>
           GetPort (ref_name r0) s1 = None \<and> AcceptEvent e s1 = Some (OK, s2) \<and> closing r1 xs s2"
proof -
  let ?a = "ref_port r0" and ?b = "ref_port r1"
  let ?p0 = "port_at s ?a" and ?p1 = "port_at s ?b"
  let ?k = "unat (next_sequence_num (message_queue ?p1))"
  from assms(1) have c: "inbox_holds r1 xs s" "GetPort (ref_name r1) s = Some r1" "?a < length (port_objects s)"
    "?a \<noteq> ?b" "state ?p0 = kReceiving" "peer_node_name ?p0 = node_name s"
    "peer_port_name ?p0 = ref_name r1" "0 < ?k" "unat (next_sequence_num_to_send ?p0) = ?k + length xs"
    by (simp_all add: channel_def Let_def)
  have b: "?b < length (port_objects s)" "state ?p1 = kReceiving" using c(1) by (simp_all add: inbox_holds_def Let_def)
  have names: "ref_name r0 \<noteq> ref_name r1" using c(2,4) assms(2) by auto
  let ?e = "ObserveClosureEv (ref_name r1) (next_sequence_num_to_send ?p0 - 1)"
  let ?s1 = "ErasePort (ref_name r0) (upd_port ?a (\<lambda>p. p\<lparr>state := kClosed,
       message_queue := snd (TakeAllMessages (message_queue ?p0))\<rparr>) s)"
  have none: "concat (map msg_ports (heap (message_queue ?p0))) = []" using assms(3) by simp
  have close: "ClosePort r0 s = (OK, call (ForwardEvent (node_name s) ?e) ?s1)"
    unfolding ClosePort_unfold
    using c(5-7) none by (simp add: Let_def TakeAllMessages_def close_named_def del: concat_eq_Nil_conv)
  have look: "map_of (ports s) (ref_name r0) = Some ?a" using assms(2) by (auto dest: GetPort_Some)
  have er: "port_at ?s1 ?b = ?p1" "length (port_objects ?s1) = length (port_objects s)" "delegate ?s1 = delegate s"
    "node_name ?s1 = node_name s"
    using look c(4) by (simp_all add: ErasePort_def port_at_def upd_port_def)
  have g1: "GetPort (ref_name r1) ?s1 = Some r1" "GetPort (ref_name r0) ?s1 = None"
    using c(2) names by (simp_all add: GetPort_ErasePort)
  let ?s2 = "upd_port ?b (\<lambda>p. p\<lparr>peer_closed := True,
      last_sequence_num_to_receive := next_sequence_num_to_send ?p0 - 1\<rparr>) (call (ForwardEvent (node_name s) ?e) ?s1)"
  have p2: "port_at ?s2 ?b = ?p1\<lparr>peer_closed := True, last_sequence_num_to_receive := next_sequence_num_to_send ?p0 - 1\<rparr>"
    using er(1,2) b(1) by simp
  have "Suc (unat (next_sequence_num_to_send ?p0 - 1)) = ?k + length xs"
    using c(8,9) by (subst unat_minus_one) auto
  then have "closing r1 xs ?s2"
    using c(1,8) er(2) p2 by (simp add: closing_def inbox_holds_def Let_def)
  then have cl: "closing r1 xs (call x (call y ?s2))" for x y by (simp add: closing_def inbox_holds_def)
  have "AcceptEvent ?e (call (ForwardEvent (node_name s) ?e) ?s1) =
      Some (OK, call (PortStatusChanged r1) (call (ForwardEvent (peer_node_name ?p1)
        (ObserveClosureEv (peer_port_name ?p1) (next_sequence_num_to_send ?p1 - 1))) ?s2))"
    using g1(1) er(1) b(2) by (simp add: OnObserveClosure_def Let_def)
  with close cl er(3) g1(2) show ?thesis by fastforce
qed

text \<open>C5: closing one end of a channel loses nothing.  The port leaves the table, the closure
  event goes to the peer, and once the peer has processed it, the peer can still read every
  message in flight, in order; the read after the last one reports that the peer is closed.\<close>

theorem close_then_drain:
  assumes "channel r0 r1 xs s" and "GetPort (ref_name r0) s = Some r0"
    and "\<forall>m\<in>set (heap (message_queue (port_at s (ref_port r0)))). msg_ports m = []"
  shows "\<exists>s1 e s2. ClosePort r0 s = (OK, s1) \<and> GetPort (ref_name r0) s1 = None \<and>
     delegate s1 = delegate s @ [ForwardEvent (node_name s) e] \<and> AcceptEvent e s1 = Some (OK, s2) \<and>
     reads (Suc (length xs)) r1 s2 =
       Some (map (\<lambda>m. (OK, Some (m\<lparr>msg_port_name := ref_name r1\<rparr>))) xs @ [(ERROR_PORT_PEER_CLOSED, None)])"
  using close_channel [OF assms] reads_closing by blast

theorem close_then_drain_witness:
  "\<exists>s s1 e s2. SendUserMessage sample_ref0 (new_UserMessageEvent 0) sample_pair = Some (OK, s) \<and>
     ClosePort sample_ref0 s = (OK, s1) \<and> AcceptEvent e s1 = Some (OK, s2) \<and>
     reads 2 sample_ref1 s2 = Some [(OK, Some ((new_UserMessageEvent 0)\<lparr>msg_port_name := Name 2 7\<rparr>)),
       (ERROR_PORT_PEER_CLOSED, None)]"
proof -
  let ?m = "new_UserMessageEvent 0"
  note ch = CreatePortPair_channel [OF sample_pair_eq]
  have pl: "plain ?m" by (simp add: plain_def new_UserMessageEvent_def ReservePorts_def resize_def)
  from channel_send [of sample_ref0 sample_ref1 "[]" sample_pair ?m] ch pl obtain s where
    s: "SendUserMessage sample_ref0 ?m sample_pair = Some (OK, s)" "channel sample_ref0 sample_ref1 [?m] s"
      "ports s = ports sample_pair"
      "message_queue (port_at s (ref_port sample_ref0)) = message_queue (port_at sample_pair (ref_port sample_ref0))"
    by auto
  have "GetPort (ref_name sample_ref0) s = Some sample_ref0 \<and>
      heap (message_queue (port_at s (ref_port sample_ref0))) = []"
    using s(3,4) by (simp add: GetPort_def sample_pair_fields sample_ref0_def port_at_def new_Port_def new_MessageQueue_def)
  with close_then_drain [OF s(2)] s(1) show ?thesis
    by (auto simp: sample_ref1_def numeral_2_eq_2)
qed

end
