(* ===== verification/Node_Protocol.thy ===== *)
theory Node_Protocol
  imports Node_Channel
begin

text \<open>
  The proxy protocol: what a failed send leaves behind, transfer of a port between nodes,
  forwarding by a proxy and its removal, the loss of a connection, and two defects of the
  forwarding path.
\<close>

section \<open>Failed sends\<close>




text \<open>C17: the sequence number is also given back when none was taken.  A proxy that forwards a
  message, which already has its number, and finds an attached port that cannot be sent,
  decrements its own counter: from its initial value the counter becomes 0, and a closure event
  computed from it announces $2^{64} - 1$ as the last sequence number.\<close>

theorem proxy_backpedals_unassigned_number:
  assumes "state (port_at s (ref_port r)) = kProxying" and "ref_port r < length (port_objects s)"
    and "peer_node_name (port_at s (ref_port r)) = node_name s" and "sequence_num m \<noteq> 0"
    and "PortLocker (Some r # map (\<lambda>n. GetPort n s) (msg_ports m)) = Some (r # attached)"
    and "x \<in> set attached" and "state (port_at s (ref_port x)) \<noteq> kReceiving"
  shows "\<exists>rv s'. PrepareToForwardUserMessage r kProxying True m s = Some (rv, m, kInvalidNodeName, s') \<and> rv \<noteq> OK \<and>
     next_sequence_num_to_send (port_at s' (ref_port r)) = next_sequence_num_to_send (port_at s (ref_port r)) - 1"
proof -
  have "attached_error (peer_port_name (port_at s (ref_port r))) attached s \<noteq> OK"
    using attached_error_OK assms(6,7) by blast
  then show ?thesis
    using assms(1-5) by (simp add: PrepareToForwardUserMessage_def Let_def assign_sequence_num_def)
qed

text \<open>A proxy and a buffering port, with a message that carries the latter.\<close>

definition sample_proxy :: Node where
  "sample_proxy = sample_pair\<lparr>port_objects :=
     [(new_Port 1 1)\<lparr>state := kProxying, peer_node_name := Name 1 1, peer_port_name := Name 3 7\<rparr>,
      (new_Port 1 1)\<lparr>state := kBuffering, peer_node_name := Name 5 5, peer_port_name := Name 4 7\<rparr>]\<rparr>"

theorem proxy_backpedals_unassigned_number_witness:
  "\<exists>rv s'. PrepareToForwardUserMessage sample_ref0 kProxying True ((numbered 1)\<lparr>msg_ports := [Name 2 7]\<rparr>) sample_proxy =
       Some (rv, (numbered 1)\<lparr>msg_ports := [Name 2 7]\<rparr>, kInvalidNodeName, s') \<and> rv \<noteq> OK \<and>
     next_sequence_num_to_send (port_at s' 0) = 0"
proof -
  have "\<exists>rv s'. PrepareToForwardUserMessage sample_ref0 kProxying True ((numbered 1)\<lparr>msg_ports := [Name 2 7]\<rparr>) sample_proxy =
       Some (rv, (numbered 1)\<lparr>msg_ports := [Name 2 7]\<rparr>, kInvalidNodeName, s') \<and> rv \<noteq> OK \<and>
     next_sequence_num_to_send (port_at s' (ref_port sample_ref0)) =
       next_sequence_num_to_send (port_at sample_proxy (ref_port sample_ref0)) - 1"
    by (rule proxy_backpedals_unassigned_number [of _ _ _ "[sample_ref1]" sample_ref1])
       (simp_all add: sample_proxy_def sample_pair_fields sample_ref0_def sample_ref1_def port_at_def numbered_def
         sequence_num_def set_sequence_num_def GetPort_def PortLocker_def)
  then show ?thesis by (simp add: sample_ref0_def sample_proxy_def port_at_def new_Port_def)
qed

text \<open>C18: an incoming message can make the node lock one port twice, which never returns.  It is
  enough that a message addressed to a proxy, next in sequence, lists the proxy itself among its
  ports with an invalid referring node, for which the handler only asks that the port exists.\<close>

theorem forged_message_locks_twice:
  assumes "GetPort n s = Some r" and "ref_port r < length (port_objects s)"
    and "state (port_at s (ref_port r)) = kProxying"
    and "\<not> peer_closed (port_at s (ref_port r))" and "\<not> remove_proxy_on_last_message (port_at s (ref_port r))"
    and "message_queue (port_at s (ref_port r)) = new_MessageQueue k" and "ucast (sequence_num m) = k"
    and "msg_port_name m = n" and "msg_ports m = [n]"
    and "port_descriptors m = [d]" and "pd_referring_node_name d = kInvalidNodeName"
    and "peer_node_name (port_at s (ref_port r)) = node_name s"
  shows "AcceptEvent (UserMessageEv m) s = None"
proof -
  let ?p = "port_at s (ref_port r)"
  obtain h q where acc: "AcceptMessage m (new_MessageQueue k) = (h, q)" by fastforce
  let ?s2 = "upd_port (ref_port r) (\<lambda>p. p\<lparr>message_queue := q\<rparr>) s"
  have q: "mset (heap q) = {#m#}" "next_sequence_num q = k"
    using acc std_heap.mset_push [of sequence_num "[]" m]
    by (auto simp: AcceptMessage_def new_MessageQueue_def Let_def std_heap.inv_Nil)
  then have "heap q = [m]" by (cases "heap q") auto
  then have "HasNextMessage q" using q(2) assms(7) by (simp add: HasNextMessage_def)
  then obtain q' where g: "GetNextMessage None q = (Some m, q')"
    using \<open>heap q = [m]\<close> by (auto simp: GetNextMessage_def Let_def pop_heap_def)
  have "PrepareToForwardUserMessage r kProxying True m
      (upd_port (ref_port r) (\<lambda>p. p\<lparr>message_queue := q'\<rparr>) ?s2) = None"
    using assms(1,2,9,12) by (simp add: PrepareToForwardUserMessage_def Let_def PortLocker_def)
  then have "ForwardUserMessagesFromProxy r ?s2 = None"
    using g assms(2) by (subst ForwardUserMessagesFromProxy.simps) (simp add: Let_def)
  moreover have "CanAcceptMoreMessages ?p" using assms(3-5) by (simp add: CanAcceptMoreMessages_def)
  moreover have m: "m\<lparr>port_descriptors := [d]\<rparr> = m" using assms(10) by (cases m) simp
  have "AcceptMessage (m\<lparr>port_descriptors := [d]\<rparr>) (new_MessageQueue k) = (h, q)"
    using acc by (simp only: m)
  ultimately show ?thesis
    using assms(1,3,6,8-11) by (simp add: OnUserMessage_def Let_def)
qed

theorem forged_message_locks_twice_witness:
  "AcceptEvent (UserMessageEv ((numbered 1)\<lparr>msg_port_name := Name 1 7, msg_ports := [Name 1 7],
     port_descriptors := [empty_PortDescriptor]\<rparr>)) sample_proxy = None"
  by (rule forged_message_locks_twice [where r = sample_ref0 and k = 1 and d = empty_PortDescriptor])
     (simp_all add: sample_proxy_def sample_pair_fields sample_ref0_def port_at_def numbered_def new_Port_def
       sequence_num_def set_sequence_num_def GetPort_def empty_PortDescriptor_def)

section \<open>Moving a port to another node\<close>

lemma AcceptPort_new:
  assumes "map_of (ports s) n = None"
  obtains s' where "AcceptPort n d s = (OK, s')" "GetPort n s' = Some \<lparr>ref_name = n, ref_port = length (port_objects s)\<rparr>"
    "delegate s' = delegate s @ [ForwardEvent (pd_referring_node_name d) (PortAcceptedEv (pd_referring_port_name d))]"
    "port_at s' (length (port_objects s)) =
       (new_Port (pd_next_sequence_num_to_send d) (pd_next_sequence_num_to_receive d))
         \<lparr>state := kReceiving, peer_node_name := pd_peer_node_name d, peer_port_name := pd_peer_port_name d,
          last_sequence_num_to_receive := pd_last_sequence_num_to_receive d, peer_closed := pd_peer_closed d,
          message_queue := set_signalable False (new_MessageQueue (pd_next_sequence_num_to_receive d))\<rparr>"
  using assms that by (auto simp: AcceptPort_def AddPortWithName_def Let_def GetPort_def new_Port_def
    port_at_def map_add_def call_def)

text \<open>C10: a port sent to another node arrives as it left.  The descriptor made from the port
  travels as bytes inside a merge event; the receiving node binds a port with the same peer, the
  same two sequence counters, the same closure information and no messages, and tells the
  sender; the port left behind buffers and points to the new one.\<close>

theorem port_transfer:
  assumes "ConvertToProxy a to_node l s = (n, d, s')" and "a < length (port_objects s)"
    and "Deserialize (Serialize (MergePortEv dest n d)) = Some (MergePortEv dest' n' d')"
    and "map_of (ports t) n' = None"
  shows "\<exists>t' r. AcceptPort n' d' t = (OK, t') \<and> GetPort n t' = Some r \<and>
     (let p = port_at s a; p' = port_at s' a; q = port_at t' (ref_port r) in
      state q = kReceiving \<and> peer_node_name q = peer_node_name p \<and> peer_port_name q = peer_port_name p \<and>
      next_sequence_num_to_send q = next_sequence_num_to_send p \<and>
      next_sequence_num (message_queue q) = next_sequence_num (message_queue p) \<and> heap (message_queue q) = [] \<and>
      peer_closed q = peer_closed p \<and> last_sequence_num_to_receive q = last_sequence_num_to_receive p \<and>
      state p' = kBuffering \<and> peer_node_name p' = to_node \<and> peer_port_name p' = n \<and>
      message_queue p' = message_queue p \<and>
      delegate t' = delegate t @ [ForwardEvent (node_name s) (PortAcceptedEv l)])"
proof -
  obtain nn g where f: "fresh_name s = (nn, s\<lparr>name_generator := g\<rparr>)"
    using fresh_name_eq by (metis surj_pair)
  have rt: "Deserialize (Serialize (MergePortEv dest n d)) = Some (MergePortEv dest n d)"
    using Deserialize_MergePort_roundtrip [of dest n d "[]"] by simp
  with assms(3) have eq: "n' = n" "d' = d" by simp_all
  from AcceptPort_new [OF assms(4), of d'] obtain t' where
    t': "AcceptPort n' d' t = (OK, t')" "GetPort n' t' = Some \<lparr>ref_name = n', ref_port = length (port_objects t)\<rparr>"
      "delegate t' = delegate t @ [ForwardEvent (pd_referring_node_name d') (PortAcceptedEv (pd_referring_port_name d'))]"
      "port_at t' (length (port_objects t)) =
        (new_Port (pd_next_sequence_num_to_send d') (pd_next_sequence_num_to_receive d'))
         \<lparr>state := kReceiving, peer_node_name := pd_peer_node_name d', peer_port_name := pd_peer_port_name d',
          last_sequence_num_to_receive := pd_last_sequence_num_to_receive d', peer_closed := pd_peer_closed d',
          message_queue := set_signalable False (new_MessageQueue (pd_next_sequence_num_to_receive d'))\<rparr>" .
  show ?thesis
    using t' assms(1,2) f eq
    by (auto simp: ConvertToProxy_def Let_def set_signalable_def new_MessageQueue_def new_Port_def)
qed

theorem port_transfer_witness:
  "\<exists>n d s' t' r. ConvertToProxy 0 (Name 9 9) (Name 1 7) sample_pair = (n, d, s') \<and>
     AcceptPort n d (new_Node (Name 9 9) sample_names) = (OK, t') \<and> GetPort n t' = Some r \<and>
     peer_port_name (port_at t' (ref_port r)) = Name 2 7 \<and> state (port_at s' 0) = kBuffering \<and>
     delegate t' = [ForwardEvent (Name 1 1) (PortAcceptedEv (Name 1 7))]"
proof -
  obtain n d s' where c: "ConvertToProxy 0 (Name 9 9) (Name 1 7) sample_pair = (n, d, s')"
    by (metis prod_cases3)
  have rt: "Deserialize (Serialize (MergePortEv (Name 8 8) n d)) = Some (MergePortEv (Name 8 8) n d)"
    using Deserialize_MergePort_roundtrip [of "Name 8 8" n d "[]"] by simp
  show ?thesis
    using port_transfer [OF c _ rt, of "new_Node (Name 9 9) sample_names"] c
    by (auto simp: sample_pair_fields new_Node_def Let_def port_at_def)
qed

section \<open>Forwarding by a proxy\<close>








lemma fold_call:
  "delegate (fold call cs s) = delegate s @ cs" "ports (fold call cs s) = ports s"
  "port_objects (fold call cs s) = port_objects s" "node_name (fold call cs s) = node_name s"
  "port_at (fold call cs s) a = port_at s a"
  by (induction cs arbitrary: s) simp_all









section \<open>Removing a proxy\<close>

lemma GetPort_fold_call [simp]: "GetPort n (fold call cs s) = GetPort n s"
  by (simp add: GetPort_def fold_call)





section \<open>Bypassing a proxy\<close>

lemma port_at_ErasePort_other:
  "map_of (ports s) n = Some b \<Longrightarrow> a \<noteq> b \<Longrightarrow> port_at (ErasePort n s) a = port_at s a"
  by (simp add: ErasePort_def) (simp add: port_at_def)

text \<open>
  Three ports of one node: \<open>rA\<close> receives and sends to the proxy \<open>rP\<close>, the proxy forwards to
  \<open>rB\<close>, and \<open>rB\<close> sends to \<open>rA\<close> directly.
\<close>

definition proxy_cycle :: "PortRef \<Rightarrow> PortRef \<Rightarrow> PortRef \<Rightarrow> Node \<Rightarrow> bool" where
  "proxy_cycle rA rP rB s \<longleftrightarrow>
     (let pA = port_at s (ref_port rA); pP = port_at s (ref_port rP); pB = port_at s (ref_port rB) in
      (\<forall>r\<in>{rA, rP, rB}. GetPort (ref_name r) s = Some r \<and> ref_port r < length (port_objects s) \<and>
         ref_name r \<noteq> kInvalidPortName) \<and>
      distinct [ref_port rA, ref_port rP, ref_port rB] \<and>
      state pA = kReceiving \<and> peer_node_name pA = node_name s \<and> peer_port_name pA = ref_name rP \<and>
      state pP = kProxying \<and> peer_node_name pP = node_name s \<and> peer_port_name pP = ref_name rB \<and>
      send_on_proxy_removal pP = None \<and>
      peer_node_name pB = node_name s \<and> peer_port_name pB = ref_name rA)"

text \<open>C3: the removal of a proxy, from the first event to the last.  The proxy announces itself to
  its peer; the announcement travels on until it reaches the port that sends to the proxy; that
  port redirects itself to the proxy's target and tells the proxy the last number it used; and the
  proxy, having forwarded everything up to that number, leaves the table.  Afterwards the two
  remaining ports are each other's peers and nothing else about them has changed.\<close>

theorem proxy_elimination:
  assumes "proxy_cycle rA rP rB s"
    and "next_sequence_num (message_queue (port_at s (ref_port rP))) = next_sequence_num_to_send (port_at s (ref_port rA))"
    and "next_sequence_num_to_send (port_at s (ref_port rA)) - 1 \<noteq> kInvalidSequenceNum"
  shows "\<exists>e1 e2 e3 s1 s2 s3 s4 c.
     s1 = InitiateProxyRemoval rP s \<and> last (delegate s1) = ForwardEvent (node_name s) e1 \<and>
     AcceptEvent e1 s1 = Some (OK, s2) \<and> last (delegate s2) = ForwardEvent (node_name s) e2 \<and>
     AcceptEvent e2 s2 = Some (OK, s3) \<and> delegate s3 = delegate s2 @ [ForwardEvent (node_name s) e3, c] \<and>
     AcceptEvent e3 s3 = Some (OK, s4) \<and>
     GetPort (ref_name rP) s4 = None \<and>
     port_at s4 (ref_port rA) = (port_at s (ref_port rA))\<lparr>peer_port_name := ref_name rB\<rparr> \<and>
     port_at s4 (ref_port rB) = port_at s (ref_port rB)"
proof -
  let ?N = "node_name s" and ?A = "ref_port rA" and ?P = "ref_port rP" and ?B = "ref_port rB"
  let ?last = "next_sequence_num_to_send (port_at s ?A) - 1"
  from assms(1) have c: "GetPort (ref_name rA) s = Some rA" "GetPort (ref_name rP) s = Some rP" "GetPort (ref_name rB) s = Some rB"
    "?A < length (port_objects s)" "?P < length (port_objects s)" "?B < length (port_objects s)"
    "ref_name rA \<noteq> kInvalidPortName" "ref_name rB \<noteq> kInvalidPortName" "?A \<noteq> ?P" "?A \<noteq> ?B" "?P \<noteq> ?B"
    "state (port_at s ?A) = kReceiving" "peer_node_name (port_at s ?A) = ?N" "peer_port_name (port_at s ?A) = ref_name rP"
    "state (port_at s ?P) = kProxying" "peer_node_name (port_at s ?P) = ?N" "peer_port_name (port_at s ?P) = ref_name rB"
    "send_on_proxy_removal (port_at s ?P) = None"
    "peer_node_name (port_at s ?B) = ?N" "peer_port_name (port_at s ?B) = ref_name rA"
    unfolding proxy_cycle_def Let_def by simp_all
  have names: "ref_name rA \<noteq> ref_name rP" using c(1,2,9) by (metis option.inject)
  let ?e1 = "ObserveProxyEv (ref_name rB) ?N (ref_name rP) ?N (ref_name rB)"
  let ?e2 = "ObserveProxyEv (ref_name rA) ?N (ref_name rP) ?N (ref_name rB)"
  let ?e3 = "ObserveProxyAckEv (ref_name rP) ?last"
  let ?s1 = "call (ForwardEvent ?N ?e1) s"
  let ?s2 = "call (ForwardEvent ?N ?e2) ?s1"
  let ?u = "upd_port ?A (\<lambda>p. p\<lparr>peer_node_name := ?N, peer_port_name := ref_name rB\<rparr>) ?s2"
  let ?s3 = "call (PortStatusChanged rA) (call (ForwardEvent ?N ?e3) ?u)"
  let ?v = "upd_port ?P (\<lambda>p. p\<lparr>remove_proxy_on_last_message := True, last_sequence_num_to_receive := ?last\<rparr>) ?s3"
  let ?s4 = "ErasePort (ref_name rP) (upd_port ?P (\<lambda>p. p\<lparr>send_on_proxy_removal := None\<rparr>) ?v)"
  have 1: "InitiateProxyRemoval rP s = ?s1" using c(16,17) by (simp add: InitiateProxyRemoval_def Let_def)
  have 2: "AcceptEvent ?e1 ?s1 = Some (OK, ?s2)"
    using c(3,8,19,20) names by (simp add: OnObserveProxy_def Let_def)
  have 3: "AcceptEvent ?e2 ?s2 = Some (OK, ?s3)"
    using c(1,7,12-14) by (simp add: OnObserveProxy_def Let_def)
  have p: "port_at ?v ?P = (port_at s ?P)\<lparr>remove_proxy_on_last_message := True, last_sequence_num_to_receive := ?last\<rparr>"
    using c(5,9) by simp
  have "\<not> CanAcceptMoreMessages (port_at ?v ?P)"
    using assms(2) p by (simp add: CanAcceptMoreMessages_def)
  then have "TryRemoveProxy rP ?v = ?s4"
    using p c(18) by (simp add: TryRemoveProxy_def Let_def)
  then have 4: "AcceptEvent ?e3 ?s3 = Some (OK, ?s4)"
    using c(2,9,15) assms(3) by (simp add: OnObserveProxyAck_def)
  have look: "map_of (ports s) (ref_name rP) = Some ?P" using c(2) by (auto dest: GetPort_Some)
  have "(port_at s ?A)\<lparr>peer_node_name := ?N, peer_port_name := ref_name rB\<rparr> =
      (port_at s ?A)\<lparr>peer_port_name := ref_name rB\<rparr>" using c(13) by (cases "port_at s ?A") simp
  then have A: "port_at ?s4 ?A = (port_at s ?A)\<lparr>peer_port_name := ref_name rB\<rparr>"
    using look c(4,9,10) by (simp add: port_at_ErasePort_other)
  have B: "port_at ?s4 ?B = port_at s ?B"
    using look c(9,10,11) by (simp add: port_at_ErasePort_other)
  have P: "GetPort (ref_name rP) ?s4 = None" by (simp add: GetPort_ErasePort)
  have d: "last (delegate ?s1) = ForwardEvent ?N ?e1" "last (delegate ?s2) = ForwardEvent ?N ?e2"
    "delegate ?s3 = delegate ?s2 @ [ForwardEvent ?N ?e3, PortStatusChanged rA]" by simp_all
  show ?thesis
    by (intro exI conjI, rule 1 [symmetric], rule d(1), rule 2, rule d(2), rule 3, rule d(3), rule 4, rule P, rule A, rule B)
qed

definition sample_cycle :: Node where
  "sample_cycle = sample_pair\<lparr>ports := [(Name 1 7, 0), (Name 2 7, 1), (Name 3 7, 2)], port_objects :=
     [(new_Port 1 1)\<lparr>state := kReceiving, peer_node_name := Name 1 1, peer_port_name := Name 2 7\<rparr>,
      (new_Port 1 1)\<lparr>state := kProxying, peer_node_name := Name 1 1, peer_port_name := Name 3 7\<rparr>,
      (new_Port 1 1)\<lparr>state := kReceiving, peer_node_name := Name 1 1, peer_port_name := Name 1 7\<rparr>]\<rparr>"

definition sample_ref2 :: PortRef where
  "sample_ref2 = \<lparr>ref_name = Name 3 7, ref_port = 2\<rparr>"

theorem proxy_elimination_witness:
  "\<exists>e1 e2 e3 s1 s2 s3 s4. s1 = InitiateProxyRemoval sample_ref1 sample_cycle \<and>
     AcceptEvent e1 s1 = Some (OK, s2) \<and> AcceptEvent e2 s2 = Some (OK, s3) \<and> AcceptEvent e3 s3 = Some (OK, s4) \<and>
     GetPort (Name 2 7) s4 = None \<and> peer_port_name (port_at s4 0) = Name 3 7"
proof -
  have fields: "node_name sample_cycle = Name 1 1" "ports sample_cycle = [(Name 1 7, 0), (Name 2 7, 1), (Name 3 7, 2)]"
    by (simp_all add: sample_cycle_def sample_pair_fields)
  have cyc: "proxy_cycle sample_ref0 sample_ref1 sample_ref2 sample_cycle"
    using fields by (simp add: proxy_cycle_def sample_ref0_def sample_ref1_def sample_ref2_def GetPort_def
      kInvalidPortName_def Let_def port_at_def) (simp add: sample_cycle_def new_Port_def)
  have num: "next_sequence_num (message_queue (port_at sample_cycle (ref_port sample_ref1))) =
      next_sequence_num_to_send (port_at sample_cycle (ref_port sample_ref0))"
    "next_sequence_num_to_send (port_at sample_cycle (ref_port sample_ref0)) - 1 \<noteq> kInvalidSequenceNum"
    by (simp_all add: port_at_def sample_cycle_def sample_ref0_def sample_ref1_def new_Port_def new_MessageQueue_def
      kInvalidSequenceNum_def)
  from proxy_elimination [OF cyc num] obtain e1 e2 e3 s1 s2 s3 s4 where
    x: "s1 = InitiateProxyRemoval sample_ref1 sample_cycle" "AcceptEvent e1 s1 = Some (OK, s2)"
      "AcceptEvent e2 s2 = Some (OK, s3)" "AcceptEvent e3 s3 = Some (OK, s4)"
      "GetPort (ref_name sample_ref1) s4 = None"
      "port_at s4 (ref_port sample_ref0) = (port_at sample_cycle (ref_port sample_ref0))\<lparr>peer_port_name := ref_name sample_ref2\<rparr>"
    by blast
  have "GetPort (Name 2 7) s4 = None" "peer_port_name (port_at s4 0) = Name 3 7"
    using x(5,6) by (simp_all add: sample_ref0_def sample_ref1_def sample_ref2_def)
  with x(1-4) show ?thesis by blast
qed

section \<open>Losing a connection\<close>

text \<open>No port of the table still waits for the node \<open>x\<close>.\<close>

definition given_up :: "NodeName \<Rightarrow> Node \<Rightarrow> bool" where
  "given_up x s \<longleftrightarrow> (\<forall>(n, a)\<in>set (ports s). peer_node_name (port_at s a) = x \<longrightarrow>
     peer_closed (port_at s a) \<and> state (port_at s a) \<in> {kReceiving, kClosed})"

lemma given_up_upd:
  assumes "given_up x s"
    and "peer_node_name (f (port_at s a)) = peer_node_name (port_at s a)"
    and "peer_closed (port_at s a) \<Longrightarrow> peer_closed (f (port_at s a))"
    and "state (f (port_at s a)) = state (port_at s a) \<or> state (f (port_at s a)) = kClosed"
  shows "given_up x (upd_port a f s)"
  using assms by (auto simp: given_up_def port_at_upd_port)

lemma given_up_call [simp]: "given_up x (call c s) = given_up x s"
  by (simp add: given_up_def)

lemma given_up_table: "given_up x s \<Longrightarrow> given_up x (s\<lparr>ports := filter P (ports s)\<rparr>)"
  by (auto simp: given_up_def port_at_def)

lemma given_up_ErasePort: "given_up x s \<Longrightarrow> given_up x (ErasePort n s)"
  by (cases "map_of (ports s) n") (auto simp: ErasePort_def intro!: given_up_upd given_up_table)

lemma given_up_fold: "given_up x s \<Longrightarrow> (\<And>y s'. given_up x s' \<Longrightarrow> given_up x (f y s')) \<Longrightarrow> given_up x (fold f ys s)"
  by (induction ys arbitrary: s) auto

lemma given_up_ClosePort_fuel: "given_up x s \<Longrightarrow> given_up x (snd (ClosePort_fuel fuel r s))"
proof (induction fuel arbitrary: r s)
  case (Suc fuel)
  let ?f = "\<lambda>n s'. case GetPort n s' of None \<Rightarrow> s' | Some ref \<Rightarrow> snd (ClosePort_fuel fuel ref s')"
  have "given_up x (fold ?f ns s')" if "given_up x s'" for ns s'
    using that by (intro given_up_fold) (auto simp: Suc.IH split: option.splits)
  moreover have "given_up x (upd_port a (\<lambda>p. p\<lparr>state := kClosed, message_queue := q\<rparr>) s)" for a q
    using Suc.prems by (intro given_up_upd) auto
  ultimately show ?case
    using Suc.prems by (auto simp: Let_def given_up_ErasePort split: State.splits prod.splits)
qed simp

lemma given_up_close_named: "given_up x s \<Longrightarrow> given_up x (close_named ns s)"
  unfolding close_named_def ClosePort_def
  by (intro given_up_fold) (auto simp: given_up_ClosePort_fuel simp del: ClosePort_fuel.simps split: option.splits)

text \<open>What the first loop does to the port at one address.\<close>

lemma destroy_scan_port:
  "destroy_scan node port es s = (notify, dead, ms, s') \<Longrightarrow>
     state (port_at s' a) = state (port_at s a) \<and> peer_node_name (port_at s' a) = peer_node_name (port_at s a) \<and>
     peer_port_name (port_at s' a) = peer_port_name (port_at s a) \<and>
     (peer_closed (port_at s a) \<longrightarrow> peer_closed (port_at s' a)) \<and>
     length (port_objects s') = length (port_objects s)"
proof (induction es arbitrary: s notify dead ms s')
  case (Cons e es)
  from Cons.prems show ?case
    by (cases e) (fastforce simp: Let_def port_at_upd_port split: if_splits prod.splits dest!: Cons.IH)
qed simp

lemma destroy_scan_ConsE:
  assumes "destroy_scan node port ((n, a) # es) s = (notify, dead, ms, s')"
  obtains (skip) "\<not> has_peer node port (port_at s a)" "destroy_scan node port es s = (notify, dead, ms, s')"
  | (peer) t notify' dead' ms' where "has_peer node port (port_at s a)"
      "destroy_scan node port es t = (notify', dead', ms', s')"
      "dead = (if state (port_at s a) = kReceiving then dead' else n # dead')"
      "length (port_objects t) = length (port_objects s)" "\<And>b. b \<noteq> a \<Longrightarrow> port_at t b = port_at s b"
      "state (port_at t a) = state (port_at s a)" "has_peer node port (port_at t a)"
      "a < length (port_objects s) \<Longrightarrow> peer_closed (port_at t a)"
proof (cases "has_peer node port (port_at s a)")
  case False
  with assms skip show ?thesis by simp
next
  case True
  let ?p = "port_at s a"
  define s1 where "s1 = (if peer_closed ?p then s
     else upd_port a (\<lambda>p. p\<lparr>peer_closed := True,
            last_sequence_num_to_receive := next_sequence_num (message_queue p) - 1\<rparr>) s)"
  let ?s2 = "upd_port a (\<lambda>p. p\<lparr>message_queue := snd (TakeAllMessages (message_queue (port_at s1 a)))\<rparr>) s1"
  let ?t = "if state ?p = kReceiving then s1 else ?s2"
  obtain ns d m t' where r: "destroy_scan node port es ?t = (ns, d, m, t')" by (metis prod_cases4)
  have "t' = s'" "dead = (if state ?p = kReceiving then d else n # d)"
    using assms True r by (auto simp: Let_def s1_def [symmetric] split: if_splits prod.splits)
  then show ?thesis
    using True r by (intro peer [of ?t ns d m]) (auto simp: s1_def port_at_upd_port has_peer_def)
qed

lemma destroy_scan_marks:
  "destroy_scan node port es s = (notify, dead, ms, s') \<Longrightarrow> (n, a) \<in> set es \<Longrightarrow>
     has_peer node port (port_at s a) \<Longrightarrow> a < length (port_objects s) \<Longrightarrow>
     peer_closed (port_at s' a) \<and> (state (port_at s a) \<noteq> kReceiving \<longrightarrow> n \<in> set dead)"
proof (induction es arbitrary: s notify dead ms s')
  case (Cons e es)
  obtain m b where e: "e = (m, b)" by fastforce
  from Cons.prems(1) [unfolded e] show ?case
  proof (cases rule: destroy_scan_ConsE)
    case skip
    with Cons e show ?thesis by auto
  next
    case (peer t notify' dead' ms')
    have t: "has_peer node port (port_at t a)" "state (port_at t a) = state (port_at s a)"
      using Cons.prems(3) peer(5-7) by (metis)+
    show ?thesis
    proof (cases "(n, a) \<in> set es")
      case True
      from Cons.IH [OF peer(2) True t(1)] t(2) peer(3,4) Cons.prems(4) show ?thesis by auto
    next
      case False
      with Cons.prems(2) e have "a = b" "n = m" by auto
      with peer destroy_scan_port [OF peer(2), of a] Cons.prems(4) show ?thesis by auto
    qed
  qed
qed simp

lemma given_up_scan:
  assumes "destroy_scan node port es s = (notify, dead, ms, s')" and "given_up x s"
  shows "given_up x s'"
  using assms(2) destroy_scan_port [OF assms(1)] destroy_scan_frame [OF assms(1)]
  by (fastforce simp: given_up_def)

lemma given_up_Destroy_fuel: "given_up x s \<Longrightarrow> given_up x (DestroyAllPortsWithPeer_fuel fuel node port s)"
proof (induction fuel arbitrary: node port s)
  case (Suc fuel)
  obtain notify dead ms s1 where sc: "destroy_scan node port (ports s) s = (notify, dead, ms, s1)"
    by (metis prod_cases4)
  from Suc.prems have "given_up x (fold ErasePort dead s1)"
    by (intro given_up_fold given_up_ErasePort given_up_scan [OF sc])
  then have "given_up x (destroy_dead (DestroyAllPortsWithPeer_fuel fuel) dead
      (fold (\<lambda>r. call (PortStatusChanged r)) notify (fold ErasePort dead s1)))"
    by (intro given_up_fold [OF given_up_fold [of x "fold ErasePort dead s1"]] Suc.IH) auto
  then show ?case by (simp add: sc Let_def given_up_close_named)
qed simp

lemma ports_fold_ErasePort: "ports (fold ErasePort dead s) = filter (\<lambda>(k, _). k \<notin> set dead) (ports s)"
  by (induction dead arbitrary: s) (auto simp: ports_ErasePort case_prod_beta' intro!: filter_cong)

lemma ErasePort_port: "peer_node_name (port_at (ErasePort n s) a) = peer_node_name (port_at s a) \<and>
    peer_closed (port_at (ErasePort n s) a) = peer_closed (port_at s a) \<and>
    state (port_at (ErasePort n s) a) = state (port_at s a)"
  by (cases "map_of (ports s) n"; auto simp: ErasePort_def port_at_upd_port; simp add: port_at_def)

lemma fold_ErasePort_port: "peer_node_name (port_at (fold ErasePort ds s) a) = peer_node_name (port_at s a) \<and>
    peer_closed (port_at (fold ErasePort ds s) a) = peer_closed (port_at s a) \<and>
    state (port_at (fold ErasePort ds s) a) = state (port_at s a)"
  by (induction ds arbitrary: s) (simp_all add: ErasePort_port)

lemma given_up_LostConnection:
  assumes "node_wf s"
  shows "given_up x (snd (LostConnectionToNode x s))"
proof -
  obtain notify dead ms s1 where sc: "destroy_scan x kInvalidPortName (ports s) s = (notify, dead, ms, s1)"
    by (metis prod_cases4)
  have "peer_closed (port_at s1 a) \<and> state (port_at s1 a) \<in> {kReceiving, kClosed}"
    if na: "(n, a) \<in> set (ports s1)" "n \<notin> set dead" "peer_node_name (port_at s1 a) = x" for n a
  proof -
    have "(n, a) \<in> set (ports s)" using na(1) destroy_scan_frame [OF sc] by simp
    moreover from this have "a < length (port_objects s)" using assms by (auto simp: node_wf_def)
    moreover have "has_peer x kInvalidPortName (port_at s a)"
      using na(3) destroy_scan_port [OF sc, of a] by (simp add: has_peer_def)
    ultimately show ?thesis
      using destroy_scan_marks [OF sc, of n a] destroy_scan_port [OF sc, of a] na(2) by auto
  qed
  then have "given_up x (fold ErasePort dead s1)"
    by (auto simp: given_up_def ports_fold_ErasePort fold_ErasePort_port)
  then have "given_up x (destroy_dead DestroyAllPortsWithPeer dead
      (fold (\<lambda>r. call (PortStatusChanged r)) notify (fold ErasePort dead s1)))"
    unfolding DestroyAllPortsWithPeer_def
    by (intro given_up_fold [OF given_up_fold [of x "fold ErasePort dead s1"]] given_up_Destroy_fuel) auto
  then show ?thesis
    by (simp add: LostConnectionToNode_def DestroyAllPortsWithPeer_unfold [of x] sc given_up_close_named)
qed

text \<open>C6: after the connection to a node is lost, every port still in the table whose peer is on
  that node is a receiving port that knows its peer to be closed; every proxy and every buffering
  port that pointed there is gone, including those reached through a chain of dead proxies.\<close>

theorem lost_connection_cleans_up:
  assumes "node_wf s"
  shows "\<forall>(n, a)\<in>set (ports (snd (LostConnectionToNode x s))).
     peer_node_name (port_at (snd (LostConnectionToNode x s)) a) = x \<longrightarrow>
     state (port_at (snd (LostConnectionToNode x s)) a) = kReceiving \<and>
     peer_closed (port_at (snd (LostConnectionToNode x s)) a)"
proof -
  have "node_wf (snd (LostConnectionToNode x s))"
    using evolves_LostConnectionToNode [of s x] assms by (simp add: evolves_def)
  with given_up_LostConnection [OF assms, of x] show ?thesis
    by (fastforce simp: given_up_def node_wf_def)
qed

theorem lost_connection_cleans_up_witness:
  "peer_node_name (port_at (snd (LostConnectionToNode (Name 1 1) sample_pair)) 0) = Name 1 1 \<and>
   state (port_at (snd (LostConnectionToNode (Name 1 1) sample_pair)) 0) = kReceiving \<and>
   peer_closed (port_at (snd (LostConnectionToNode (Name 1 1) sample_pair)) 0)"
proof -
  let ?t = "snd (LostConnectionToNode (Name 1 1) sample_pair)"
  have "\<exists>ns s1. destroy_scan (Name 1 1) kInvalidPortName (ports sample_pair) sample_pair = (ns, [], [], s1)"
    by (simp add: sample_pair_fields has_peer_def port_at_def upd_port_def new_Port_def Let_def)
  then obtain ns s1 where sc: "destroy_scan (Name 1 1) kInvalidPortName (ports sample_pair) sample_pair = (ns, [], [], s1)"
    by blast
  have notify: "port_at (fold (\<lambda>r. call (PortStatusChanged r)) rs t) a = port_at t a" for rs t a
    by (induction rs arbitrary: t) simp_all
  have "?t = fold (\<lambda>r. call (PortStatusChanged r)) ns s1"
    using DestroyAllPortsWithPeer_unfold [of "Name 1 1" kInvalidPortName sample_pair]
    by (simp add: LostConnectionToNode_def sc close_named_def)
  then have "ports ?t = ports sample_pair \<and> peer_node_name (port_at ?t 0) = Name 1 1"
    using destroy_scan_frame [OF sc] destroy_scan_port [OF sc, of 0]
    by (simp add: fold_notify_frame notify) (simp add: port_at_def sample_pair_fields)
  with lost_connection_cleans_up [OF sample_pair_wf, of "Name 1 1"] show ?thesis
    by (auto simp: sample_pair_fields)
qed

section \<open>Depth of the recursions\<close>

text \<open>C15: closing a port always ends, and so does the destruction of ports whose peer is gone, also when it spreads along
  chains or cycles of proxies: with as much recursion depth as there are ports in the table, or any more, \<open>ClosePort\<close>
  and \<open>DestroyAllPortsWithPeer\<close> satisfy the recursions of the source, in which every port attached to an undelivered
  message is closed in turn and every proxy that dies has the ports behind it destroyed in turn.\<close>

theorem recursions_end:
  "ClosePort_fuel (Suc (length (ports s) + k)) r s =
     (let p = port_at s (ref_port r) in
      case state p of
        kUninitialized \<Rightarrow> (OK, ErasePort (ref_name r) s)
      | kReceiving \<Rightarrow>
          (let (undelivered, q) = TakeAllMessages (message_queue p);
               s1 = upd_port (ref_port r) (\<lambda>p. p\<lparr>state := kClosed, message_queue := q\<rparr>) s;
               s2 = ErasePort (ref_name r) s1;
               s3 = call (ForwardEvent (peer_node_name p)
                       (ObserveClosureEv (peer_port_name p) (next_sequence_num_to_send p - 1))) s2
           in (OK, fold (\<lambda>n s'. case GetPort n s' of None \<Rightarrow> s' | Some ref \<Rightarrow> snd (ClosePort ref s'))
                     (concat (map msg_ports undelivered)) s3))
      | _ \<Rightarrow> (ERROR_PORT_STATE_UNEXPECTED, s)) \<and>
   DestroyAllPortsWithPeer_fuel (Suc (length (ports s) + k)) node port s =
     (case destroy_scan node port (ports s) s of (notify, dead, undelivered, s1) \<Rightarrow>
        close_named (concat (map msg_ports undelivered))
          (fold (\<lambda>x s'. DestroyAllPortsWithPeer (node_name s') x
                  (call (BroadcastEvent (ObserveProxyEv kInvalidPortName (node_name s') x
                           kInvalidNodeName kInvalidPortName)) s')) dead
            (fold (\<lambda>r. call (PortStatusChanged r)) notify (fold ErasePort dead s1))))"
  using ClosePort_fuel_unfold [of s k r] Destroy_fuel_unfold [of s k node port] by (simp only: close_named_def simp_thms)

end
