(* ===== verification/Pickle.thy ===== *)
theory Pickle
  imports Libchrome_Prelude
begin

text \<open>
  \<open>base::Pickle\<close> and \<open>base::PickleIterator\<close> (\<open>base/pickle.h\<close>, \<open>base/pickle.cc\<close>) with
  \<open>bits::Align\<close> (\<open>base/bits.h\<close>).

  A pickle is a block of memory (header, payload, unused capacity) with the sizes the class
  keeps.  \<open>fresh\<close> gives the contents of newly allocated bytes, which \<open>realloc\<close> leaves
  indeterminate; nothing below depends on it.  Operations whose \<open>CHECK\<close> fails, or that would
  write through a read-only pickle or read past the caller's buffer, give \<open>None\<close>.  An \<open>int\<close>
  is a 32-bit word, read with \<open>sint\<close> where its sign matters; floating-point values are their
  bit patterns.
\<close>

unbundle bit_operations_syntax

section \<open>Alignment\<close>

definition IsPowerOfTwo :: "'a::len word \<Rightarrow> bool" where
  "IsPowerOfTwo v \<longleftrightarrow> v > 0 \<and> (v AND (v - 1)) = 0"

definition Align :: "usize \<Rightarrow> usize \<Rightarrow> usize" where
  "Align sz alignment = (sz + alignment - 1) AND NOT (alignment - 1)"

lemma and_not_mask: "((x :: usize) AND NOT (mask k)) = push_bit k (drop_bit k x)"
  by (rule bit_word_eqI) (auto simp: bit_simps)

lemma unat_and_not_mask: "unat ((x :: usize) AND NOT (mask k)) = unat x div 2 ^ k * 2 ^ k"
proof -
  have "unat x div 2 ^ k * 2 ^ k \<le> unat x" by (rule div_times_less_eq_dividend)
  also have "\<dots> < 2 ^ 64" using unsigned_less [of x, where ?'a = nat] by simp
  finally have "take_bit 64 (unat x div 2 ^ k * 2 ^ k) = unat x div 2 ^ k * 2 ^ k"
    by (simp add: take_bit_nat_eq_self)
  then show ?thesis
    unfolding and_not_mask unsigned_push_bit_eq unat_drop_bit_eq by (simp add: push_bit_eq_mult drop_bit_eq_div)
qed

lemma unat_Align:
  assumes "unat n + 2 ^ k \<le> 2 ^ 64" and "k < 64"
  shows "unat (Align n (2 ^ k)) = (unat n + (2 ^ k - 1)) div 2 ^ k * 2 ^ k"
proof -
  have m: "unat (mask k :: usize) = 2 ^ k - 1"
    using assms(2) uint_mask_eq [of k, where ?'a = 64] nat_mask_eq [of k]
    by (simp add: min_def mask_eq_exp_minus_1 flip: nat_uint_eq)
  have "Align n (2 ^ k) = (n + mask k) AND NOT (mask k)"
    by (simp add: Align_def mask_eq_exp_minus_1 add_diff_eq)
  moreover have "unat (n + mask k) = unat n + (2 ^ k - 1)"
    using assms(1) m unat_word_ariths(1) [of n "mask k"] by simp
  ultimately show ?thesis by (simp only: unat_and_not_mask)
qed

lemmas unat_Align_4 = unat_Align [where k = 2, simplified]
lemmas unat_Align_64 = unat_Align [where k = 6, simplified]
lemmas unat_Align_4096 = unat_Align [where k = 12, simplified]

section \<open>The pickle\<close>

definition kPayloadUnit :: usize where
  "kPayloadUnit = 64"

definition kCapacityReadOnly :: usize where
  "kCapacityReadOnly = -1"

record Pickle =
  header :: "byte list option"
  header_size :: usize
  capacity_after_header :: usize
  write_offset :: usize
  fresh :: "nat \<Rightarrow> byte"

text \<open>\<open>header_->payload_size\<close> is the first field of the block.\<close>

definition hdr_payload_size :: "byte list \<Rightarrow> u32" where
  "hdr_payload_size m = dec_u32 m"

definition payload_size :: "Pickle \<Rightarrow> usize" where
  "payload_size p = (case header p of None \<Rightarrow> 0 | Some m \<Rightarrow> ucast (hdr_payload_size m))"

definition pickle_size :: "Pickle \<Rightarrow> usize option" where
  "pickle_size p = map_option (\<lambda>m. header_size p + ucast (hdr_payload_size m)) (header p)"

text \<open>The bytes from \<open>data()\<close> up to \<open>end_of_payload()\<close>.\<close>

definition pickle_data :: "Pickle \<Rightarrow> byte list" where
  "pickle_data p = (case header p of None \<Rightarrow> []
     | Some m \<Rightarrow> take (unat (header_size p + ucast (hdr_payload_size m))) m)"

definition overwrite :: "nat \<Rightarrow> byte list \<Rightarrow> byte list \<Rightarrow> byte list" where
  "overwrite i bs m = take i m @ bs @ drop (i + length bs) m"

definition realloc :: "(nat \<Rightarrow> byte) \<Rightarrow> byte list option \<Rightarrow> nat \<Rightarrow> byte list" where
  "realloc fr m n = (let old = (case m of None \<Rightarrow> [] | Some bs \<Rightarrow> bs) in take n old @ map fr [length old..<n])"

definition GetTotalAllocatedSize :: "Pickle \<Rightarrow> usize" where
  "GetTotalAllocatedSize p =
     (if capacity_after_header p = kCapacityReadOnly then 0 else header_size p + capacity_after_header p)"

definition Resize :: "usize \<Rightarrow> Pickle \<Rightarrow> Pickle option" where
  "Resize new_capacity p =
     (if capacity_after_header p = kCapacityReadOnly then None
      else (let p1 = p\<lparr>capacity_after_header := Align new_capacity kPayloadUnit\<rparr>
            in Some (p1\<lparr>header := Some (realloc (fresh p1) (header p1) (unat (GetTotalAllocatedSize p1)))\<rparr>)))"

definition set_payload_size :: "u32 \<Rightarrow> Pickle \<Rightarrow> Pickle" where
  "set_payload_size n p = p\<lparr>header := map_option (overwrite 0 (enc_u32 n)) (header p)\<rparr>"

definition new_Pickle_sized :: "(nat \<Rightarrow> byte) \<Rightarrow> usize \<Rightarrow> Pickle option" where
  "new_Pickle_sized fr hsize =
     map_option (set_payload_size 0)
       (Resize kPayloadUnit \<lparr>header = None, header_size = Align hsize 4, capacity_after_header = 0,
                             write_offset = 0, fresh = fr\<rparr>)"

definition new_Pickle :: "(nat \<Rightarrow> byte) \<Rightarrow> Pickle option" where
  "new_Pickle fr =
     map_option (set_payload_size 0)
       (Resize kPayloadUnit \<lparr>header = None, header_size = 4, capacity_after_header = 0,
                             write_offset = 0, fresh = fr\<rparr>)"

text \<open>
  A read-only pickle over the caller's data.  The header size is what the payload size leaves of
  the data, computed in \<open>unsigned int\<close>.
\<close>

definition Pickle_of_data :: "byte list \<Rightarrow> Pickle" where
  "Pickle_of_data d =
     (let data_len = (word_of_nat (length d) :: u32);
          hs1 = (if 4 \<le> sint data_len then ucast (data_len - hdr_payload_size d) else 0 :: usize);
          hs2 = (if ucast data_len < hs1 then 0 else hs1);
          hs3 = (if hs2 \<noteq> Align hs2 4 then 0 else hs2)
      in \<lparr>header = (if hs3 = 0 then None else Some d), header_size = hs3,
          capacity_after_header = kCapacityReadOnly, write_offset = 0, fresh = (\<lambda>_. 0)\<rparr>)"

definition copy_Pickle :: "(nat \<Rightarrow> byte) \<Rightarrow> Pickle \<Rightarrow> Pickle option" where
  "copy_Pickle fr other =
     (case header other of
        None \<Rightarrow> None
      | Some m \<Rightarrow>
          (case Resize (ucast (hdr_payload_size m))
                  \<lparr>header = None, header_size = header_size other, capacity_after_header = 0,
                   write_offset = write_offset other, fresh = fr\<rparr> of
             None \<Rightarrow> None
           | Some p \<Rightarrow> Some (p\<lparr>header := map_option
               (overwrite 0 (take (unat (header_size p + ucast (hdr_payload_size m))) m)) (header p)\<rparr>)))"

definition assign_Pickle :: "bool \<Rightarrow> Pickle \<Rightarrow> Pickle \<Rightarrow> Pickle option" where
  "assign_Pickle same other p =
     (if same then Some p else case header other of
        None \<Rightarrow> None
      | Some m \<Rightarrow>
          (let p1 = (if capacity_after_header p = kCapacityReadOnly
                     then p\<lparr>header := None, capacity_after_header := 0\<rparr> else p);
               p2 = (if header_size p1 \<noteq> header_size other
                     then p1\<lparr>header := None, header_size := header_size other\<rparr> else p1) in
           case Resize (ucast (hdr_payload_size m)) p2 of
             None \<Rightarrow> None
           | Some p3 \<Rightarrow> Some (p3\<lparr>header := map_option
               (overwrite 0 (take (unat (header_size other + ucast (hdr_payload_size m))) m)) (header p3),
               write_offset := write_offset other\<rparr>)))"

section \<open>Writing\<close>

definition ClaimUninitializedBytesInternal :: "usize \<Rightarrow> Pickle \<Rightarrow> (nat \<times> Pickle) option" where
  "ClaimUninitializedBytesInternal len p =
     (if capacity_after_header p = kCapacityReadOnly then None
      else
       (let data_len = Align len 4;
            new_size = write_offset p + data_len;
            grown = (if capacity_after_header p < new_size
                     then (let doubled = capacity_after_header p * 2;
                               new_capacity = (if 4096 < doubled then Align doubled 4096 - kPayloadUnit else doubled)
                           in Resize (max new_capacity new_size) p)
                     else Some p) in
        case grown of
          None \<Rightarrow> None
        | Some p1 \<Rightarrow>
            (let write = unat (header_size p1) + unat (write_offset p1);
                 p2 = p1\<lparr>header := map_option
                        (overwrite (write + unat len) (replicate (unat (data_len - len)) 0)) (header p1)\<rparr>;
                 p3 = set_payload_size (ucast new_size) p2
             in Some (write, p3\<lparr>write_offset := new_size\<rparr>))))"

definition ClaimBytes :: "usize \<Rightarrow> Pickle \<Rightarrow> (nat \<times> Pickle) option" where
  "ClaimBytes num_bytes p =
     map_option (\<lambda>(w, p1). (w, p1\<lparr>header := map_option (overwrite w (replicate (unat num_bytes) 0)) (header p1)\<rparr>))
       (ClaimUninitializedBytesInternal num_bytes p)"

definition WriteBytesCommon :: "byte list \<Rightarrow> usize \<Rightarrow> Pickle \<Rightarrow> Pickle option" where
  "WriteBytesCommon d len p =
     (if length d < unat len then None
      else map_option (\<lambda>(w, p1). p1\<lparr>header := map_option (overwrite w (take (unat len) d)) (header p1)\<rparr>)
             (ClaimUninitializedBytesInternal len p))"

definition WriteBytes :: "byte list \<Rightarrow> u32 \<Rightarrow> Pickle \<Rightarrow> Pickle option" where
  "WriteBytes d len p = WriteBytesCommon d (scast len) p"

definition WritePOD :: "byte list \<Rightarrow> Pickle \<Rightarrow> Pickle option" where
  "WritePOD d p = WriteBytesCommon d (word_of_nat (length d)) p"

definition enc_u16 :: "16 word \<Rightarrow> byte list" where
  "enc_u16 w = le_enc 2 (unat w)"

definition dec_u16 :: "byte list \<Rightarrow> 16 word" where
  "dec_u16 bs = word_of_nat (le_dec (take 2 bs))"

definition WriteInt :: "u32 \<Rightarrow> Pickle \<Rightarrow> Pickle option" where
  "WriteInt v p = WritePOD (enc_u32 v) p"

definition WriteBool :: "bool \<Rightarrow> Pickle \<Rightarrow> Pickle option" where
  "WriteBool v p = WriteInt (if v then 1 else 0) p"

definition WriteLong :: "u64 \<Rightarrow> Pickle \<Rightarrow> Pickle option" where
  "WriteLong v p = WritePOD (enc_u64 v) p"

definition WriteUInt16 :: "16 word \<Rightarrow> Pickle \<Rightarrow> Pickle option" where
  "WriteUInt16 v p = WritePOD (enc_u16 v) p"

definition WriteUInt32 :: "u32 \<Rightarrow> Pickle \<Rightarrow> Pickle option" where
  "WriteUInt32 v p = WritePOD (enc_u32 v) p"

definition WriteInt64 :: "u64 \<Rightarrow> Pickle \<Rightarrow> Pickle option" where
  "WriteInt64 v p = WritePOD (enc_u64 v) p"

definition WriteUInt64 :: "u64 \<Rightarrow> Pickle \<Rightarrow> Pickle option" where
  "WriteUInt64 v p = WritePOD (enc_u64 v) p"

definition WriteFloat :: "u32 \<Rightarrow> Pickle \<Rightarrow> Pickle option" where
  "WriteFloat v p = WritePOD (enc_u32 v) p"

definition WriteDouble :: "u64 \<Rightarrow> Pickle \<Rightarrow> Pickle option" where
  "WriteDouble v p = WritePOD (enc_u64 v) p"

definition WriteString :: "byte list \<Rightarrow> Pickle \<Rightarrow> Pickle option" where
  "WriteString v p =
     Option.bind (WriteInt (word_of_nat (length v)) p) (WriteBytes v (word_of_nat (length v)))"

definition WriteString16 :: "16 word list \<Rightarrow> Pickle \<Rightarrow> Pickle option" where
  "WriteString16 v p =
     Option.bind (WriteInt (word_of_nat (length v)) p)
       (WriteBytes (concat (map enc_u16 v)) (ucast (scast (word_of_nat (length v) :: u32) * (2 :: usize))))"

definition WriteData :: "byte list \<Rightarrow> u32 \<Rightarrow> Pickle \<Rightarrow> Pickle option" where
  "WriteData d len p = Option.bind (WriteInt len p) (WriteBytes d len)"

definition Reserve :: "usize \<Rightarrow> Pickle \<Rightarrow> Pickle option" where
  "Reserve len p =
     (let data_len = Align len 4; new_size = write_offset p + data_len in
      if capacity_after_header p < new_size then Resize (capacity_after_header p * 2 + new_size) p else Some p)"

section \<open>Reading\<close>

record PickleIterator =
  payload :: "byte list"
  read_index :: usize
  end_index :: usize

definition new_PickleIterator :: "Pickle \<Rightarrow> PickleIterator" where
  "new_PickleIterator p =
     \<lparr>payload = (case header p of None \<Rightarrow> [] | Some m \<Rightarrow> drop (unat (header_size p)) m),
      read_index = 0, end_index = payload_size p\<rparr>"

definition Advance :: "usize \<Rightarrow> PickleIterator \<Rightarrow> PickleIterator" where
  "Advance n it =
     (let aligned_size = Align n 4 in
      if end_index it - read_index it < aligned_size then it\<lparr>read_index := end_index it\<rparr>
      else it\<lparr>read_index := read_index it + aligned_size\<rparr>)"

text \<open>The three overloads: by the size of a type, by a number of bytes, and by a number of elements.\<close>

definition GetReadPointer_type :: "usize \<Rightarrow> PickleIterator \<Rightarrow> usize option \<times> PickleIterator" where
  "GetReadPointer_type n it =
     (if end_index it - read_index it < n then (None, it\<lparr>read_index := end_index it\<rparr>)
      else (Some (read_index it), Advance n it))"

definition GetReadPointer_bytes :: "u32 \<Rightarrow> PickleIterator \<Rightarrow> usize option \<times> PickleIterator" where
  "GetReadPointer_bytes n it =
     (if sint n < 0 \<or> end_index it - read_index it < scast n then (None, it\<lparr>read_index := end_index it\<rparr>)
      else (Some (read_index it), Advance (scast n) it))"

definition GetReadPointer_elems :: "u32 \<Rightarrow> usize \<Rightarrow> PickleIterator \<Rightarrow> usize option \<times> PickleIterator" where
  "GetReadPointer_elems n elem it =
     (let prod = sint n * uint elem in
      if prod < 0 \<or> 2 ^ 31 \<le> prod then (None, it) else GetReadPointer_bytes (word_of_int prod) it)"

definition bytes_at :: "usize \<Rightarrow> nat \<Rightarrow> PickleIterator \<Rightarrow> byte list" where
  "bytes_at pos n it = take n (drop (unat pos) (payload it))"

definition ReadBuiltinType :: "nat \<Rightarrow> (byte list \<Rightarrow> 'a) \<Rightarrow> PickleIterator \<Rightarrow> 'a option \<times> PickleIterator" where
  "ReadBuiltinType n dec it =
     (case GetReadPointer_type (word_of_nat n) it of
        (None, it') \<Rightarrow> (None, it')
      | (Some pos, it') \<Rightarrow> (Some (dec (bytes_at pos n it)), it'))"

definition ReadBool :: "PickleIterator \<Rightarrow> bool option \<times> PickleIterator" where
  "ReadBool it = ReadBuiltinType 1 (\<lambda>bs. hd bs \<noteq> 0) it"

definition ReadInt :: "PickleIterator \<Rightarrow> u32 option \<times> PickleIterator" where
  "ReadInt it = ReadBuiltinType 4 dec_u32 it"

definition ReadLong :: "PickleIterator \<Rightarrow> u64 option \<times> PickleIterator" where
  "ReadLong it = ReadBuiltinType 8 dec_u64 it"

definition ReadUInt16 :: "PickleIterator \<Rightarrow> 16 word option \<times> PickleIterator" where
  "ReadUInt16 it = ReadBuiltinType 2 dec_u16 it"

definition ReadUInt32 :: "PickleIterator \<Rightarrow> u32 option \<times> PickleIterator" where
  "ReadUInt32 it = ReadBuiltinType 4 dec_u32 it"

definition ReadInt64 :: "PickleIterator \<Rightarrow> u64 option \<times> PickleIterator" where
  "ReadInt64 it = ReadBuiltinType 8 dec_u64 it"

definition ReadUInt64 :: "PickleIterator \<Rightarrow> u64 option \<times> PickleIterator" where
  "ReadUInt64 it = ReadBuiltinType 8 dec_u64 it"

definition ReadFloat :: "PickleIterator \<Rightarrow> u32 option \<times> PickleIterator" where
  "ReadFloat it =
     (case GetReadPointer_type 4 it of
        (None, it') \<Rightarrow> (None, it')
      | (Some pos, it') \<Rightarrow> (Some (dec_u32 (bytes_at pos 4 it)), it'))"

definition ReadDouble :: "PickleIterator \<Rightarrow> u64 option \<times> PickleIterator" where
  "ReadDouble it =
     (case GetReadPointer_type 8 it of
        (None, it') \<Rightarrow> (None, it')
      | (Some pos, it') \<Rightarrow> (Some (dec_u64 (bytes_at pos 8 it)), it'))"

definition ReadBytes :: "u32 \<Rightarrow> PickleIterator \<Rightarrow> byte list option \<times> PickleIterator" where
  "ReadBytes len it =
     (case GetReadPointer_bytes len it of
        (None, it') \<Rightarrow> (None, it')
      | (Some pos, it') \<Rightarrow> (Some (bytes_at pos (nat (sint len)) it), it'))"

definition ReadString :: "PickleIterator \<Rightarrow> byte list option \<times> PickleIterator" where
  "ReadString it =
     (case ReadInt it of
        (None, it1) \<Rightarrow> (None, it1)
      | (Some len, it1) \<Rightarrow>
          (case GetReadPointer_bytes len it1 of
             (None, it2) \<Rightarrow> (None, it2)
           | (Some pos, it2) \<Rightarrow> (Some (bytes_at pos (nat (sint len)) it1), it2)))"

definition ReadStringPiece :: "PickleIterator \<Rightarrow> byte list option \<times> PickleIterator" where
  "ReadStringPiece it =
     (case ReadInt it of
        (None, it1) \<Rightarrow> (None, it1)
      | (Some len, it1) \<Rightarrow>
          (case GetReadPointer_bytes len it1 of
             (None, it2) \<Rightarrow> (None, it2)
           | (Some pos, it2) \<Rightarrow> (Some (bytes_at pos (nat (sint len)) it1), it2)))"

definition ReadString16 :: "PickleIterator \<Rightarrow> 16 word list option \<times> PickleIterator" where
  "ReadString16 it =
     (case ReadInt it of
        (None, it1) \<Rightarrow> (None, it1)
      | (Some len, it1) \<Rightarrow>
          (case GetReadPointer_elems len 2 it1 of
             (None, it2) \<Rightarrow> (None, it2)
           | (Some pos, it2) \<Rightarrow>
               (Some (read_array 2 dec_u16 (nat (sint len)) (bytes_at pos (2 * nat (sint len)) it1)), it2)))"

definition ReadStringPiece16 :: "PickleIterator \<Rightarrow> 16 word list option \<times> PickleIterator" where
  "ReadStringPiece16 it =
     (case ReadInt it of
        (None, it1) \<Rightarrow> (None, it1)
      | (Some len, it1) \<Rightarrow>
          (case GetReadPointer_elems len 2 it1 of
             (None, it2) \<Rightarrow> (None, it2)
           | (Some pos, it2) \<Rightarrow>
               (Some (read_array 2 dec_u16 (nat (sint len)) (bytes_at pos (2 * nat (sint len)) it1)), it2)))"

definition ReadData :: "PickleIterator \<Rightarrow> byte list option \<times> PickleIterator" where
  "ReadData it =
     (case ReadInt it of
        (None, it1) \<Rightarrow> (None, it1)
      | (Some len, it1) \<Rightarrow> ReadBytes len it1)"

definition ReadLength :: "PickleIterator \<Rightarrow> u32 option \<times> PickleIterator" where
  "ReadLength it =
     (case ReadInt it of
        (None, it1) \<Rightarrow> (None, it1)
      | (Some len, it1) \<Rightarrow> (if 0 \<le> sint len then Some len else None, it1))"

definition SkipBytes :: "u32 \<Rightarrow> PickleIterator \<Rightarrow> bool \<times> PickleIterator" where
  "SkipBytes n it = (case GetReadPointer_bytes n it of (pos, it') \<Rightarrow> (pos \<noteq> None, it'))"

section \<open>Finding a pickle in a stream\<close>

definition PeekNext :: "usize \<Rightarrow> byte list \<Rightarrow> usize option" where
  "PeekNext hsize rng =
     (let len = (word_of_nat (length rng) :: usize) in
      if len < 4 then None
      else if len < hsize then None
      else Some (if 2 ^ 64 \<le> unat hsize + unat (hdr_payload_size rng) then -1
                 else hsize + ucast (hdr_payload_size rng)))"

definition FindNext :: "usize \<Rightarrow> byte list \<Rightarrow> usize option" where
  "FindNext hsize rng =
     (case PeekNext hsize rng of
        None \<Rightarrow> None
      | Some n \<Rightarrow> if word_of_nat (length rng) < n then None else Some n)"

section \<open>The layout of a writable pickle\<close>

definition up4 :: "nat \<Rightarrow> nat" where
  "up4 n = (n + 3) div 4 * 4"

lemma up4_bounds: "n \<le> up4 n" "up4 n \<le> n + 3" "up4 n mod 4 = 0"
  unfolding up4_def by presburger+

lemma up4_id: "n mod 4 = 0 \<Longrightarrow> up4 n = n"
  unfolding up4_def by presburger

lemma unat_Align_up4: "unat n + 4 \<le> 2 ^ 64 \<Longrightarrow> unat (Align n 4) = up4 (unat n)"
  using unat_Align_4 [of n] by (simp add: up4_def)

lemma overwrite_split:
  "i = length xs \<Longrightarrow> length bs = length ys \<Longrightarrow> overwrite i bs (xs @ ys @ zs) = xs @ bs @ zs"
  by (simp add: overwrite_def)

lemma split_twice: "i \<le> j \<Longrightarrow> take i xs @ take (j - i) (drop i xs) @ drop j xs = xs"
  by (metis append_assoc append_take_drop_id le_add_diff_inverse take_add)

text \<open>
  A writable pickle whose extra header bytes are \<open>ext\<close> and whose payload is \<open>body\<close>: the block
  is the payload size, \<open>ext\<close>, the payload and the spare capacity, and every size the class
  keeps agrees with it.
\<close>

definition layout :: "Pickle \<Rightarrow> byte list \<Rightarrow> byte list \<Rightarrow> byte list \<Rightarrow> bool" where
  "layout p ext body spare \<longleftrightarrow>
     header p = Some (enc_u32 (word_of_nat (length body)) @ ext @ body @ spare) \<and>
     unat (header_size p) = 4 + length ext \<and> length ext \<le> 60 \<and> length ext mod 4 = 0 \<and>
     unat (write_offset p) = length body \<and> length body < 2 ^ 32 \<and> length body mod 4 = 0 \<and>
     unat (capacity_after_header p) = length body + length spare \<and>
     unat (capacity_after_header p) \<le> 2 ^ 35 \<and> unat (capacity_after_header p) mod 64 = 0"

definition holds :: "Pickle \<Rightarrow> byte list \<Rightarrow> byte list \<Rightarrow> bool" where
  "holds p ext body \<longleftrightarrow> (\<exists>spare. layout p ext body spare)"

lemma unat_readonly: "unat kCapacityReadOnly = 2 ^ 64 - 1"
  by (simp add: kCapacityReadOnly_def unsigned_minus_1_eq_mask mask_eq_exp_minus_1)

lemma layout_not_readonly: "layout p ext body spare \<Longrightarrow> capacity_after_header p \<noteq> kCapacityReadOnly"
  using unat_readonly by (auto simp: layout_def)

lemma layout_Resize:
  assumes l: "layout p ext body spare" and c: "length body \<le> unat c" "unat c \<le> 2 ^ 35 - 64"
  shows "\<exists>p' spare'. Resize c p = Some p' \<and> layout p' ext body spare' \<and> unat c \<le> length body + length spare' \<and>
           header_size p' = header_size p \<and> write_offset p' = write_offset p"
proof -
  let ?c = "Align c kPayloadUnit"
  let ?n = "unat (header_size p + ?c)"
  let ?p' = "p\<lparr>capacity_after_header := ?c, header := Some (realloc (fresh p) (header p) ?n)\<rparr>"
  let ?pre = "enc_u32 (word_of_nat (length body)) @ ext @ body"
  define sp where "sp = take (?n - length ?pre) spare @ map (fresh p) [length ?pre + length spare..<?n]"
  have c64: "unat ?c = (unat c + 63) div 64 * 64"
    using unat_Align_64 [of c] c(2) by (simp add: kPayloadUnit_def)
  then have cb: "unat c \<le> unat ?c" "unat ?c \<le> 2 ^ 35" "unat ?c mod 64 = 0" using c(2) by auto
  have n: "?n = 4 + length ext + unat ?c"
    using l cb unat_word_ariths(1) [of "header_size p" ?c] by (simp add: layout_def)
  have pre: "length ?pre = 4 + length ext + length body" by simp
  have "realloc (fresh p) (header p) ?n = ?pre @ sp"
    using l n cb(1) c(1) by (simp add: layout_def realloc_def sp_def add.assoc)
  moreover have len: "length sp = unat ?c - length body"
    using n c(1) cb(1) by (simp add: sp_def pre min_def)
  ultimately have "layout ?p' ext body sp"
    using l cb c(1) by (simp add: layout_def)
  moreover have "Resize c p = Some ?p'"
  proof -
    have "?c \<noteq> kCapacityReadOnly" using cb(2) unat_readonly by auto
    then show ?thesis
      using layout_not_readonly [OF l] by (simp add: Resize_def GetTotalAllocatedSize_def Let_def)
  qed
  moreover have "unat c \<le> length body + length sp" using len cb(1) c(1) by simp
  ultimately show ?thesis by (intro exI [of _ sp] exI [of _ ?p'] conjI) auto
qed

text \<open>A claim of \<open>len\<close> bytes: room is made, the padding is zeroed, the bytes themselves are not.\<close>

lemma layout_grow:
  assumes l: "layout p ext body spare" and n: "unat new_size < 2 ^ 32" "length body \<le> unat new_size"
    and g: "grown = (if capacity_after_header p < new_size
         then (let doubled = capacity_after_header p * 2;
                   new_capacity = (if 4096 < doubled then Align doubled 4096 - kPayloadUnit else doubled)
               in Resize (max new_capacity new_size) p)
         else Some p)"
  shows "\<exists>p' spare'. grown = Some p' \<and> layout p' ext body spare' \<and> unat new_size \<le> length body + length spare' \<and>
           header_size p' = header_size p \<and> write_offset p' = write_offset p"
proof (cases "capacity_after_header p < new_size")
  case False
  then have "unat new_size \<le> length body + length spare"
    using l by (simp add: layout_def word_le_nat_alt not_less)
  then show ?thesis using l g False by auto
next
  case True
  let ?d = "capacity_after_header p * 2"
  let ?c = "if 4096 < ?d then Align ?d 4096 - kPayloadUnit else ?d"
  have "unat ?d = 2 * unat (capacity_after_header p)"
    using True n(1) unat_word_ariths(2) [of "capacity_after_header p" 2] by (simp add: word_less_nat_alt)
  then have d: "unat ?d < 2 ^ 33" using True n(1) by (simp add: word_less_nat_alt)
  then have A: "unat (Align ?d 4096) = (unat ?d + 4095) div 4096 * 4096" using unat_Align_4096 [of ?d] by simp
  have "unat ?c \<le> 2 ^ 33 + 4096"
  proof (cases "4096 < ?d")
    case True
    then have "4096 \<le> unat (Align ?d 4096)" "unat (Align ?d 4096) \<le> 2 ^ 33 + 4096"
      unfolding A using d by (auto simp: word_less_nat_alt)
    then show ?thesis using True by (simp add: kPayloadUnit_def unat_sub word_le_nat_alt)
  qed (use d in simp)
  then have "unat (max ?c new_size) \<le> 2 ^ 35 - 64" "unat new_size \<le> unat (max ?c new_size)"
    using n(1) by (auto simp: max_def word_le_nat_alt)
  then show ?thesis
    using layout_Resize [OF l, of "max ?c new_size"] True g n(2) unfolding Let_def by fastforce
qed

lemma layout_claim:
  assumes l: "layout p ext body spare" and n: "length body + up4 (unat len) < 2 ^ 32"
  shows "\<exists>p' raw spare'. ClaimUninitializedBytesInternal len p = Some (4 + length ext + length body, p') \<and>
           length raw = unat len \<and>
           layout p' ext (body @ raw @ replicate (up4 (unat len) - unat len) 0) spare'"
proof -
  let ?a = "up4 (unat len)" and ?new = "write_offset p + Align len 4"
  have a: "unat (Align len 4) = ?a" using n up4_bounds(1) [of "unat len"] by (intro unat_Align_up4) simp
  then have pad: "unat (Align len 4 - len) = ?a - unat len"
    using up4_bounds(1) [of "unat len"] by (simp add: unat_sub word_le_nat_alt)
  have new: "unat ?new = length body + ?a"
    using l n a unat_word_ariths(1) [of "write_offset p" "Align len 4"] by (simp add: layout_def)
  define grown where "grown = (if capacity_after_header p < ?new
         then (let doubled = capacity_after_header p * 2;
                   new_capacity = (if 4096 < doubled then Align doubled 4096 - kPayloadUnit else doubled)
               in Resize (max new_capacity ?new) p)
         else Some p)"
  obtain p1 s1 where g: "grown = Some p1" and l1: "layout p1 ext body s1"
    and room: "length body + ?a \<le> length body + length s1"
    using layout_grow [OF l _ _ grown_def] n new by auto
  let ?z = "replicate (?a - unat len) (0 :: byte)"
  define raw rest where "raw = take (unat len) s1" and "rest = drop ?a s1"
  have raw: "length raw = unat len" and s1: "s1 = raw @ take (?a - unat len) (drop (unat len) s1) @ rest"
    using room up4_bounds(1) [of "unat len"] by (simp_all only: raw_def rest_def split_twice length_take)
  have body': "length (body @ raw @ ?z) = unat ?new" using raw new up4_bounds(1) [of "unat len"] by simp
  have small: "(ucast ?new :: u32) = word_of_nat (length body + ?a)"
    unfolding new [symmetric] by simp
  let ?m0 = "enc_u32 (word_of_nat (length body)) @ ext @ body @ raw"
  have h1: "header p1 = Some (?m0 @ take (?a - unat len) (drop (unat len) s1) @ rest)"
    using l1 s1 by (simp add: layout_def)
  have w: "unat (header_size p1) + unat (write_offset p1) = 4 + length ext + length body"
    using l1 by (simp add: layout_def)
  have h2: "map_option (overwrite (4 + length ext + length body + unat len) ?z) (header p1)
      = Some (?m0 @ ?z @ rest)"
    unfolding h1 option.map
    by (subst overwrite_split) (use room raw up4_bounds(1) [of "unat len"] in auto)
  have h3: "overwrite 0 (enc_u32 (ucast ?new)) (?m0 @ ?z @ rest) = enc_u32 (ucast ?new) @ ext @ (body @ raw @ ?z) @ rest"
    by (simp add: overwrite_def)
  have m4: "(length body + ?a) mod 4 = 0" using l up4_bounds(3) [of "unat len"] by (auto simp: layout_def)
  let ?p' = "p1\<lparr>header := Some (enc_u32 (ucast ?new) @ ext @ (body @ raw @ ?z) @ rest), write_offset := ?new\<rparr>"
  have "layout ?p' ext (body @ raw @ ?z) rest"
    using l1 n room m4 small new unfolding layout_def body' by (auto simp: rest_def)
  moreover have "ClaimUninitializedBytesInternal len p = Some (4 + length ext + length body, ?p')"
    using layout_not_readonly [OF l]
    unfolding ClaimUninitializedBytesInternal_def Let_def [of "Align len 4"] Let_def [of ?new]
      grown_def [symmetric] g by (simp add: set_payload_size_def pad w h2 h3 Let_def del: append_assoc)
  ultimately show ?thesis using raw by blast
qed

lemma holds_WriteBytesCommon:
  assumes "holds p ext body" and "unat len \<le> length d" and "length body + up4 (unat len) < 2 ^ 32"
  shows "\<exists>p'. WriteBytesCommon d len p = Some p' \<and>
           holds p' ext (body @ take (unat len) d @ replicate (up4 (unat len) - unat len) 0)"
proof -
  let ?z = "replicate (up4 (unat len) - unat len) (0 :: byte)"
  obtain p1 raw s where c: "ClaimUninitializedBytesInternal len p = Some (4 + length ext + length body, p1)"
    and raw: "length raw = unat len" and l: "layout p1 ext (body @ raw @ ?z) s"
    using assms(1,3) layout_claim unfolding holds_def by blast
  let ?h = "enc_u32 (word_of_nat (length (body @ raw @ ?z))) @ ext @ body"
  have "overwrite (4 + length ext + length body) (take (unat len) d) (?h @ raw @ ?z @ s)
      = ?h @ take (unat len) d @ ?z @ s"
    using assms(2) raw by (intro overwrite_split) auto
  then have "layout (p1\<lparr>header := map_option (overwrite (4 + length ext + length body) (take (unat len) d)) (header p1)\<rparr>)
      ext (body @ take (unat len) d @ ?z) s"
    using l raw assms(2) unfolding layout_def by auto
  then show ?thesis using c assms(2) by (auto simp: WriteBytesCommon_def holds_def)
qed

lemma holds_ClaimBytes:
  assumes "holds p ext body" and "length body + up4 (unat n) < 2 ^ 32"
  shows "\<exists>p'. ClaimBytes n p = Some (4 + length ext + length body, p') \<and>
           holds p' ext (body @ replicate (up4 (unat n)) 0)"
proof -
  let ?z = "replicate (up4 (unat n) - unat n) (0 :: byte)"
  obtain p1 raw s where c: "ClaimUninitializedBytesInternal n p = Some (4 + length ext + length body, p1)"
    and raw: "length raw = unat n" and l: "layout p1 ext (body @ raw @ ?z) s"
    using assms layout_claim unfolding holds_def by blast
  have z: "replicate (up4 (unat n)) (0 :: byte) = replicate (unat n) 0 @ ?z"
    using up4_bounds(1) [of "unat n"] by (simp flip: replicate_add)
  let ?h = "enc_u32 (word_of_nat (length (body @ raw @ ?z))) @ ext @ body"
  have "overwrite (4 + length ext + length body) (replicate (unat n) 0) (?h @ raw @ ?z @ s)
      = ?h @ replicate (unat n) 0 @ ?z @ s"
    using raw by (intro overwrite_split) auto
  then have "layout (p1\<lparr>header := map_option (overwrite (4 + length ext + length body) (replicate (unat n) 0)) (header p1)\<rparr>)
      ext (body @ replicate (unat n) 0 @ ?z) s"
    using l raw unfolding layout_def by auto
  then show ?thesis using c by (auto simp: ClaimBytes_def holds_def z)
qed

lemma holds_Reserve:
  assumes h: "holds p ext body" and n: "length body + up4 (unat len) < 2 ^ 32"
  shows "\<exists>p'. Reserve len p = Some p' \<and> holds p' ext body \<and>
           unat (write_offset p') + up4 (unat len) \<le> unat (capacity_after_header p')"
proof -
  let ?new = "write_offset p + Align len 4"
  obtain s where l: "layout p ext body s" using h by (auto simp: holds_def)
  have "unat (Align len 4) = up4 (unat len)"
    using n up4_bounds(1) [of "unat len"] by (intro unat_Align_up4) simp
  then have new: "unat ?new = length body + up4 (unat len)"
    using l n unat_word_ariths(1) [of "write_offset p" "Align len 4"] by (simp add: layout_def)
  show ?thesis
  proof (cases "capacity_after_header p < ?new")
    case True
    let ?c = "capacity_after_header p * 2 + ?new"
    have "unat (capacity_after_header p) < 2 ^ 32" using True new n by (simp add: word_less_nat_alt)
    then have "unat ?c = 2 * unat (capacity_after_header p) + unat ?new"
      using new n by (simp add: unat_word_ariths)
    then have "length body \<le> unat ?c" "unat ?c \<le> 2 ^ 35 - 64" "unat ?new \<le> unat ?c"
      using new n \<open>unat (capacity_after_header p) < 2 ^ 32\<close> by auto
    then obtain p' s' where "Resize ?c p = Some p'" "layout p' ext body s'" "unat ?c \<le> length body + length s'"
      "write_offset p' = write_offset p"
      using layout_Resize [OF l] by blast
    then show ?thesis
      using True new \<open>unat ?new \<le> unat ?c\<close> by (auto simp: Reserve_def holds_def layout_def)
  next
    case False
    then have "Reserve len p = Some p" by (simp add: Reserve_def Let_def)
    moreover have "unat (write_offset p) + up4 (unat len) \<le> unat (capacity_after_header p)"
      using False l new by (simp add: layout_def word_le_nat_alt not_less)
    ultimately show ?thesis using h by blast
  qed
qed

lemma holds_new_block:
  assumes "unat hs mod 4 = 0" and "4 \<le> unat hs" and "unat hs \<le> 64"
    and "Resize kPayloadUnit \<lparr>header = None, header_size = hs, capacity_after_header = 0,
                             write_offset = 0, fresh = fr\<rparr> = q"
  shows "\<exists>p ext. map_option (set_payload_size 0) q = Some p \<and> holds p ext [] \<and>
           length ext = unat hs - 4 \<and> header_size p = hs"
proof -
  have al: "Align kPayloadUnit kPayloadUnit = 64" by (simp add: Align_def kPayloadUnit_def)
  have n: "unat (hs + 64) = unat hs + 64" using assms(3) unat_word_ariths(1) [of hs 64] by simp
  have ro: "kCapacityReadOnly \<noteq> 0" "kCapacityReadOnly \<noteq> 64" by (simp_all add: kCapacityReadOnly_def)
  have "[0..<unat hs + 64] = [0..<4] @ [4..<unat hs] @ [unat hs..<unat hs + 64]"
    using assms(2) upt_add_eq_append [of 0 4 "unat hs + 60"] upt_add_eq_append [of 4 "unat hs" 64] by (simp add: add.commute)
  then have "overwrite 0 (enc_u32 0) (map fr [0..<unat hs + 64]) =
      enc_u32 0 @ map fr [4..<unat hs] @ map fr [unat hs..<unat hs + 64]"
    using overwrite_split [of 0 "[]" "enc_u32 0" "map fr [0..<4]"] by simp
  then have "layout \<lparr>header = Some (overwrite 0 (enc_u32 0) (map fr [0..<unat hs + 64])), header_size = hs,
      capacity_after_header = 64, write_offset = 0, fresh = fr\<rparr> (map fr [4..<unat hs]) [] (map fr [unat hs..<unat hs + 64])"
    using assms(1-3) by (auto simp: layout_def)
  moreover have "q = Some \<lparr>header = Some (map fr [0..<unat hs + 64]), header_size = hs,
      capacity_after_header = 64, write_offset = 0, fresh = fr\<rparr>"
    using assms(4) ro by (simp add: Resize_def al GetTotalAllocatedSize_def realloc_def n eq_commute [of _ kCapacityReadOnly])
  ultimately show ?thesis by (auto simp: set_payload_size_def holds_def)
qed

lemma holds_new_Pickle: "\<exists>p. new_Pickle fr = Some p \<and> holds p [] [] \<and> header_size p = 4"
  using holds_new_block [of 4 fr, OF _ _ _ refl] by (auto simp: new_Pickle_def)

lemma holds_new_Pickle_sized:
  assumes "4 \<le> unat hs" and "unat hs \<le> 64"
  shows "\<exists>p ext. new_Pickle_sized fr hs = Some p \<and> holds p ext [] \<and> length ext = up4 (unat hs) - 4"
proof -
  have a: "unat (Align hs 4) = up4 (unat hs)" using assms(2) by (intro unat_Align_up4) simp
  have "up4 (unat hs) mod 4 = 0" "4 \<le> up4 (unat hs)" "up4 (unat hs) \<le> 64"
    using assms by (simp_all add: up4_def)
  then show ?thesis
    using holds_new_block [of "Align hs 4" fr, OF _ _ _ refl] by (auto simp: new_Pickle_sized_def a)
qed

text \<open>A copy holds the same extra header bytes and the same payload, whatever the original's capacity.\<close>

lemma layout_source:
  assumes "layout q ext body s" and "header q = Some m"
  shows "hdr_payload_size m = word_of_nat (length body)" and "unat (ucast (hdr_payload_size m) :: usize) = length body"
    and "take (unat (header_size q + ucast (hdr_payload_size m))) m = enc_u32 (word_of_nat (length body)) @ ext @ body"
proof -
  show h: "hdr_payload_size m = word_of_nat (length body)"
    using assms by (auto simp: layout_def hdr_payload_size_def codec_simps)
  show u: "unat (ucast (hdr_payload_size m) :: usize) = length body"
    using assms(1) unfolding h by (simp add: layout_def unat_of_nat)
  have "unat (header_size q + ucast (hdr_payload_size m)) = 4 + length ext + length body"
    using assms(1) u unat_word_ariths(1) [of "header_size q" "ucast (hdr_payload_size m)"] by (simp add: layout_def)
  then show "take (unat (header_size q + ucast (hdr_payload_size m))) m = enc_u32 (word_of_nat (length body)) @ ext @ body"
    using assms by (simp add: layout_def)
qed

lemma length_realloc [simp]: "length (realloc fr m n) = n"
  by (simp add: realloc_def Let_def)

lemma Resize_block:
  assumes "capacity_after_header p \<noteq> kCapacityReadOnly" and "unat c < 2 ^ 32" and "unat (header_size p) \<le> 64"
  shows "\<exists>blk. Resize c p = Some (p\<lparr>capacity_after_header := Align c kPayloadUnit, header := Some blk\<rparr>) \<and>
           length blk = unat (header_size p) + unat (Align c kPayloadUnit) \<and>
           unat (Align c kPayloadUnit) = (unat c + 63) div 64 * 64"
proof -
  let ?c = "Align c kPayloadUnit"
  have c: "unat ?c = (unat c + 63) div 64 * 64"
    using unat_Align_64 [of c] assms(2) by (simp add: kPayloadUnit_def)
  then have "?c \<noteq> kCapacityReadOnly" using assms(2) unat_readonly by auto
  moreover have "unat (header_size p + ?c) = unat (header_size p) + unat ?c"
    using c assms(2,3) unat_word_ariths(1) [of "header_size p" ?c] by simp
  ultimately show ?thesis
    using assms(1) c
    by (intro exI [of _ "realloc (fresh p) (header p) (unat (header_size p + ?c))"])
      (simp add: Resize_def GetTotalAllocatedSize_def Let_def)
qed

lemma layout_copied:
  assumes l: "layout q ext body s" and hs: "header_size p = header_size q" "write_offset p = write_offset q"
    and blk: "header p = Some blk" "length blk = unat (header_size p) + unat (capacity_after_header p)"
    and cap: "unat (capacity_after_header p) = (length body + 63) div 64 * 64"
  shows "holds (p\<lparr>header := Some (overwrite 0 (enc_u32 (word_of_nat (length body)) @ ext @ body) blk)\<rparr>) ext body"
proof -
  let ?src = "enc_u32 (word_of_nat (length body)) @ ext @ body"
  have "length body \<le> unat (capacity_after_header p)" "unat (capacity_after_header p) mod 64 = 0"
    using cap by auto
  then have "layout (p\<lparr>header := Some (overwrite 0 ?src blk)\<rparr>) ext body (drop (length ?src) blk)"
    using l hs blk cap by (auto simp: layout_def overwrite_def)
  then show ?thesis by (auto simp: holds_def)
qed

lemma holds_copy_Pickle:
  assumes "holds other ext body"
  shows "\<exists>p. copy_Pickle fr other = Some p \<and> holds p ext body"
proof -
  obtain s where l: "layout other ext body s" using assms by (auto simp: holds_def)
  then obtain m where m: "header other = Some m" by (auto simp: layout_def)
  note src = layout_source [OF l m]
  let ?p0 = "\<lparr>header = None, header_size = header_size other, capacity_after_header = 0,
              write_offset = write_offset other, fresh = fr\<rparr>"
  have ro: "0 \<noteq> kCapacityReadOnly" by (simp add: kCapacityReadOnly_def)
  obtain blk where r: "Resize (ucast (hdr_payload_size m)) ?p0 = Some (?p0\<lparr>capacity_after_header :=
      Align (ucast (hdr_payload_size m)) kPayloadUnit, header := Some blk\<rparr>)"
    and blk: "length blk = unat (header_size other) + unat (Align (ucast (hdr_payload_size m)) kPayloadUnit)"
      "unat (Align (ucast (hdr_payload_size m)) kPayloadUnit) = (length body + 63) div 64 * 64"
    using Resize_block [of ?p0 "ucast (hdr_payload_size m)"] l ro src(2) by (auto simp: layout_def)
  show ?thesis
    using layout_copied [OF l _ _ _ _, of "?p0\<lparr>capacity_after_header :=
      Align (ucast (hdr_payload_size m)) kPayloadUnit, header := Some blk\<rparr>" blk] blk r
    by (simp add: copy_Pickle_def m src(3))
qed

lemma header_write_offset_commute:
  "p\<lparr>write_offset := w, header := h\<rparr> = p\<lparr>header := h, write_offset := w\<rparr>"
  by simp

lemma holds_assign_Pickle:
  assumes "holds other ext body"
  shows "\<exists>p'. assign_Pickle False other p = Some p' \<and> holds p' ext body"
proof -
  obtain s where l: "layout other ext body s" using assms by (auto simp: holds_def)
  then obtain m where m: "header other = Some m" by (auto simp: layout_def)
  note src = layout_source [OF l m]
  define p1 where "p1 = (if capacity_after_header p = kCapacityReadOnly
                     then p\<lparr>header := None, capacity_after_header := 0\<rparr> else p)"
  define p2 where "p2 = (if header_size p1 \<noteq> header_size other
                     then p1\<lparr>header := None, header_size := header_size other\<rparr> else p1)"
  have p2: "capacity_after_header p2 \<noteq> kCapacityReadOnly" "header_size p2 = header_size other"
    by (auto simp: p2_def p1_def kCapacityReadOnly_def)
  obtain blk where r: "Resize (ucast (hdr_payload_size m)) p2 = Some (p2\<lparr>capacity_after_header :=
      Align (ucast (hdr_payload_size m)) kPayloadUnit, header := Some blk\<rparr>)"
    and blk: "length blk = unat (header_size other) + unat (Align (ucast (hdr_payload_size m)) kPayloadUnit)"
      "unat (Align (ucast (hdr_payload_size m)) kPayloadUnit) = (length body + 63) div 64 * 64"
    using Resize_block [of p2 "ucast (hdr_payload_size m)"] l p2 src(2) by (auto simp: layout_def)
  show ?thesis
    using layout_copied [OF l _ _ _ _, of "p2\<lparr>capacity_after_header :=
      Align (ucast (hdr_payload_size m)) kPayloadUnit, header := Some blk, write_offset := write_offset other\<rparr>" blk] blk r p2
    by (simp add: assign_Pickle_def m src(3) header_write_offset_commute flip: p1_def p2_def)
qed

section \<open>Fields\<close>

datatype field = FBool bool | FInt u32 | FLong u64 | FUInt16 "16 word" | FUInt32 u32 | FInt64 u64
  | FUInt64 u64 | FFloat u32 | FDouble u64 | FString "byte list" | FString16 "16 word list"
  | FData "byte list" | FBytes "byte list"

primrec write_field :: "field \<Rightarrow> Pickle \<Rightarrow> Pickle option" where
  "write_field (FBool b) p = WriteBool b p"
| "write_field (FInt v) p = WriteInt v p"
| "write_field (FLong v) p = WriteLong v p"
| "write_field (FUInt16 v) p = WriteUInt16 v p"
| "write_field (FUInt32 v) p = WriteUInt32 v p"
| "write_field (FInt64 v) p = WriteInt64 v p"
| "write_field (FUInt64 v) p = WriteUInt64 v p"
| "write_field (FFloat v) p = WriteFloat v p"
| "write_field (FDouble v) p = WriteDouble v p"
| "write_field (FString v) p = WriteString v p"
| "write_field (FString16 v) p = WriteString16 v p"
| "write_field (FData v) p = WriteData v (word_of_nat (length v)) p"
| "write_field (FBytes v) p = WriteBytes v (word_of_nat (length v)) p"

primrec write_fields :: "field list \<Rightarrow> Pickle \<Rightarrow> Pickle option" where
  "write_fields [] p = Some p"
| "write_fields (f # fs) p = Option.bind (write_field f p) (write_fields fs)"

text \<open>The bytes a field takes in the payload.\<close>

definition padded :: "byte list \<Rightarrow> byte list" where
  "padded bs = bs @ replicate (up4 (length bs) - length bs) 0"

primrec field_image :: "field \<Rightarrow> byte list" where
  "field_image (FBool b) = padded (enc_u32 (if b then 1 else 0))"
| "field_image (FInt v) = padded (enc_u32 v)"
| "field_image (FLong v) = padded (enc_u64 v)"
| "field_image (FUInt16 v) = padded (enc_u16 v)"
| "field_image (FUInt32 v) = padded (enc_u32 v)"
| "field_image (FInt64 v) = padded (enc_u64 v)"
| "field_image (FUInt64 v) = padded (enc_u64 v)"
| "field_image (FFloat v) = padded (enc_u32 v)"
| "field_image (FDouble v) = padded (enc_u64 v)"
| "field_image (FString v) = padded (enc_u32 (word_of_nat (length v))) @ padded v"
| "field_image (FString16 v) = padded (enc_u32 (word_of_nat (length v))) @ padded (concat (map enc_u16 v))"
| "field_image (FData v) = padded (enc_u32 (word_of_nat (length v))) @ padded v"
| "field_image (FBytes v) = padded v"

text \<open>A variable-length field fits an \<open>int\<close> length.\<close>

fun field_ok :: "field \<Rightarrow> bool" where
  "field_ok (FString v) = (length v < 2 ^ 31)"
| "field_ok (FString16 v) = (2 * length v < 2 ^ 31)"
| "field_ok (FData v) = (length v < 2 ^ 31)"
| "field_ok (FBytes v) = (length v < 2 ^ 31)"
| "field_ok _ = True"

lemma length_padded [simp]: "length (padded bs) = up4 (length bs)"
  using up4_bounds(1) [of "length bs"] by (simp add: padded_def)

lemma length_enc_u16 [simp]: "length (enc_u16 w) = 2"
  by (simp add: enc_u16_def)

interpretation u16c: codec enc_u16 dec_u16 2
proof
  fix x :: "16 word" and r
  have "unat x < 256 ^ 2" using unsigned_less [of x, where ?'a = nat] by simp
  then show "dec_u16 (enc_u16 x @ r) = x"
    by (simp add: enc_u16_def dec_u16_def le_dec_enc)
qed simp

lemma holds_WritePOD:
  assumes "holds p ext body" and "length d < 2 ^ 32" and "length body + up4 (length d) < 2 ^ 32"
  shows "\<exists>p'. WritePOD d p = Some p' \<and> holds p' ext (body @ padded d)"
proof -
  have "unat (word_of_nat (length d) :: usize) = length d" using assms(2) by (simp add: unat_of_nat)
  then show ?thesis
    using holds_WriteBytesCommon [OF assms(1), of "word_of_nat (length d)" d] assms(3)
    by (simp add: WritePOD_def padded_def)
qed

lemma unat_int_len:
  assumes "n < 2 ^ 31"
  shows "unat (scast (word_of_nat n :: u32) :: usize) = n" and "sint (word_of_nat n :: u32) = int n"
proof -
  show s: "sint (word_of_nat n :: u32) = int n"
    using assms by (simp add: signed_of_nat signed_take_bit_int_eq_self)
  show "unat (scast (word_of_nat n :: u32) :: usize) = n"
    using assms unfolding scast_eq s by (simp add: unat_of_nat)
qed

lemma holds_WriteBytes:
  assumes "holds p ext body" and "length d < 2 ^ 31" and "length body + up4 (length d) < 2 ^ 32"
  shows "\<exists>p'. WriteBytes d (word_of_nat (length d)) p = Some p' \<and> holds p' ext (body @ padded d)"
  using holds_WriteBytesCommon [OF assms(1), of "scast (word_of_nat (length d) :: u32)" d] assms(2,3)
  by (simp add: WriteBytes_def padded_def unat_int_len)

lemmas write_defs = WriteBool_def WriteInt_def WriteLong_def WriteUInt16_def WriteUInt32_def
  WriteInt64_def WriteUInt64_def WriteFloat_def WriteDouble_def

lemma scast_times_2:
  assumes "2 * n < 2 ^ 31"
  shows "(ucast (scast (word_of_nat n :: u32) * (2 :: usize)) :: u32) = word_of_nat (2 * n)"
proof -
  have "scast (word_of_nat n :: u32) = (word_of_nat n :: usize)"
    using assms unat_int_len(2) [of n] by (simp add: scast_eq)
  then show ?thesis
    using assms by (simp add: word_unat_eq_iff unat_ucast_u64_u32 unat_word_ariths unat_of_nat)
qed

lemma holds_length_prefixed:
  assumes "holds p ext body" and "length d < 2 ^ 31" and "length body + 4 + up4 (length d) < 2 ^ 32"
  shows "\<exists>p'. Option.bind (WriteInt k p) (WriteBytes d (word_of_nat (length d))) = Some p' \<and>
           holds p' ext (body @ padded (enc_u32 k) @ padded d)"
proof -
  obtain p1 where "WriteInt k p = Some p1" "holds p1 ext (body @ padded (enc_u32 k))"
    using holds_WritePOD [OF assms(1), of "enc_u32 k"] assms(3) by (auto simp: WriteInt_def up4_def)
  then show ?thesis
    using holds_WriteBytes [of p1 ext "body @ padded (enc_u32 k)" d] assms(2,3) by (auto simp: up4_def)
qed

lemma holds_write_field:
  assumes "holds p ext body" and "field_ok f" and "length body + length (field_image f) < 2 ^ 32"
  shows "\<exists>p'. write_field f p = Some p' \<and> holds p' ext (body @ field_image f)"
proof (cases f)
  case (FString v)
  then show ?thesis
    using holds_length_prefixed [OF assms(1), of v "word_of_nat (length v)"] assms(2,3)
    by (simp add: WriteString_def up4_def)
next
  case (FString16 v)
  then show ?thesis
    using holds_length_prefixed [OF assms(1), of "concat (map enc_u16 v)" "word_of_nat (length v)"]
      scast_times_2 [of "length v"] assms(2,3)
    by (simp add: WriteString16_def u16c.length_concat_enc mult.commute up4_def)
next
  case (FData v)
  then show ?thesis
    using holds_length_prefixed [OF assms(1), of v "word_of_nat (length v)"] assms(2,3)
    by (simp add: WriteData_def up4_def)
qed (use holds_WritePOD [OF assms(1)] holds_WriteBytes [OF assms(1)] assms(2,3) in \<open>simp_all add: write_defs\<close>)

lemma holds_write_fields:
  assumes "holds p ext body" and "list_all field_ok fs"
    and "length body + length (concat (map field_image fs)) < 2 ^ 32"
  shows "\<exists>p'. write_fields fs p = Some p' \<and> holds p' ext (body @ concat (map field_image fs))"
  using assms
proof (induction fs arbitrary: p body)
  case (Cons f fs)
  obtain p1 where "write_field f p = Some p1" "holds p1 ext (body @ field_image f)"
    using holds_write_field [OF Cons.prems(1), of f] Cons.prems(2,3) by auto
  then show ?case using Cons.IH [of p1 "body @ field_image f"] Cons.prems(2,3) by auto
qed simp

section \<open>The iterator\<close>

text \<open>
  What is left to read, and what the iterator promises about it: a request for \<open>n\<close> bytes is
  granted when that many are left, and then moves past them and their padding; otherwise it
  exhausts the iterator.
\<close>

definition rest :: "PickleIterator \<Rightarrow> byte list" where
  "rest it = drop (unat (read_index it)) (take (unat (end_index it)) (payload it))"

definition iter_ok :: "PickleIterator \<Rightarrow> bool" where
  "iter_ok it \<longleftrightarrow> read_index it \<le> end_index it \<and> unat (end_index it) \<le> length (payload it)"

definition request :: "int \<Rightarrow> byte list \<Rightarrow> byte list option \<times> byte list" where
  "request n r = (if n < 0 \<or> int (length r) < n then (None, [])
                  else (Some (take (nat n) r), drop (up4 (nat n)) r))"

lemma length_rest: "iter_ok it \<Longrightarrow> length (rest it) = unat (end_index it - read_index it)"
  by (simp add: iter_ok_def rest_def unat_sub word_le_nat_alt)

lemma left_less: "iter_ok it \<Longrightarrow> end_index it - read_index it < w \<longleftrightarrow> length (rest it) < unat w"
  by (simp add: length_rest word_less_nat_alt)

lemma rest_exhausted [simp]: "rest (it\<lparr>read_index := end_index it\<rparr>) = []"
  by (simp add: rest_def)

lemma iter_ok_exhausted [simp]: "iter_ok it \<Longrightarrow> iter_ok (it\<lparr>read_index := end_index it\<rparr>)"
  by (simp add: iter_ok_def)

lemma Advance_rest:
  assumes ok: "iter_ok it" and n: "unat n + 4 \<le> 2 ^ 64"
  shows "iter_ok (Advance n it)" and "rest (Advance n it) = drop (up4 (unat n)) (rest it)"
proof -
  have a: "unat (Align n 4) = up4 (unat n)" by (rule unat_Align_up4 [OF n])
  have "iter_ok (Advance n it) \<and> rest (Advance n it) = drop (up4 (unat n)) (rest it)"
  proof (cases "end_index it - read_index it < Align n 4")
    case True
    then show ?thesis
      using ok a length_rest [OF ok] by (simp add: Advance_def word_less_nat_alt)
  next
    case False
    then have le: "up4 (unat n) \<le> unat (end_index it) - unat (read_index it)" "unat (read_index it) \<le> unat (end_index it)"
      using ok a by (simp_all add: iter_ok_def unat_sub word_le_nat_alt not_less)
    moreover have "unat (end_index it) < 2 ^ 64" using unsigned_less [of "end_index it", where ?'a = nat] by simp
    ultimately have "unat (read_index it + Align n 4) = unat (read_index it) + up4 (unat n)"
      using a unat_word_ariths(1) [of "read_index it" "Align n 4"] by simp
    then show ?thesis
      using False ok le by (simp add: Advance_def iter_ok_def rest_def word_le_nat_alt add.commute)
  qed
  then show "iter_ok (Advance n it)" "rest (Advance n it) = drop (up4 (unat n)) (rest it)" by auto
qed

lemma bytes_at_rest:
  assumes "iter_ok it" and "n \<le> length (rest it)"
  shows "bytes_at (read_index it) n it = take n (rest it)"
proof -
  have "n + unat (read_index it) \<le> unat (end_index it)"
    using assms by (auto simp: rest_def iter_ok_def word_le_nat_alt)
  then show ?thesis by (simp add: bytes_at_def rest_def take_drop min_absorb1)
qed

lemma GetReadPointer_type_refines:
  assumes ok: "iter_ok it" and n: "n + 4 \<le> 2 ^ 64"
  shows "iter_ok (snd (GetReadPointer_type (word_of_nat n) it))"
    and "map_prod (map_option (\<lambda>pos. bytes_at pos n it)) rest (GetReadPointer_type (word_of_nat n) it)
       = request (int n) (rest it)"
proof -
  have u: "unat (word_of_nat n :: usize) = n" using n by (simp add: unat_of_nat)
  show "iter_ok (snd (GetReadPointer_type (word_of_nat n) it))"
    using ok n Advance_rest(1) [OF ok, of "word_of_nat n"] by (simp add: GetReadPointer_type_def u)
  show "map_prod (map_option (\<lambda>pos. bytes_at pos n it)) rest (GetReadPointer_type (word_of_nat n) it)
       = request (int n) (rest it)"
    using n Advance_rest(2) [OF ok, of "word_of_nat n"] bytes_at_rest [OF ok, of n]
    by (simp add: GetReadPointer_type_def request_def u left_less [OF ok] not_less)
qed

lemma GetReadPointer_bytes_refines:
  assumes ok: "iter_ok it"
  shows "iter_ok (snd (GetReadPointer_bytes n it))"
    and "map_prod (map_option (\<lambda>pos. bytes_at pos (nat (sint n)) it)) rest (GetReadPointer_bytes n it)
       = request (sint n) (rest it)"
proof -
  have r: "sint n < 2 ^ 31" using sint_less [of n] by simp
  have u: "unat (scast n :: usize) = nat (sint n)" if "0 \<le> sint n"
    using that r unat_int_len(1) [of "nat (sint n)"] by simp
  show "iter_ok (snd (GetReadPointer_bytes n it))"
    using ok r u Advance_rest(1) [OF ok, of "scast n"] by (simp add: GetReadPointer_bytes_def)
  show "map_prod (map_option (\<lambda>pos. bytes_at pos (nat (sint n)) it)) rest (GetReadPointer_bytes n it)
       = request (sint n) (rest it)"
    using r u Advance_rest(2) [OF ok, of "scast n"] bytes_at_rest [OF ok, of "nat (sint n)"]
    by (auto simp: GetReadPointer_bytes_def request_def left_less [OF ok] not_less)
qed

lemma GetReadPointer_elems_ok: "iter_ok it \<Longrightarrow> iter_ok (snd (GetReadPointer_elems n k it))"
  by (simp add: GetReadPointer_elems_def Let_def GetReadPointer_bytes_refines(1))

datatype shape = SBool | SInt | SLong | SUInt16 | SUInt32 | SInt64 | SUInt64 | SFloat | SDouble
  | SString | SString16 | SData | SBytes u32

primrec shape_of :: "field \<Rightarrow> shape" where
  "shape_of (FBool b) = SBool"
| "shape_of (FInt v) = SInt"
| "shape_of (FLong v) = SLong"
| "shape_of (FUInt16 v) = SUInt16"
| "shape_of (FUInt32 v) = SUInt32"
| "shape_of (FInt64 v) = SInt64"
| "shape_of (FUInt64 v) = SUInt64"
| "shape_of (FFloat v) = SFloat"
| "shape_of (FDouble v) = SDouble"
| "shape_of (FString v) = SString"
| "shape_of (FString16 v) = SString16"
| "shape_of (FData v) = SData"
| "shape_of (FBytes v) = SBytes (word_of_nat (length v))"

primrec read_field :: "shape \<Rightarrow> PickleIterator \<Rightarrow> field option \<times> PickleIterator" where
  "read_field SBool it = map_prod (map_option FBool) id (ReadBool it)"
| "read_field SInt it = map_prod (map_option FInt) id (ReadInt it)"
| "read_field SLong it = map_prod (map_option FLong) id (ReadLong it)"
| "read_field SUInt16 it = map_prod (map_option FUInt16) id (ReadUInt16 it)"
| "read_field SUInt32 it = map_prod (map_option FUInt32) id (ReadUInt32 it)"
| "read_field SInt64 it = map_prod (map_option FInt64) id (ReadInt64 it)"
| "read_field SUInt64 it = map_prod (map_option FUInt64) id (ReadUInt64 it)"
| "read_field SFloat it = map_prod (map_option FFloat) id (ReadFloat it)"
| "read_field SDouble it = map_prod (map_option FDouble) id (ReadDouble it)"
| "read_field SString it = map_prod (map_option FString) id (ReadString it)"
| "read_field SString16 it = map_prod (map_option FString16) id (ReadString16 it)"
| "read_field SData it = map_prod (map_option FData) id (ReadData it)"
| "read_field (SBytes n) it = map_prod (map_option FBytes) id (ReadBytes n it)"

primrec read_fields :: "shape list \<Rightarrow> PickleIterator \<Rightarrow> field list option \<times> PickleIterator" where
  "read_fields [] it = (Some [], it)"
| "read_fields (s # ss) it =
     (case read_field s it of
        (None, it1) \<Rightarrow> (None, it1)
      | (Some f, it1) \<Rightarrow> map_prod (map_option ((#) f)) id (read_fields ss it1))"

lemma request_padded:
  "n \<le> length e \<Longrightarrow> up4 n = up4 (length e) \<Longrightarrow> request (int n) (padded e @ r) = (Some (take n e), r)"
  using up4_bounds(1) [of "length e"] by (simp add: request_def) (simp add: padded_def)

lemma request_padded_all: "request (int (length e)) (padded e @ r) = (Some e, r)"
  using request_padded [of "length e" e r] by simp

lemma map_prod_SomeE:
  assumes "map_prod (map_option f) g x = (Some a, b)"
  obtains y z where "x = (Some y, z)" "f y = a" "g z = b"
  using assms by (cases x) auto

lemma read_type_padded:
  assumes ok: "iter_ok it" and r: "rest it = padded e @ r" and n: "n \<le> length e" "up4 n = up4 (length e)" "n < 100"
  shows "\<exists>pos it'. GetReadPointer_type (word_of_nat n) it = (Some pos, it') \<and> bytes_at pos n it = take n e \<and>
           iter_ok it' \<and> rest it' = r"
proof -
  have "map_prod (map_option (\<lambda>pos. bytes_at pos n it)) rest (GetReadPointer_type (word_of_nat n) it) = (Some (take n e), r)"
    using GetReadPointer_type_refines(2) [OF ok, of n] request_padded [OF n(1,2), of r] n(3) by (simp add: r)
  then obtain pos it' where "GetReadPointer_type (word_of_nat n) it = (Some pos, it')"
    "bytes_at pos n it = take n e" "rest it' = r" by (rule map_prod_SomeE)
  moreover from this(1) have "iter_ok it'"
    using GetReadPointer_type_refines(1) [OF ok, of n] n(3) by simp
  ultimately show ?thesis by blast
qed

lemma read_builtin_padded:
  assumes "iter_ok it" and "rest it = padded e @ r" and "n \<le> length e" "up4 n = up4 (length e)" "n < 100"
  shows "\<exists>it'. ReadBuiltinType n dec it = (Some (dec (take n e)), it') \<and> iter_ok it' \<and> rest it' = r"
  using read_type_padded [OF assms] by (auto simp: ReadBuiltinType_def)

lemma read_exact:
  assumes "iter_ok it" and "rest it = padded (enc v) @ r" and "codec enc dec n" and "n < 100"
  shows "\<exists>it'. map_prod (map_option C) id (ReadBuiltinType n dec it) = (Some (C v), it') \<and>
           iter_ok it' \<and> rest it' = r"
  using read_builtin_padded [OF assms(1,2), of n dec] assms(4)
    codec.length_enc [OF assms(3), of v] codec.dec_enc [OF assms(3), of v "[]"] by auto

lemma read_bytes_padded:
  assumes ok: "iter_ok it" and r: "rest it = padded e @ r" and n: "length e < 2 ^ 31"
  shows "\<exists>pos it'. GetReadPointer_bytes (word_of_nat (length e)) it = (Some pos, it') \<and>
           bytes_at pos (length e) it = e \<and> iter_ok it' \<and> rest it' = r"
proof -
  let ?n = "word_of_nat (length e) :: u32"
  have s: "sint ?n = int (length e)" by (rule unat_int_len(2) [OF n])
  have "map_prod (map_option (\<lambda>pos. bytes_at pos (length e) it)) rest (GetReadPointer_bytes ?n it) = (Some e, r)"
    using GetReadPointer_bytes_refines(2) [OF ok, of ?n] by (simp add: r s request_padded_all)
  then obtain pos it' where "GetReadPointer_bytes ?n it = (Some pos, it')"
    "bytes_at pos (length e) it = e" "rest it' = r" by (rule map_prod_SomeE)
  moreover from this(1) have "iter_ok it'"
    using GetReadPointer_bytes_refines(1) [OF ok, of ?n] by simp
  ultimately show ?thesis by blast
qed

lemma read_len_padded:
  assumes "iter_ok it" and "rest it = padded (enc_u32 k) @ r"
  shows "\<exists>it'. ReadInt it = (Some k, it') \<and> iter_ok it' \<and> rest it' = r"
  using read_builtin_padded [OF assms, of 4 dec_u32] u32c.dec_enc [of k "[]"] by (simp add: ReadInt_def)

lemmas read_defs = ReadInt_def ReadLong_def ReadUInt16_def ReadUInt32_def
  ReadInt64_def ReadUInt64_def

lemmas dec_enc_all = u32c.dec_enc [where r = "[]", simplified] u64c.dec_enc [where r = "[]", simplified]
  u16c.dec_enc [where r = "[]", simplified]

lemma enc_bool: "hd (take 1 (enc_u32 (if b then 1 else 0))) \<noteq> 0 \<longleftrightarrow> b"
proof -
  have "le_enc 4 n = word_of_nat (n mod 256) # le_enc 3 (n div 256)" for n
    using le_enc.simps(2) [of 3 n] by simp
  then show ?thesis by (cases b) (simp_all add: enc_u32_def)
qed

text \<open>Each field is read back from its image, and the iterator is left at what follows it.\<close>

lemma read_field_image:
  assumes "iter_ok it" and "rest it = field_image f @ r" and "field_ok f"
  shows "\<exists>it'. read_field (shape_of f) it = (Some f, it') \<and> iter_ok it' \<and> rest it' = r"
proof (cases f)
  case (FBool b)
  then show ?thesis
    using read_builtin_padded [OF assms(1), of "enc_u32 (if b then 1 else 0)" r 1 "\<lambda>bs. hd bs \<noteq> 0"] assms(2) enc_bool [of b]
    by (auto simp: ReadBool_def up4_def)
next
  case (FFloat v)
  then show ?thesis
    using read_type_padded [OF assms(1), of "enc_u32 v" r 4] assms(2) by (auto simp: ReadFloat_def dec_enc_all)
next
  case (FDouble v)
  then show ?thesis
    using read_type_padded [OF assms(1), of "enc_u64 v" r 8] assms(2) by (auto simp: ReadDouble_def dec_enc_all)
next
  case (FString v)
  then obtain it1 where it1: "ReadInt it = (Some (word_of_nat (length v)), it1)" "iter_ok it1" "rest it1 = padded v @ r"
    using read_len_padded [OF assms(1)] assms(2) by auto
  then show ?thesis
    using read_bytes_padded [OF it1(2,3)] assms(3) FString by (auto simp: ReadString_def unat_int_len)
next
  case (FString16 v)
  let ?e = "concat (map enc_u16 v)"
  have e: "length ?e = 2 * length v" by (simp add: u16c.length_concat_enc)
  obtain it1 where it1: "ReadInt it = (Some (word_of_nat (length v)), it1)" "iter_ok it1" "rest it1 = padded ?e @ r"
    using read_len_padded [OF assms(1)] assms(2) FString16 by auto
  have len: "length v < 2 ^ 31" "2 * length v < 2 ^ 31" using assms(3) FString16 by auto
  then have "GetReadPointer_elems (word_of_nat (length v)) 2 it1 = GetReadPointer_bytes (word_of_nat (length ?e)) it1"
    by (simp add: GetReadPointer_elems_def Let_def e unat_int_len mult.commute)
  then show ?thesis
    using read_bytes_padded [OF it1(2,3)] it1(1) len FString16 u16c.read_array_enc [of v "[]"]
    by (auto simp: ReadString16_def unat_int_len e)
next
  case (FData v)
  then obtain it1 where it1: "ReadInt it = (Some (word_of_nat (length v)), it1)" "iter_ok it1" "rest it1 = padded v @ r"
    using read_len_padded [OF assms(1)] assms(2) by auto
  then show ?thesis
    using read_bytes_padded [OF it1(2,3)] assms(3) FData by (auto simp: ReadData_def ReadBytes_def unat_int_len)
next
  case (FBytes v)
  then show ?thesis
    using read_bytes_padded [OF assms(1), of v r] assms(2,3) by (auto simp: ReadBytes_def unat_int_len)
qed (use assms(2) in \<open>simp_all add: read_defs read_exact [OF assms(1) _ u32c.codec_axioms]
  read_exact [OF assms(1) _ u64c.codec_axioms] read_exact [OF assms(1) _ u16c.codec_axioms]\<close>)

lemma read_fields_image:
  assumes "iter_ok it" and "rest it = concat (map field_image fs)" and "list_all field_ok fs"
  shows "\<exists>it'. read_fields (map shape_of fs) it = (Some fs, it') \<and> rest it' = []"
  using assms
proof (induction fs arbitrary: it)
  case (Cons f fs)
  then obtain it1 where it1: "read_field (shape_of f) it = (Some f, it1)" "iter_ok it1"
    "rest it1 = concat (map field_image fs)"
    using read_field_image [of it f] by auto
  then show ?case using Cons.IH [OF it1(2,3)] Cons.prems(3) by auto
qed simp

section \<open>Pickles over received data\<close>

lemma Align_0: "Align 0 4 = 0"
  by (simp add: Align_def)

lemma Pickle_of_data_cases:
  assumes n: "length d < 2 ^ 31"
  defines "q \<equiv> Pickle_of_data d"
  shows "header q = None \<or>
    header q = Some d \<and> unat (header_size q) + unat (hdr_payload_size d) = length d \<and> 4 \<le> unat (header_size q)"
proof (cases "header q = None")
  case False
  let ?n = "word_of_nat (length d) :: u32"
  have u: "unat ?n = length d" using n by (simp add: unat_of_nat)
  have h: "header_size q = ucast (?n - hdr_payload_size d)" "header_size q \<le> ucast ?n"
    "header_size q = Align (header_size q) 4" "header_size q \<noteq> 0" "header q = Some d"
    using False by (simp_all add: q_def Pickle_of_data_def Let_def not_less Align_0 split: if_splits)
  have le: "unat (?n - hdr_payload_size d) \<le> length d"
    using h(1,2) u by (simp add: word_le_nat_alt)
  have "unat (?n - hdr_payload_size d) + unat (hdr_payload_size d) = length d"
    using le u unat_sub_if' [of ?n "hdr_payload_size d"] unsigned_less [of "hdr_payload_size d", where ?'a = nat]
    by (auto split: if_splits)
  moreover have "unat (header_size q) mod 4 = 0"
  proof -
    have "unat (header_size q) \<le> length d" using h(1) le by simp
    then have "unat (header_size q) = up4 (unat (header_size q))" using h(3) n unat_Align_up4 [of "header_size q"] by simp
    then show ?thesis using up4_bounds(3) by metis
  qed
  moreover have "unat (header_size q) \<noteq> 0" using h(4) by (simp add: unat_eq_0)
  ultimately show ?thesis using h(1,5) by (auto simp: mod_eq_0_iff_dvd dest: dvd_imp_le)
qed simp

lemma Pickle_of_data_rest:
  assumes "length d < 2 ^ 31" and "header (Pickle_of_data d) = Some d"
  shows "iter_ok (new_PickleIterator (Pickle_of_data d))"
    and "rest (new_PickleIterator (Pickle_of_data d)) = drop (unat (header_size (Pickle_of_data d))) d"
proof -
  have "unat (header_size (Pickle_of_data d)) + unat (hdr_payload_size d) = length d"
    using Pickle_of_data_cases [OF assms(1)] assms(2) by auto
  then show "iter_ok (new_PickleIterator (Pickle_of_data d))"
    "rest (new_PickleIterator (Pickle_of_data d)) = drop (unat (header_size (Pickle_of_data d))) d"
    using assms(2) by (auto simp: iter_ok_def rest_def new_PickleIterator_def payload_size_def)
qed

lemma Pickle_of_data_iter_ok: "length d < 2 ^ 31 \<Longrightarrow> iter_ok (new_PickleIterator (Pickle_of_data d))"
  using Pickle_of_data_cases [of d] Pickle_of_data_rest(1) [of d]
  by (auto simp: new_PickleIterator_def iter_ok_def payload_size_def)

lemma holds_pickle_data:
  "holds p ext body \<Longrightarrow> pickle_data p = enc_u32 (word_of_nat (length body)) @ ext @ body"
  using layout_source(3) by (auto simp: holds_def layout_def pickle_data_def)

lemma Pickle_of_data_pickle_data:
  assumes h: "holds p ext body" and n: "length (pickle_data p) < 2 ^ 31"
  defines "q \<equiv> Pickle_of_data (pickle_data p)"
  shows "header q = Some (pickle_data p)" and "header_size q = header_size p"
proof -
  let ?d = "pickle_data p" and ?n = "word_of_nat (length (pickle_data p)) :: u32"
  note d = holds_pickle_data [OF h]
  have l: "unat (header_size p) = 4 + length ext" "length ext \<le> 60" "length ext mod 4 = 0"
    using h by (auto simp: holds_def layout_def)
  have ps: "unat (hdr_payload_size ?d) = length body"
    using n by (simp add: hdr_payload_size_def d codec_simps unat_of_nat)
  have u: "unat ?n = length ?d" "sint ?n = int (length ?d)" using n by (simp_all add: unat_of_nat unat_int_len)
  have "unat (?n - hdr_payload_size ?d) = 4 + length ext"
    using u ps d unat_sub_if' [of ?n "hdr_payload_size ?d"] by simp
  then have hs: "ucast (?n - hdr_payload_size ?d) = header_size p" by (simp add: word_unat_eq_iff l)
  have "Align (header_size p) 4 = header_size p"
    using unat_Align_up4 [of "header_size p"] l up4_id [of "4 + length ext"] by (simp add: word_unat_eq_iff)
  moreover have "\<not> ucast ?n < header_size p" "header_size p \<noteq> 0"
    using l u d by (auto simp: word_less_nat_alt unat_eq_0)
  moreover have "4 \<le> sint ?n" using u(2) d by simp
  ultimately have "header q = Some ?d \<and> header_size q = header_size p"
    by (simp add: q_def Pickle_of_data_def Let_def hs)
  then show "header q = Some (pickle_data p)" and "header_size q = header_size p" by auto
qed

inductive iter_reach :: "PickleIterator \<Rightarrow> PickleIterator \<Rightarrow> bool" for it0 where
  start: "iter_reach it0 it0"
| type_read: "iter_reach it0 it \<Longrightarrow> n \<le> 8 \<Longrightarrow> iter_reach it0 (snd (GetReadPointer_type (word_of_nat n) it))"
| bytes_read: "iter_reach it0 it \<Longrightarrow> iter_reach it0 (snd (GetReadPointer_bytes n it))"
| elems_read: "iter_reach it0 it \<Longrightarrow> iter_reach it0 (snd (GetReadPointer_elems n k it))"

text \<open>The iterator hands out \<open>n\<close> bytes at offset \<open>pos\<close> of the payload.\<close>

inductive access :: "PickleIterator \<Rightarrow> nat \<Rightarrow> usize \<Rightarrow> bool" for it where
  "n \<le> 8 \<Longrightarrow> fst (GetReadPointer_type (word_of_nat n) it) = Some pos \<Longrightarrow> access it n pos"
| "fst (GetReadPointer_bytes k it) = Some pos \<Longrightarrow> access it (nat (sint k)) pos"
| "fst (GetReadPointer_elems k e it) = Some pos \<Longrightarrow> access it (nat (sint k * uint e)) pos"

lemma iter_reach_ok: "iter_reach it0 it \<Longrightarrow> iter_ok it0 \<Longrightarrow> iter_ok it"
  by (induction rule: iter_reach.induct)
    (simp_all add: GetReadPointer_type_refines GetReadPointer_bytes_refines GetReadPointer_elems_ok)

lemma Advance_frame [simp]: "payload (Advance n it) = payload it" "end_index (Advance n it) = end_index it"
  by (simp_all add: Advance_def Let_def)

lemma GetReadPointer_frame [simp]:
  "payload (snd (GetReadPointer_type m it)) = payload it" "end_index (snd (GetReadPointer_type m it)) = end_index it"
  "payload (snd (GetReadPointer_bytes n it)) = payload it" "end_index (snd (GetReadPointer_bytes n it)) = end_index it"
  "payload (snd (GetReadPointer_elems n m it)) = payload it" "end_index (snd (GetReadPointer_elems n m it)) = end_index it"
  by (simp_all add: GetReadPointer_type_def GetReadPointer_bytes_def GetReadPointer_elems_def Let_def)

lemma iter_reach_frame: "iter_reach it0 it \<Longrightarrow> payload it = payload it0 \<and> end_index it = end_index it0"
  by (induction rule: iter_reach.induct) simp_all

lemma GetReadPointer_bytes_access:
  assumes "iter_ok it" and "fst (GetReadPointer_bytes k it) = Some pos"
  shows "unat pos + nat (sint k) \<le> unat (end_index it)"
proof -
  have "sint k < 2 ^ 31" using sint_less [of k] by simp
  moreover have k: "0 \<le> sint k" and pos: "pos = read_index it" and le: "\<not> end_index it - read_index it < scast k"
    using assms(2) by (simp_all add: GetReadPointer_bytes_def split: if_splits)
  ultimately have "unat (scast k :: usize) = nat (sint k)" using unat_int_len(1) [of "nat (sint k)"] by simp
  then show ?thesis
    using assms(1) le k by (auto simp: pos iter_ok_def unat_sub word_le_nat_alt not_less)
qed

lemma access_in_bounds:
  assumes ok: "iter_ok it" and "access it n pos"
  shows "unat pos + n \<le> unat (end_index it)"
  using assms(2)
proof cases
  case 1
  then have "unat (word_of_nat n :: usize) = n" by (simp add: unat_of_nat)
  then show ?thesis
    using 1 ok by (auto simp: GetReadPointer_type_def iter_ok_def unat_sub word_le_nat_alt not_less split: if_splits)
next
  case (2 k)
  then show ?thesis using GetReadPointer_bytes_access [OF ok] by simp
next
  case (3 k e)
  then have p: "0 \<le> sint k * uint e" "sint k * uint e < 2 ^ 31"
    and g: "fst (GetReadPointer_bytes (word_of_int (sint k * uint e)) it) = Some pos"
    by (auto simp: GetReadPointer_elems_def Let_def split: if_splits)
  have "sint (word_of_int (sint k * uint e) :: u32) = sint k * uint e"
    using unat_int_len(2) [of "nat (sint k * uint e)"] p by simp
  then show ?thesis using GetReadPointer_bytes_access [OF ok g] 3(1) by simp
qed

section \<open>Reachable pickles\<close>

inductive pickle_reach :: "Pickle \<Rightarrow> bool" where
  new: "new_Pickle fr = Some p \<Longrightarrow> pickle_reach p"
| sized: "4 \<le> unat hs \<Longrightarrow> unat hs \<le> 64 \<Longrightarrow> new_Pickle_sized fr hs = Some p \<Longrightarrow> pickle_reach p"
| wrote: "pickle_reach p \<Longrightarrow> field_ok f \<Longrightarrow> unat (payload_size p) + length (field_image f) < 2 ^ 32 \<Longrightarrow>
    write_field f p = Some q \<Longrightarrow> pickle_reach q"
| claim: "pickle_reach p \<Longrightarrow> unat (payload_size p) + up4 (unat n) < 2 ^ 32 \<Longrightarrow>
    ClaimBytes n p = Some (w, q) \<Longrightarrow> pickle_reach q"
| reserve: "pickle_reach p \<Longrightarrow> unat (payload_size p) + up4 (unat n) < 2 ^ 32 \<Longrightarrow>
    Reserve n p = Some q \<Longrightarrow> pickle_reach q"
| copied: "pickle_reach p \<Longrightarrow> copy_Pickle fr p = Some q \<Longrightarrow> pickle_reach q"
| assigned: "pickle_reach p \<Longrightarrow> assign_Pickle False p r = Some q \<Longrightarrow> pickle_reach q"


lemma holds_payload_size: "holds p ext body \<Longrightarrow> unat (payload_size p) = length body"
  by (auto simp: holds_def layout_def payload_size_def hdr_payload_size_def codec_simps unat_of_nat)


lemma pickle_reach_holds: "pickle_reach p \<Longrightarrow> \<exists>ext body. holds p ext body"
proof (induction rule: pickle_reach.induct)
  case (new fr p)
  then show ?case using holds_new_Pickle [of fr] by auto
next
  case (sized hs fr p)
  then show ?case using holds_new_Pickle_sized [of hs fr] by auto
next
  case (wrote p f q)
  then obtain ext body where "holds p ext body" by blast
  then show ?case using holds_write_field [of p ext body f] holds_payload_size [of p ext body] wrote by auto
next
  case (claim p n w q)
  then obtain ext body where "holds p ext body" by blast
  then show ?case using holds_ClaimBytes [of p ext body n] holds_payload_size [of p ext body] claim by auto
next
  case (reserve p n q)
  then obtain ext body where "holds p ext body" by blast
  then show ?case using holds_Reserve [of p ext body n] holds_payload_size [of p ext body] reserve by auto
next
  case (copied p fr q)
  then obtain ext body where "holds p ext body" by blast
  then show ?case using holds_copy_Pickle [of p ext body fr] copied by auto
next
  case (assigned p r q)
  then obtain ext body where "holds p ext body" by blast
  then show ?case using holds_assign_Pickle [of p ext body r] assigned by auto
qed

section \<open>Correctness\<close>

text \<open>
  C19: What is written is read back.  Fields of any types written in order to a new pickle with
  any permitted header size always succeed (as long as the total stays within an \<open>int\<close>), and an
  iterator over a pickle rebuilt from the resulting bytes reads the same fields in the same
  order and ends exactly at the end of the payload.
\<close>

theorem pickle_roundtrip:
  assumes "4 \<le> unat hs" and "unat hs \<le> 64" and "list_all field_ok fs"
    and "length (concat (map field_image fs)) < 2 ^ 31 - 64"
  shows "\<exists>p0 p it. new_Pickle_sized fr hs = Some p0 \<and> write_fields fs p0 = Some p \<and>
           read_fields (map shape_of fs) (new_PickleIterator (Pickle_of_data (pickle_data p))) = (Some fs, it) \<and>
           rest it = []"
proof -
  obtain p0 ext where p0: "new_Pickle_sized fr hs = Some p0" "holds p0 ext []" "length ext = up4 (unat hs) - 4"
    using holds_new_Pickle_sized [OF assms(1,2)] by blast
  let ?body = "concat (map field_image fs)"
  obtain p where p: "write_fields fs p0 = Some p" "holds p ext ?body"
    using holds_write_fields [OF p0(2) assms(3)] assms(4) by auto
  have d: "pickle_data p = enc_u32 (word_of_nat (length ?body)) @ ext @ ?body" by (rule holds_pickle_data [OF p(2)])
  have hs: "unat (header_size p) = 4 + length ext" "length ext \<le> 60" using p(2) by (auto simp: holds_def layout_def)
  then have n: "length (pickle_data p) < 2 ^ 31" using assms(4) by (simp add: d)
  note q = Pickle_of_data_pickle_data [OF p(2) n]
  have "rest (new_PickleIterator (Pickle_of_data (pickle_data p))) = ?body"
    using Pickle_of_data_rest(2) [OF n q(1)] by (simp add: q(2) hs(1)) (simp add: d)
  then show ?thesis
    using read_fields_image [OF Pickle_of_data_rest(1) [OF n q(1)] _ assms(3)] p0(1) p(1) by blast
qed

theorem pickle_roundtrip_witness:
  "\<exists>p0 p it. new_Pickle_sized (\<lambda>_. 7) 10 = Some p0 \<and>
     write_fields [FBool True, FString [1, 2, 3, 4, 5], FUInt16 9, FString16 [8, 7, 6]] p0 = Some p \<and>
     read_fields [SBool, SString, SUInt16, SString16] (new_PickleIterator (Pickle_of_data (pickle_data p))) =
       (Some [FBool True, FString [1, 2, 3, 4, 5], FUInt16 9, FString16 [8, 7, 6]], it) \<and> rest it = []"
  using pickle_roundtrip [of 10 "[FBool True, FString [1, 2, 3, 4, 5], FUInt16 9, FString16 [8, 7, 6]]" "\<lambda>_. 7"]
  by (simp add: up4_def)

text \<open>
  C20: Reading never leaves the received data.  For every byte string \<open>d\<close>, whatever header it
  carries, and after any sequence of reads, each pointer an iterator hands out for \<open>n\<close> bytes
  points at \<open>n\<close> bytes of \<open>d\<close> behind the header.
\<close>

theorem pickle_reads_in_bounds:
  assumes "length d < 2 ^ 31" and "iter_reach (new_PickleIterator (Pickle_of_data d)) it" and "access it n pos"
  shows "unat (header_size (Pickle_of_data d)) + unat pos + n \<le> length d \<and>
         bytes_at pos n it = take n (drop (unat (header_size (Pickle_of_data d)) + unat pos) d)"
proof -
  let ?q = "Pickle_of_data d"
  note ok = iter_reach_ok [OF assms(2) Pickle_of_data_iter_ok [OF assms(1)]]
  have b: "unat pos + n \<le> unat (payload_size ?q)"
    using access_in_bounds [OF ok assms(3)] iter_reach_frame [OF assms(2)] by (simp add: new_PickleIterator_def)
  have pl: "payload it = payload (new_PickleIterator ?q)" using iter_reach_frame [OF assms(2)] by simp
  from Pickle_of_data_cases [OF assms(1)] show ?thesis
  proof
    assume h: "header ?q = None"
    then have "header_size ?q = 0" by (simp add: Pickle_of_data_def Let_def split: if_splits)
    then show ?thesis using b h by (simp add: payload_size_def bytes_at_def)
  next
    assume "header ?q = Some d \<and> unat (header_size ?q) + unat (hdr_payload_size d) = length d \<and> 4 \<le> unat (header_size ?q)"
    then show ?thesis
      using b by (simp add: bytes_at_def pl new_PickleIterator_def payload_size_def add.commute)
  qed
qed

theorem pickle_reads_in_bounds_witness:
  "\<exists>pos. fst (GetReadPointer_bytes 2 (new_PickleIterator (Pickle_of_data [4, 0, 0, 0, 1, 2, 3, 4]))) = Some pos \<and>
     unat (header_size (Pickle_of_data [4, 0, 0, 0, 1, 2, 3, 4])) + unat pos + 2 \<le> 8"
proof -
  let ?it = "new_PickleIterator (Pickle_of_data [4, 0, 0, 0, 1, 2, 3, 4])"
  have a: "fst (GetReadPointer_bytes 2 ?it) = Some 0" by code_simp
  show ?thesis
    using pickle_reads_in_bounds [OF _ iter_reach.start access.intros(2) [OF a]] a by simp
qed



text \<open>
  C22: Pickles are found in a stream.  At the start of a stream that begins with the bytes of a pickle,
  \<open>FindNext\<close> gives the end of exactly these bytes; while they have not all arrived it gives nothing.
\<close>

theorem pickle_framing:
  assumes "pickle_reach p" and "length (pickle_data p @ later) < 2 ^ 64" and "k < length (pickle_data p)"
  shows "FindNext (header_size p) (pickle_data p @ later) = Some (word_of_nat (length (pickle_data p))) \<and>
         FindNext (header_size p) (take k (pickle_data p)) = None"
proof -
  obtain ext body where h: "holds p ext body" using pickle_reach_holds [OF assms(1)] by blast
  note d = holds_pickle_data [OF h]
  have l: "unat (header_size p) = 4 + length ext" "length ext \<le> 60" "length body < 2 ^ 32"
    using h by (auto simp: holds_def layout_def)
  have peek: "PeekNext (header_size p) xs = Some (word_of_nat (length (pickle_data p)))"
    if "unat (header_size p) \<le> length xs" "length xs < 2 ^ 64" "take 4 xs = enc_u32 (word_of_nat (length body))" for xs
  proof -
    have ps: "hdr_payload_size xs = word_of_nat (length body)"
      using that(3) dec_enc_all(1) [of "word_of_nat (length body)"] by (simp add: hdr_payload_size_def dec_u32_def)
    then have u: "unat (hdr_payload_size xs) = length body" using l(3) by (simp add: unat_of_nat)
    have "unat (header_size p + ucast (hdr_payload_size xs)) = length (pickle_data p)"
      using l u unat_word_ariths(1) [of "header_size p" "ucast (hdr_payload_size xs)"] by (simp add: d)
    then have "header_size p + ucast (hdr_payload_size xs) = word_of_nat (length (pickle_data p))"
      using assms(2) by (simp add: word_unat_eq_iff unat_of_nat)
    then show ?thesis
      using that(1,2) l u by (simp add: PeekNext_def Let_def word_less_nat_alt unat_of_nat)
  qed
  have whole: "PeekNext (header_size p) (pickle_data p @ later) = Some (word_of_nat (length (pickle_data p)))"
    using assms(2) l(1) by (intro peek) (simp_all add: d)
  have part: "PeekNext (header_size p) (take k (pickle_data p)) \<in> {None, Some (word_of_nat (length (pickle_data p)))}"
  proof (cases "k < unat (header_size p)")
    case True
    then show ?thesis using assms(2,3) by (simp add: PeekNext_def Let_def word_less_nat_alt unat_of_nat)
  next
    case False
    then have "PeekNext (header_size p) (take k (pickle_data p)) = Some (word_of_nat (length (pickle_data p)))"
      using assms(2,3) l(1) by (intro peek) (simp_all add: d)
    then show ?thesis by simp
  qed
  moreover have "unat (word_of_nat (length (pickle_data p @ later)) :: usize) = length (pickle_data p @ later)"
    using assms(2) by (simp only: unat_of_nat) simp
  ultimately show ?thesis
    using whole assms(2,3) by (auto simp: FindNext_def word_less_nat_alt unat_of_nat)
qed

theorem pickle_framing_witness:
  "\<exists>p. new_Pickle (\<lambda>_. 7) = Some p \<and>
     FindNext 4 (pickle_data p @ [1, 2]) = Some 4 \<and> FindNext 4 (take 3 (pickle_data p)) = None"
proof -
  obtain p where p: "new_Pickle (\<lambda>_. 7) = Some p" "holds p [] []" "header_size p = 4"
    using holds_new_Pickle by blast
  have d: "length (pickle_data p) = 4" by (simp add: holds_pickle_data [OF p(2)])
  show ?thesis
    using pickle_framing [OF pickle_reach.new [OF p(1)], of "[1, 2]" 3] p by (simp add: d)
qed

text \<open>
  The state after a failed read.  A failed skip or block read exhausts the iterator, so that every later
  read of at least one byte fails; but a read of \<open>n\<close> elements of \<open>k\<close> bytes whose size does not fit an \<open>int\<close>
  leaves the iterator where it was.
\<close>

lemma pickle_failed_reads:
  assumes "iter_ok it"
  shows "(\<not> fst (SkipBytes n it) \<longleftrightarrow> sint n < 0 \<or> int (length (rest it)) < sint n) \<and>
         (\<not> fst (SkipBytes n it) \<longrightarrow> rest (snd (SkipBytes n it)) = []) \<and>
         (2 ^ 31 \<le> sint m * uint k \<longrightarrow> GetReadPointer_elems m k it = (None, it))"
  using GetReadPointer_bytes_refines(2) [OF assms, of n]
  by (cases "GetReadPointer_bytes n it")
    (auto simp: SkipBytes_def request_def GetReadPointer_elems_def split: if_splits)

end
