(* ===== verification/Circular_Deque.thy ===== *)
theory Circular_Deque
  imports Libchrome_Prelude "HOL-Library.Monad_Syntax"
begin

text \<open>
  \<open>base::circular_deque\<close> (\<open>base/containers/circular_deque.h\<close>) on top of \<open>VectorBuffer\<close>
  (\<open>base/containers/vector_buffer.h\<close>), in a build with \<open>DCHECK\<close>s.

  A buffer is a list of cells: \<open>None\<close> is raw memory, \<open>Some v\<close> a constructed object.
  Constructing over an object, destroying or reading raw memory, an index outside the buffer
  and a failed \<open>DCHECK\<close> all give \<open>None\<close>, so that a \<open>Some\<close> result means that the operation
  respected object lifetimes.  Sizes are natural numbers: buffers are assumed to be smaller than
  the address space.  \<open>block\<close> numbers the buffers a deque has had, which tells whether a
  reference into it still refers to live memory.

  An argument passed by reference is either a value outside the deque (\<open>Val\<close>) or an element of
  the deque itself (\<open>Ref\<close>, with the buffer and the index it was taken at); it is read when the
  code constructs the new object from it.
\<close>

section \<open>VectorBuffer\<close>

type_synonym 'a VectorBuffer = "'a option list"

definition new_VectorBuffer :: "nat \<Rightarrow> 'a VectorBuffer" where
  "new_VectorBuffer cnt = replicate cnt None"

definition construct :: "nat \<Rightarrow> 'a \<Rightarrow> 'a VectorBuffer \<Rightarrow> 'a VectorBuffer option" where
  "construct i v buf = (if i < length buf \<and> buf ! i = None then Some (buf[i := Some v]) else None)"

primrec destruct_cells :: "nat \<Rightarrow> nat \<Rightarrow> 'a VectorBuffer \<Rightarrow> 'a VectorBuffer option" where
  "destruct_cells 0 i buf = Some buf"
| "destruct_cells (Suc n) i buf =
     (if i < length buf \<and> buf ! i \<noteq> None then destruct_cells n (Suc i) (buf[i := None]) else None)"

definition VB_DestructRange :: "nat \<Rightarrow> nat \<Rightarrow> 'a VectorBuffer \<Rightarrow> 'a VectorBuffer option" where
  "VB_DestructRange b e buf = (if b \<le> e then destruct_cells (e - b) b buf else None)"

text \<open>\<open>MoveRange\<close> between two buffers, and of one cell within a buffer.\<close>

primrec move_cells ::
  "nat \<Rightarrow> nat \<Rightarrow> 'a VectorBuffer \<Rightarrow> nat \<Rightarrow> 'a VectorBuffer \<Rightarrow> ('a VectorBuffer \<times> 'a VectorBuffer) option" where
  "move_cells 0 i from_buf j to_buf = Some (from_buf, to_buf)"
| "move_cells (Suc n) i from_buf j to_buf =
     (if i < length from_buf \<and> j < length to_buf \<and> from_buf ! i \<noteq> None \<and> to_buf ! j = None
      then move_cells n (Suc i) (from_buf[i := None]) (Suc j) (to_buf[j := from_buf ! i])
      else None)"

definition RangesOverlap :: "nat \<Rightarrow> nat \<Rightarrow> nat \<Rightarrow> bool" where
  "RangesOverlap from_begin from_end dst \<longleftrightarrow> \<not> (from_end \<le> dst \<or> dst + (from_end - from_begin) \<le> from_begin)"

definition move_cell :: "nat \<Rightarrow> nat \<Rightarrow> 'a VectorBuffer \<Rightarrow> 'a VectorBuffer option" where
  "move_cell i j buf =
     (if RangesOverlap i (Suc i) j \<or> length buf \<le> i \<or> length buf \<le> j \<or> buf ! i = None \<or> buf ! j \<noteq> None then None
      else Some (buf[j := buf ! i, i := None]))"

section \<open>The deque and its capacity\<close>

definition kCircularBufferInitialCapacity :: nat where
  "kCircularBufferInitialCapacity = 3"

record 'a circular_deque =
  buffer :: "'a VectorBuffer"
  begin_at :: nat
  end_at :: nat
  generation :: u64
  block :: nat

abbreviation cap :: "'a circular_deque \<Rightarrow> nat" where
  "cap d \<equiv> length (buffer d)"

definition new_circular_deque :: "'a circular_deque" where
  "new_circular_deque = \<lparr>buffer = [], begin_at = 0, end_at = 0, generation = 0, block = 0\<rparr>"

definition IncrementGeneration :: "'a circular_deque \<Rightarrow> 'a circular_deque" where
  "IncrementGeneration d = d\<lparr>generation := generation d + 1\<rparr>"

definition dq_size :: "'a circular_deque \<Rightarrow> nat" where
  "dq_size d = (if begin_at d \<le> end_at d then end_at d - begin_at d else cap d - begin_at d + end_at d)"

definition dq_empty :: "'a circular_deque \<Rightarrow> bool" where
  "dq_empty d \<longleftrightarrow> begin_at d = end_at d"

definition dq_capacity :: "'a circular_deque \<Rightarrow> nat" where
  "dq_capacity d = (if cap d = 0 then 0 else cap d - 1)"

definition MoveBuffer ::
  "'a VectorBuffer \<Rightarrow> nat \<Rightarrow> nat \<Rightarrow> 'a VectorBuffer \<Rightarrow> ('a VectorBuffer \<times> nat \<times> nat) option" where
  "MoveBuffer from_buf from_begin from_end to_buf =
     (if from_begin < from_end then do {
        (_, to1) \<leftarrow> move_cells (from_end - from_begin) from_begin from_buf 0 to_buf;
        Some (to1, 0, from_end - from_begin)
      }
      else if from_end < from_begin then do {
        (from1, to1) \<leftarrow> move_cells (length from_buf - from_begin) from_begin from_buf 0 to_buf;
        let right_size = length from_buf - from_begin;
        (_, to2) \<leftarrow> move_cells from_end 0 from1 right_size to1;
        Some (to2, 0, right_size + from_end)
      }
      else Some (to_buf, 0, 0))"

definition SetCapacityTo :: "nat \<Rightarrow> 'a circular_deque \<Rightarrow> 'a circular_deque option" where
  "SetCapacityTo new_capacity d = do {
     (buf, b, e) \<leftarrow> MoveBuffer (buffer d) (begin_at d) (end_at d) (new_VectorBuffer (new_capacity + 1));
     Some (d\<lparr>buffer := buf, begin_at := b, end_at := e, block := Suc (block d)\<rparr>)
   }"

definition ExpandCapacityIfNecessary :: "nat \<Rightarrow> 'a circular_deque \<Rightarrow> 'a circular_deque option" where
  "ExpandCapacityIfNecessary additional_elts d =
     (let min_new_capacity = dq_size d + additional_elts in
      if min_new_capacity \<le> dq_capacity d then Some d
      else (let min_new_capacity = max min_new_capacity kCircularBufferInitialCapacity;
                new_capacity = max min_new_capacity (dq_capacity d + dq_capacity d div 4)
            in SetCapacityTo new_capacity d))"

definition ShrinkCapacityIfNecessary :: "'a circular_deque \<Rightarrow> 'a circular_deque option" where
  "ShrinkCapacityIfNecessary d =
     (if dq_capacity d \<le> kCircularBufferInitialCapacity then Some d
      else (let sz = dq_size d; empty_spaces = dq_capacity d - sz in
            if empty_spaces < sz then Some d
            else (let new_capacity = max kCircularBufferInitialCapacity (sz + sz div 4) in
                  if new_capacity < dq_capacity d then SetCapacityTo new_capacity d else Some d)))"

definition DestructRange :: "nat \<Rightarrow> nat \<Rightarrow> 'a circular_deque \<Rightarrow> 'a circular_deque option" where
  "DestructRange b e d =
     (if e = b then Some d
      else if b < e then do { buf \<leftarrow> VB_DestructRange b e (buffer d); Some (d\<lparr>buffer := buf\<rparr>) }
      else do {
        buf1 \<leftarrow> VB_DestructRange b (cap d) (buffer d);
        buf2 \<leftarrow> VB_DestructRange 0 e buf1;
        Some (d\<lparr>buffer := buf2\<rparr>)
      })"

definition ClearRetainCapacity :: "'a circular_deque \<Rightarrow> 'a circular_deque option" where
  "ClearRetainCapacity d = do {
     d1 \<leftarrow> DestructRange (begin_at d) (end_at d) d;
     Some (IncrementGeneration (d1\<lparr>begin_at := 0, end_at := 0\<rparr>))
   }"

definition reserve :: "nat \<Rightarrow> 'a circular_deque \<Rightarrow> 'a circular_deque option" where
  "reserve new_capacity d = (if dq_capacity d < new_capacity then SetCapacityTo new_capacity d else Some d)"

definition shrink_to_fit :: "'a circular_deque \<Rightarrow> 'a circular_deque option" where
  "shrink_to_fit d =
     (if dq_empty d
      then Some (if cap d \<noteq> 0 then d\<lparr>buffer := [], block := Suc (block d)\<rparr> else d)
      else SetCapacityTo (dq_size d) d)"

definition dq_clear :: "'a circular_deque \<Rightarrow> 'a circular_deque option" where
  "dq_clear d = do {
     d1 \<leftarrow> ClearRetainCapacity d;
     Some (d1\<lparr>buffer := [], block := Suc (block d1)\<rparr>)
   }"

section \<open>Iterators\<close>

record iter =
  index :: nat
  created_generation :: u64

definition dq_begin :: "'a circular_deque \<Rightarrow> iter" where
  "dq_begin d = \<lparr>index = begin_at d, created_generation = generation d\<rparr>"

definition dq_end :: "'a circular_deque \<Rightarrow> iter" where
  "dq_end d = \<lparr>index = end_at d, created_generation = generation d\<rparr>"

definition CheckUnstableUsage :: "'a circular_deque \<Rightarrow> iter \<Rightarrow> bool" where
  "CheckUnstableUsage d it \<longleftrightarrow> created_generation it = generation d"

definition CheckValidIndex :: "'a circular_deque \<Rightarrow> nat \<Rightarrow> bool" where
  "CheckValidIndex d i \<longleftrightarrow>
     (if begin_at d \<le> end_at d then begin_at d \<le> i \<and> i < end_at d
      else (begin_at d \<le> i \<and> i < cap d) \<or> i < end_at d)"

definition CheckValidIndexOrEnd :: "'a circular_deque \<Rightarrow> nat \<Rightarrow> bool" where
  "CheckValidIndexOrEnd d i \<longleftrightarrow> i = end_at d \<or> CheckValidIndex d i"

definition OffsetFromBegin :: "'a circular_deque \<Rightarrow> nat \<Rightarrow> nat" where
  "OffsetFromBegin d i = (if begin_at d \<le> i then i - begin_at d else cap d - begin_at d + i)"

definition it_deref :: "'a circular_deque \<Rightarrow> iter \<Rightarrow> 'a option" where
  "it_deref d it =
     (if CheckUnstableUsage d it \<and> CheckValidIndex d (index it) \<and> index it < cap d then buffer d ! index it else None)"

definition Increment :: "'a circular_deque \<Rightarrow> iter \<Rightarrow> iter option" where
  "Increment d it =
     (if CheckUnstableUsage d it \<and> CheckValidIndex d (index it)
      then Some (it\<lparr>index := (if index it + 1 = cap d then 0 else index it + 1)\<rparr>) else None)"

definition Decrement :: "'a circular_deque \<Rightarrow> iter \<Rightarrow> iter option" where
  "Decrement d it =
     (if CheckUnstableUsage d it \<and> CheckValidIndexOrEnd d (index it)
      then Some (it\<lparr>index := (if index it = 0 then cap d - 1 else index it - 1)\<rparr>) else None)"

definition it_Add :: "'a circular_deque \<Rightarrow> int \<Rightarrow> iter \<Rightarrow> iter option" where
  "it_Add d delta it =
     (if CheckUnstableUsage d it \<and>
         (if delta \<le> 0 then CheckValidIndexOrEnd d (index it) else CheckValidIndex d (index it))
      then (if delta = 0 then Some it
            else (let new_offset = int (OffsetFromBegin d (index it)) + delta in
                  if 0 \<le> new_offset \<and> new_offset \<le> int (dq_size d)
                  then Some (it\<lparr>index := nat (new_offset + int (begin_at d)) mod cap d\<rparr>) else None))
      else None)"

definition it_less :: "'a circular_deque \<Rightarrow> iter \<Rightarrow> iter \<Rightarrow> bool" where
  "it_less d x y \<longleftrightarrow> OffsetFromBegin d (index x) < OffsetFromBegin d (index y)"

definition it_diff :: "'a circular_deque \<Rightarrow> iter \<Rightarrow> iter \<Rightarrow> int" where
  "it_diff d x y = int (OffsetFromBegin d (index x)) - int (OffsetFromBegin d (index y))"

section \<open>Access\<close>


definition dq_front :: "'a circular_deque \<Rightarrow> 'a option" where
  "dq_front d = (if dq_empty d \<or> cap d \<le> begin_at d then None else buffer d ! begin_at d)"

definition dq_back :: "'a circular_deque \<Rightarrow> 'a option" where
  "dq_back d = (if dq_empty d then None else Option.bind (Decrement d (dq_end d)) (it_deref d))"

section \<open>Pushing and popping\<close>

datatype 'a arg = Val 'a | Ref nat nat

definition eval_arg :: "'a circular_deque \<Rightarrow> 'a arg \<Rightarrow> 'a option" where
  "eval_arg d a = (case a of Val v \<Rightarrow> Some v
     | Ref blk i \<Rightarrow> if blk = block d \<and> i < cap d then buffer d ! i else None)"

definition emplace_front :: "'a arg \<Rightarrow> 'a circular_deque \<Rightarrow> 'a circular_deque option" where
  "emplace_front a d = do {
     d1 \<leftarrow> ExpandCapacityIfNecessary 1 d;
     let b = (if begin_at d1 = 0 then cap d1 - 1 else begin_at d1 - 1);
     let d2 = IncrementGeneration (d1\<lparr>begin_at := b\<rparr>);
     v \<leftarrow> eval_arg d2 a;
     buf \<leftarrow> construct b v (buffer d2);
     Some (d2\<lparr>buffer := buf\<rparr>)
   }"

definition emplace_back :: "'a arg \<Rightarrow> 'a circular_deque \<Rightarrow> 'a circular_deque option" where
  "emplace_back a d = do {
     d1 \<leftarrow> ExpandCapacityIfNecessary 1 d;
     v \<leftarrow> eval_arg d1 a;
     buf \<leftarrow> construct (end_at d1) v (buffer d1);
     Some (IncrementGeneration
       (d1\<lparr>buffer := buf, end_at := (if end_at d1 = cap d1 - 1 then 0 else end_at d1 + 1)\<rparr>))
   }"

definition push_front :: "'a arg \<Rightarrow> 'a circular_deque \<Rightarrow> 'a circular_deque option" where
  "push_front a d = emplace_front a d"

definition push_back :: "'a arg \<Rightarrow> 'a circular_deque \<Rightarrow> 'a circular_deque option" where
  "push_back a d = emplace_back a d"

definition pop_front :: "'a circular_deque \<Rightarrow> 'a circular_deque option" where
  "pop_front d =
     (if dq_size d = 0 then None
      else do {
        buf \<leftarrow> VB_DestructRange (begin_at d) (begin_at d + 1) (buffer d);
        let b = begin_at d + 1;
        d1 \<leftarrow> ShrinkCapacityIfNecessary (d\<lparr>buffer := buf, begin_at := (if b = cap d then 0 else b)\<rparr>);
        Some (IncrementGeneration d1)
      })"

definition pop_back :: "'a circular_deque \<Rightarrow> 'a circular_deque option" where
  "pop_back d =
     (if dq_size d = 0 then None
      else do {
        let e = (if end_at d = 0 then cap d - 1 else end_at d - 1);
        buf \<leftarrow> VB_DestructRange e (e + 1) (buffer d);
        d1 \<leftarrow> ShrinkCapacityIfNecessary (d\<lparr>buffer := buf, end_at := e\<rparr>);
        Some (IncrementGeneration d1)
      })"

section \<open>Whole-container operations\<close>

partial_function (option) push_while ::
  "(nat \<Rightarrow> bool) \<Rightarrow> 'a arg \<Rightarrow> 'a circular_deque \<Rightarrow> 'a circular_deque option" where
  "push_while more_left a d =
     (if more_left (dq_size d) then Option.bind (emplace_back a d) (push_while more_left a) else Some d)"

text \<open>Both versions of \<open>resize\<close>; the one without a value passes the default-constructed object.\<close>

definition resize :: "nat \<Rightarrow> 'a arg \<Rightarrow> 'a circular_deque \<Rightarrow> 'a circular_deque option" where
  "resize cnt a d = do {
     d1 \<leftarrow> (if dq_size d < cnt then do {
               d0 \<leftarrow> ExpandCapacityIfNecessary (cnt - dq_size d) d;
               push_while (\<lambda>n. n < cnt) a d0
             }
             else if cnt < dq_size d then do {
               let new_end = (begin_at d + cnt) mod cap d;
               d0 \<leftarrow> DestructRange new_end (end_at d) d;
               ShrinkCapacityIfNecessary (d0\<lparr>end_at := new_end\<rparr>)
             }
             else Some d);
     Some (IncrementGeneration d1)
   }"

primrec repeat_op :: "nat \<Rightarrow> ('b \<Rightarrow> 'b option) \<Rightarrow> 'b \<Rightarrow> 'b option" where
  "repeat_op 0 f x = Some x"
| "repeat_op (Suc n) f x = Option.bind (f x) (repeat_op n f)"

definition assign_n :: "nat \<Rightarrow> 'a arg \<Rightarrow> 'a circular_deque \<Rightarrow> 'a circular_deque option" where
  "assign_n cnt a d = do {
     d1 \<leftarrow> ClearRetainCapacity d;
     d2 \<leftarrow> reserve cnt d1;
     d3 \<leftarrow> repeat_op cnt (emplace_back a) d2;
     Some (IncrementGeneration d3)
   }"

primrec append_range :: "'a list \<Rightarrow> 'a circular_deque \<Rightarrow> 'a circular_deque option" where
  "append_range [] d = Some d"
| "append_range (x # xs) d = Option.bind (emplace_back (Val x) d) (append_range xs)"

definition assign_range :: "'a list \<Rightarrow> 'a circular_deque \<Rightarrow> 'a circular_deque option" where
  "assign_range xs d = do {
     d1 \<leftarrow> ClearRetainCapacity d;
     d2 \<leftarrow> append_range xs d1;
     Some (IncrementGeneration d2)
   }"

definition assign_list :: "'a list \<Rightarrow> 'a circular_deque \<Rightarrow> 'a circular_deque option" where
  "assign_list xs d = Option.bind (reserve (length xs) d) (assign_range xs)"

text \<open>The range from one iterator of a deque to another.\<close>

partial_function (option) read_range :: "'a circular_deque \<Rightarrow> iter \<Rightarrow> iter \<Rightarrow> 'a list option" where
  "read_range d first stop =
     (if index first = index stop then Some []
      else do {
        v \<leftarrow> it_deref d first;
        first' \<leftarrow> Increment d first;
        vs \<leftarrow> read_range d first' stop;
        Some (v # vs)
      })"

definition copy_circular_deque :: "'a circular_deque \<Rightarrow> 'a circular_deque option" where
  "copy_circular_deque other = do {
     xs \<leftarrow> read_range other (dq_begin other) (dq_end other);
     assign_range xs (new_circular_deque\<lparr>buffer := new_VectorBuffer (dq_size other + 1)\<rparr>)
   }"

definition move_circular_deque :: "'a circular_deque \<Rightarrow> 'a circular_deque \<times> 'a circular_deque" where
  "move_circular_deque other =
     (new_circular_deque\<lparr>buffer := buffer other, begin_at := begin_at other, end_at := end_at other\<rparr>,
      other\<lparr>buffer := [], begin_at := 0, end_at := 0\<rparr>)"

definition assign_copy :: "bool \<Rightarrow> 'a circular_deque \<Rightarrow> 'a circular_deque \<Rightarrow> 'a circular_deque option" where
  "assign_copy same other d =
     (if same then Some d
      else do {
        d1 \<leftarrow> reserve (dq_size other) d;
        xs \<leftarrow> read_range other (dq_begin other) (dq_end other);
        assign_range xs d1
      })"

definition assign_move ::
  "bool \<Rightarrow> 'a circular_deque \<Rightarrow> 'a circular_deque \<Rightarrow> ('a circular_deque \<times> 'a circular_deque) option" where
  "assign_move same other d =
     (if same then Some (d, other)
      else do {
        d1 \<leftarrow> ClearRetainCapacity d;
        let d2 = d1\<lparr>buffer := buffer other, begin_at := begin_at other, end_at := end_at other, block := Suc (block d1)\<rparr>;
        Some (IncrementGeneration d2, other\<lparr>buffer := [], begin_at := 0, end_at := 0\<rparr>)
      })"

definition dq_swap :: "'a circular_deque \<Rightarrow> 'a circular_deque \<Rightarrow> 'a circular_deque \<times> 'a circular_deque" where
  "dq_swap d other =
     (IncrementGeneration (d\<lparr>buffer := buffer other, begin_at := begin_at other, end_at := end_at other\<rparr>),
      other\<lparr>buffer := buffer d, begin_at := begin_at d, end_at := end_at d\<rparr>)"

section \<open>Inserting and erasing\<close>

partial_function (option) shift_right ::
  "'a circular_deque \<Rightarrow> nat \<Rightarrow> iter \<Rightarrow> iter \<Rightarrow> 'a circular_deque option" where
  "shift_right d insert_begin src dest =
     (if index src = insert_begin then Some d
      else do {
        src' \<leftarrow> Decrement d src;
        dest' \<leftarrow> Decrement d dest;
        buf \<leftarrow> move_cell (index src') (index dest') (buffer d);
        shift_right (d\<lparr>buffer := buf\<rparr>) insert_begin src' dest'
      })"

definition MakeRoomFor :: "nat \<Rightarrow> iter \<Rightarrow> 'a circular_deque \<Rightarrow> ('a circular_deque \<times> iter \<times> iter) option" where
  "MakeRoomFor cnt insert_begin d =
     (if cnt = 0 then Some (d, insert_begin, insert_begin)
      else do {
        let begin_offset = OffsetFromBegin d (index insert_begin);
        d1 \<leftarrow> ExpandCapacityIfNecessary cnt d;
        let ib = (begin_at d1 + begin_offset) mod cap d1;
        let ie = (ib + cnt) mod cap d1;
        let src = dq_end d1;
        let d2 = d1\<lparr>end_at := (end_at d1 + cnt) mod cap d1\<rparr>;
        d3 \<leftarrow> shift_right d2 ib src (dq_end d2);
        Some (d3, insert_begin\<lparr>index := ib\<rparr>, \<lparr>index = ie, created_generation = generation d1\<rparr>)
      })"

partial_function (option) fill_n ::
  "'a arg \<Rightarrow> iter \<Rightarrow> iter \<Rightarrow> 'a circular_deque \<Rightarrow> 'a circular_deque option" where
  "fill_n a cur stop d =
     (if it_less d cur stop then do {
        v \<leftarrow> eval_arg d a;
        buf \<leftarrow> construct (index cur) v (buffer d);
        let d1 = d\<lparr>buffer := buf\<rparr>;
        cur' \<leftarrow> Increment d1 cur;
        fill_n a cur' stop d1
      }
      else Some d)"

partial_function (option) fill_range ::
  "'a list \<Rightarrow> iter \<Rightarrow> iter \<Rightarrow> 'a circular_deque \<Rightarrow> 'a circular_deque option" where
  "fill_range xs cur stop d =
     (if it_less d cur stop
      then (case xs of
              [] \<Rightarrow> None
            | x # xs' \<Rightarrow> do {
                buf \<leftarrow> construct (index cur) x (buffer d);
                let d1 = d\<lparr>buffer := buf\<rparr>;
                cur' \<leftarrow> Increment d1 cur;
                fill_range xs' cur' stop d1
              })
      else Some d)"

definition insert_n :: "iter \<Rightarrow> nat \<Rightarrow> 'a arg \<Rightarrow> 'a circular_deque \<Rightarrow> 'a circular_deque option" where
  "insert_n pos cnt a d =
     (if \<not> CheckUnstableUsage d pos then None
      else if index pos = begin_at d
      then Option.bind (ExpandCapacityIfNecessary cnt d) (repeat_op cnt (push_front a))
      else do {
        (d1, cur, stop) \<leftarrow> MakeRoomFor cnt pos d;
        d2 \<leftarrow> fill_n a cur stop d1;
        Some (IncrementGeneration d2)
      })"

definition insert_range :: "iter \<Rightarrow> 'a list \<Rightarrow> 'a circular_deque \<Rightarrow> 'a circular_deque option" where
  "insert_range pos xs d =
     (if \<not> CheckUnstableUsage d pos then None
      else (let inserted_items = length xs in
        if inserted_items = 0 then Some d
        else do {
          (d1, cur, stop) \<leftarrow>
            (if index pos = begin_at d
             then do {
               d0 \<leftarrow> ExpandCapacityIfNecessary inserted_items d;
               let stop = dq_begin d0;
               let d0' = d0\<lparr>begin_at := (begin_at d0 + cap d0 - inserted_items) mod cap d0\<rparr>;
               Some (d0', dq_begin d0', stop)
             }
             else MakeRoomFor inserted_items pos d);
          d2 \<leftarrow> fill_range xs cur stop d1;
          Some (IncrementGeneration d2)
        }))"

definition emplace :: "iter \<Rightarrow> 'a arg \<Rightarrow> 'a circular_deque \<Rightarrow> ('a circular_deque \<times> iter) option" where
  "emplace pos a d =
     (if \<not> CheckUnstableUsage d pos then None
      else if index pos = begin_at d then do {
        d1 \<leftarrow> emplace_front a d;
        Some (d1, dq_begin d1)
      }
      else do {
        let d1 = IncrementGeneration d;
        (d2, insert_begin, _) \<leftarrow> MakeRoomFor 1 \<lparr>index = index pos, created_generation = generation d1\<rparr> d1;
        v \<leftarrow> eval_arg d2 a;
        buf \<leftarrow> construct (index insert_begin) v (buffer d2);
        Some (d2\<lparr>buffer := buf\<rparr>, insert_begin)
      })"

definition insert_one :: "iter \<Rightarrow> 'a arg \<Rightarrow> 'a circular_deque \<Rightarrow> ('a circular_deque \<times> iter) option" where
  "insert_one pos a d = emplace pos a d"

partial_function (option) shift_left ::
  "'a circular_deque \<Rightarrow> iter \<Rightarrow> iter \<Rightarrow> iter \<Rightarrow> ('a circular_deque \<times> iter) option" where
  "shift_left d move_src move_src_end move_dest =
     (if it_less d move_src move_src_end then do {
        buf \<leftarrow> move_cell (index move_src) (index move_dest) (buffer d);
        let d1 = d\<lparr>buffer := buf\<rparr>;
        src' \<leftarrow> Increment d1 move_src;
        dest' \<leftarrow> Increment d1 move_dest;
        shift_left d1 src' move_src_end dest'
      }
      else Some (d, move_dest))"

text \<open>\<open>erase\<close> destroys the erased objects, then moves what follows them.\<close>

definition erase_destroy :: "nat \<Rightarrow> nat \<Rightarrow> 'a circular_deque \<Rightarrow> 'a circular_deque option" where
  "erase_destroy first stop d =
     (if first < stop
      then do { buf \<leftarrow> VB_DestructRange first stop (buffer d); Some (d\<lparr>buffer := buf\<rparr>) }
      else do {
        buf1 \<leftarrow> VB_DestructRange first (cap d) (buffer d);
        buf2 \<leftarrow> VB_DestructRange 0 stop buf1;
        Some (d\<lparr>buffer := buf2\<rparr>)
      })"

definition erase_close :: "nat \<Rightarrow> nat \<Rightarrow> 'a circular_deque \<Rightarrow> ('a circular_deque \<times> iter) option" where
  "erase_close first stop d =
     (let it = (\<lambda>i. \<lparr>index = i, created_generation = generation d\<rparr>) in
      if first = begin_at d then Some (d\<lparr>begin_at := stop\<rparr>, it stop)
      else do {
        (d1, move_dest) \<leftarrow> shift_left d (it stop) (dq_end d) (it first);
        Some (d1\<lparr>end_at := index move_dest\<rparr>, it first)
      })"

definition erase_range :: "iter \<Rightarrow> iter \<Rightarrow> 'a circular_deque \<Rightarrow> ('a circular_deque \<times> iter) option" where
  "erase_range first stop d =
     (if \<not> (CheckUnstableUsage d first \<and> CheckUnstableUsage d stop) then None
      else (let d1 = IncrementGeneration d in
        if index first = index stop
        then Some (d1, \<lparr>index = index first, created_generation = generation d1\<rparr>)
        else Option.bind (erase_destroy (index first) (index stop) d1) (erase_close (index first) (index stop))))"

definition erase_one :: "iter \<Rightarrow> 'a circular_deque \<Rightarrow> ('a circular_deque \<times> iter) option" where
  "erase_one pos d = do {
     pos' \<leftarrow> it_Add d 1 pos;
     erase_range pos pos' d
   }"

text \<open>
  \<open>Erase\<close> and \<open>EraseIf\<close>.  \<open>std::remove_if\<close> assigns each element that stays to the place after
  the last one that stays; an object that has been moved from keeps its value here, and is erased in the end.
\<close>

definition it_assign :: "iter \<Rightarrow> 'a \<Rightarrow> 'a circular_deque \<Rightarrow> 'a circular_deque option" where
  "it_assign it v d = (case it_deref d it of None \<Rightarrow> None | Some _ \<Rightarrow> Some (d\<lparr>buffer := (buffer d)[index it := Some v]\<rparr>))"

partial_function (option) remove_if ::
  "('a \<Rightarrow> bool) \<Rightarrow> iter \<Rightarrow> iter \<Rightarrow> iter \<Rightarrow> 'a circular_deque \<Rightarrow> ('a circular_deque \<times> iter) option" where
  "remove_if pred cur stop res d =
     (if index cur = index stop then Some (d, res)
      else do {
        v \<leftarrow> it_deref d cur;
        cur' \<leftarrow> Increment d cur;
        if pred v then remove_if pred cur' stop res d
        else do {
          d1 \<leftarrow> it_assign res v d;
          res' \<leftarrow> Increment d1 res;
          remove_if pred cur' stop res' d1
        }
      })"

definition EraseIf :: "('a \<Rightarrow> bool) \<Rightarrow> 'a circular_deque \<Rightarrow> 'a circular_deque option" where
  "EraseIf pred d = do {
     (d1, res) \<leftarrow> remove_if pred (dq_begin d) (dq_end d) (dq_begin d) d;
     (d2, _) \<leftarrow> erase_range res (dq_end d1) d1;
     Some d2
   }"

definition Erase :: "'a \<Rightarrow> 'a circular_deque \<Rightarrow> 'a circular_deque option" where
  "Erase v d = EraseIf (\<lambda>x. x = v) d"

section \<open>Logical cells\<close>

text \<open>
  A buffer of \<open>c\<close> cells that starts at \<open>b\<close> is a rotation of its logical cells: \<open>off\<close> turns an index
  of the buffer into an offset from \<open>b\<close>, and \<open>idx\<close> an offset into an index.
\<close>

definition off :: "nat \<Rightarrow> nat \<Rightarrow> nat \<Rightarrow> nat" where
  "off c b i = (if b \<le> i then i - b else c - b + i)"

definition idx :: "nat \<Rightarrow> nat \<Rightarrow> nat \<Rightarrow> nat" where
  "idx c b k = (if b + k < c then b + k else b + k - c)"

definition rot :: "nat \<Rightarrow> 'a list \<Rightarrow> 'a list" where
  "rot b L = map (\<lambda>i. L ! off (length L) b i) [0..<length L]"

lemma idx_less: "b < c \<Longrightarrow> k \<le> c \<Longrightarrow> idx c b k < c"
  by (auto simp: idx_def)

lemma off_less: "b < c \<Longrightarrow> i < c \<Longrightarrow> off c b i < c"
  by (auto simp: off_def)

lemma off_idx [simp]: "b < c \<Longrightarrow> k < c \<Longrightarrow> off c b (idx c b k) = k"
  by (auto simp: off_def idx_def)

lemma idx_off [simp]: "b < c \<Longrightarrow> i < c \<Longrightarrow> idx c b (off c b i) = i"
  by (auto simp: off_def idx_def)

lemma idx_eq_iff: "b < c \<Longrightarrow> k < c \<Longrightarrow> m < c \<Longrightarrow> idx c b k = idx c b m \<longleftrightarrow> k = m"
  by (metis off_idx)

lemma idx_0 [simp]: "b < c \<Longrightarrow> idx c b 0 = b"
  by (simp add: idx_def)

lemma mod_once: "x < 2 * c \<Longrightarrow> x mod c = (if x < c then x else x - c)" for x c :: nat
  by (simp add: le_mod_geq)

lemma idx_mod: "b < c \<Longrightarrow> k \<le> c \<Longrightarrow> (b + k) mod c = idx c b k"
  by (simp add: idx_def mod_once)

lemma idx_idx: "b < c \<Longrightarrow> k + m \<le> c \<Longrightarrow> idx c (idx c b k) m = idx c b (k + m)"
  by (auto simp: idx_def)

lemma length_rot [simp]: "length (rot b L) = length L"
  by (simp add: rot_def)

lemma rot_nth: "b < length L \<Longrightarrow> k < length L \<Longrightarrow> rot b L ! idx (length L) b k = L ! k"
  by (simp add: rot_def idx_less)

lemma rot_nth_off: "i < length L \<Longrightarrow> rot b L ! i = L ! off (length L) b i"
  by (simp add: rot_def)

lemma rot_update:
  assumes "b < length L" and "k < length L"
  shows "(rot b L)[idx (length L) b k := x] = rot b (L[k := x])"
proof (rule nth_equalityI)
  fix i assume "i < length ((rot b L)[idx (length L) b k := x])"
  then have i: "i < length L" by simp
  have "idx (length L) b k = i \<longleftrightarrow> k = off (length L) b i"
    using assms i by (metis idx_off off_idx)
  then show "(rot b L)[idx (length L) b k := x] ! i = rot b (L[k := x]) ! i"
    using assms i by (simp add: rot_nth_off nth_list_update off_less)
qed simp

lemma rot_0 [simp]: "rot 0 L = L"
  by (rule nth_equalityI) (simp_all add: rot_nth_off off_def)

lemma rot_rotate:
  assumes "b < length L" and "k \<le> length L"
  shows "rot b L = rot (idx (length L) b k) (rotate k L)"
proof (rule nth_equalityI)
  fix i assume "i < length (rot b L)"
  then have i: "i < length L" by simp
  let ?b = "idx (length L) b k"
  have "off (length L) ?b i < length L" by (rule off_less [OF idx_less [OF assms] i])
  then have "(k + off (length L) ?b i) mod length L = off (length L) b i"
    using assms i by (simp add: mod_once) (auto simp: off_def idx_def split: if_splits)
  then show "rot b L ! i = rot (idx (length L) b k) (rotate k L) ! i"
    using assms i off_less [OF idx_less [OF assms] i] by (simp add: rot_nth_off nth_rotate)
qed simp

definition clear_cells :: "nat \<Rightarrow> nat \<Rightarrow> 'a option list \<Rightarrow> 'a option list" where
  "clear_cells k n L = take k L @ replicate n None @ drop (k + n) L"

lemma length_clear_cells [simp]: "k + n \<le> length L \<Longrightarrow> length (clear_cells k n L) = length L"
  by (simp add: clear_cells_def)

lemma clear_cells_0 [simp]: "clear_cells k 0 L = L"
  by (simp add: clear_cells_def)

lemma clear_cells_Suc: "k < length L \<Longrightarrow> clear_cells (Suc k) n (L[k := None]) = clear_cells k (Suc n) L"
  by (simp add: clear_cells_def take_Suc_conv_app_nth)

lemma clear_cells_add:
  "k + n + m \<le> length L \<Longrightarrow> clear_cells (k + n) m (clear_cells k n L) = clear_cells k (n + m) L"
  by (simp add: clear_cells_def replicate_add add.assoc) (simp add: ac_simps)

lemma destruct_cells_rot:
  assumes "b < length L" and "k + n \<le> length L" and "idx (length L) b k + n \<le> length L"
    and "\<forall>m. k \<le> m \<and> m < k + n \<longrightarrow> L ! m \<noteq> None"
  shows "destruct_cells n (idx (length L) b k) (rot b L) = Some (rot b (clear_cells k n L))"
  using assms
proof (induction n arbitrary: k L)
  case (Suc n)
  let ?c = "length L"
  have k: "k < ?c" using Suc.prems by simp
  show ?case
  proof (cases n)
    case 0
    then show ?thesis
      using Suc.prems k clear_cells_Suc [OF k, of 0] by (auto simp: rot_nth rot_update idx_less)
  next
    case (Suc n')
    then have "Suc (idx ?c b k) = idx ?c b (Suc k)" using Suc.prems by (auto simp: idx_def split: if_splits)
    then show ?thesis
      using Suc.IH [of "L[k := None]" "Suc k"] Suc.prems k clear_cells_Suc [OF k, of n]
      by (auto simp: rot_nth rot_update idx_less)
  qed
qed simp

lemma move_cells_rot:
  assumes "b < length L" and "k + n \<le> length L" and "idx (length L) b k + n \<le> length L"
    and "\<forall>m. k \<le> m \<and> m < k + n \<longrightarrow> L ! m \<noteq> None"
    and "j + n \<le> length T" and "\<forall>m. j \<le> m \<and> m < j + n \<longrightarrow> T ! m = None"
  shows "move_cells n (idx (length L) b k) (rot b L) j T =
           Some (rot b (clear_cells k n L), take j T @ take n (drop k L) @ drop (j + n) T)"
  using assms
proof (induction n arbitrary: k L j T)
  case (Suc n)
  let ?c = "length L" and ?T = "T[j := L ! k]"
  have k: "k < ?c" and j: "j < length T" using Suc.prems by auto
  have T: "take (Suc j) ?T @ take n (drop (Suc k) L) @ drop (Suc j + n) ?T
      = take j T @ take (Suc n) (drop k L) @ drop (j + Suc n) T"
    using k j by (simp add: take_Suc_conv_app_nth Cons_nth_drop_Suc [symmetric])
  show ?case
  proof (cases n)
    case 0
    have "T[j := L ! k] = take j T @ take (Suc 0) (drop k L) @ drop (Suc j) T"
      using k j by (simp add: upd_conv_take_nth_drop Cons_nth_drop_Suc [symmetric])
    with 0 show ?thesis
      using Suc.prems k j clear_cells_Suc [OF k, of 0] by (auto simp: rot_nth rot_update idx_less)
  next
    case (Suc n')
    then have i: "Suc (idx ?c b k) = idx ?c b (Suc k)" using Suc.prems by (auto simp: idx_def split: if_splits)
    have "move_cells n (idx ?c b (Suc k)) (rot b (L[k := None])) (Suc j) ?T =
        Some (rot b (clear_cells k (Suc n) L), take (Suc j) ?T @ take n (drop (Suc k) L) @ drop (Suc j + n) ?T)"
      using Suc.IH [of "L[k := None]" "Suc k" "Suc j" ?T] Suc.prems k j clear_cells_Suc [OF k, of n] i by auto
    then show ?thesis
      using Suc.prems k j i T by (auto simp: rot_nth rot_update idx_less)
  qed
qed simp

section \<open>The contents of a deque\<close>

definition cells :: "nat \<Rightarrow> 'a list \<Rightarrow> 'a option list" where
  "cells c xs = map Some xs @ replicate (c - length xs) None"

lemma length_cells [simp]: "length xs \<le> c \<Longrightarrow> length (cells c xs) = c"
  by (simp add: cells_def)

lemma cells_nth: "length xs \<le> c \<Longrightarrow> k < c \<Longrightarrow> cells c xs ! k = (if k < length xs then Some (xs ! k) else None)"
  by (simp add: cells_def nth_append)

definition lay :: "nat \<Rightarrow> 'a circular_deque \<Rightarrow> 'a list \<Rightarrow> bool" where
  "lay c d xs \<longleftrightarrow> begin_at d < c \<and> length xs < c \<and> end_at d = idx c (begin_at d) (length xs) \<and>
     buffer d = rot (begin_at d) (cells c xs)"

definition reps :: "'a circular_deque \<Rightarrow> 'a list \<Rightarrow> bool" where
  "reps d xs \<longleftrightarrow> (xs = [] \<and> buffer d = [] \<and> begin_at d = end_at d) \<or> (\<exists>c. lay c d xs)"

lemma layD:
  assumes "lay c d xs"
  shows "begin_at d < c" "length xs < c" "end_at d = idx c (begin_at d) (length xs)"
    "buffer d = rot (begin_at d) (cells c xs)" "cap d = c"
  using assms by (simp_all add: lay_def)

lemma reps_cases:
  assumes "reps d xs"
  obtains "xs = []" "buffer d = []" "begin_at d = end_at d" | c where "lay c d xs"
  using assms by (auto simp: reps_def)

lemma lay_reps: "lay c d xs \<Longrightarrow> reps d xs"
  by (auto simp: reps_def)

lemma lay_size: "lay c d xs \<Longrightarrow> dq_size d = length xs"
  by (auto simp: lay_def dq_size_def idx_def split: if_splits)

lemma reps_size: "reps d xs \<Longrightarrow> dq_size d = length xs"
  by (auto elim!: reps_cases simp: lay_size) (simp add: dq_size_def)

lemma reps_empty: "reps d xs \<Longrightarrow> dq_empty d \<longleftrightarrow> xs = []"
  by (auto elim!: reps_cases simp: dq_empty_def lay_def idx_def split: if_splits)

lemma lay_generation [simp]: "lay c (d\<lparr>generation := g\<rparr>) xs = lay c d xs"
  by (simp add: lay_def)

lemma lay_block [simp]: "lay c (d\<lparr>block := g\<rparr>) xs = lay c d xs"
  by (simp add: lay_def)

lemma lay_IncrementGeneration [simp]: "lay c (IncrementGeneration d) xs = lay c d xs"
  by (simp add: IncrementGeneration_def)

lemma reps_block [simp]: "reps (d\<lparr>block := g\<rparr>) xs = reps d xs"
  by (simp add: reps_def)

lemma reps_IncrementGeneration [simp]: "reps (IncrementGeneration d) xs = reps d xs"
  by (simp add: reps_def) (simp add: IncrementGeneration_def)

lemma reps_new: "reps new_circular_deque []"
  by (simp add: reps_def new_circular_deque_def)

lemma move_part:
  assumes b: "b < c" and n: "length xs < c" "length xs \<le> n" and km: "k + m \<le> length xs" "idx c b k + m \<le> c"
  shows "move_cells m (idx c b k) (rot b (clear_cells 0 k (cells c xs))) k (cells n (take k xs)) =
           Some (rot b (clear_cells 0 (k + m) (cells c xs)), cells n (take (k + m) xs))"
proof -
  let ?L = "clear_cells 0 k (cells c xs)" and ?T = "cells n (take k xs)"
  have L: "length ?L = c" using n km by simp
  have "?L ! i = cells c xs ! i" if "k \<le> i" "i < c" for i
    using that n by (simp add: clear_cells_def nth_append)
  then have 1: "\<forall>i. k \<le> i \<and> i < k + m \<longrightarrow> ?L ! i \<noteq> None"
    using n km by (auto simp: cells_nth)
  have 2: "\<forall>i. k \<le> i \<and> i < k + m \<longrightarrow> ?T ! i = None"
    using n km by (auto simp: cells_nth)
  have d: "take m (drop k ?L) = map Some (take m (drop k xs))"
    using n km by (simp add: clear_cells_def cells_def drop_map take_map)
  have "take k ?T @ take m (drop k ?L) @ drop (k + m) ?T = cells n (take (k + m) xs)"
    unfolding d using n km by (simp add: cells_def take_add)
  moreover have "clear_cells k m ?L = clear_cells 0 (k + m) (cells c xs)"
    using clear_cells_add [of 0 k m "cells c xs"] n km by simp
  ultimately show ?thesis
    using move_cells_rot [of b ?L k m k ?T, OF _ _ _ 1 _ 2] L b n km by simp
qed

lemma MoveBuffer_reps:
  assumes r: "reps d xs" and n: "length xs < n"
  shows "MoveBuffer (buffer d) (begin_at d) (end_at d) (replicate n None) = Some (cells n xs, 0, length xs)"
proof (cases "begin_at d = end_at d")
  case True
  then show ?thesis using reps_empty [OF r] by (simp add: MoveBuffer_def dq_empty_def cells_def)
next
  case False
  then obtain c where "lay c d xs" using r by (auto elim: reps_cases)
  note l = layD [OF this]
  let ?b = "begin_at d" and ?L = "cells c xs"
  have T0: "replicate n None = cells n (take 0 xs)" by (simp add: cells_def)
  note part = move_part [OF l(1,2), of n]
  show ?thesis
  proof (cases "?b < end_at d")
    case True
    then have e: "end_at d - ?b = length xs" "?b + length xs \<le> c" using l by (auto simp: idx_def split: if_splits)
    have "move_cells (length xs) ?b (buffer d) 0 (replicate n None) =
        Some (rot ?b (clear_cells 0 (length xs) ?L), cells n xs)"
      using part [of 0 "length xs"] n e l(1) unfolding T0 l(4) by simp
    then show ?thesis using True e by (simp add: MoveBuffer_def)
  next
    case nb: False
    then have wrap: "end_at d < ?b" and e: "c - ?b + end_at d = length xs"
      using False l by (auto simp: idx_def split: if_splits)
    let ?r = "c - ?b"
    have "move_cells ?r ?b (buffer d) 0 (replicate n None) = Some (rot ?b (clear_cells 0 ?r ?L), cells n (take ?r xs))"
      using part [of 0 ?r] n e l(1) unfolding T0 l(4) by simp
    moreover have "move_cells (end_at d) 0 (rot ?b (clear_cells 0 ?r ?L)) ?r (cells n (take ?r xs)) =
        Some (rot ?b (clear_cells 0 (length xs) ?L), cells n xs)"
      using part [of ?r "end_at d"] n e wrap l(1) by (simp add: idx_def)
    ultimately show ?thesis using nb wrap e l(5) by (simp add: MoveBuffer_def)
  qed
qed

lemma reps_SetCapacityTo:
  assumes "reps d xs" and "length xs \<le> n"
  shows "\<exists>d'. SetCapacityTo n d = Some d' \<and> lay (n + 1) d' xs \<and> begin_at d' = 0 \<and>
           generation d' = generation d \<and> block d' = Suc (block d)"
  using MoveBuffer_reps [OF assms(1), of "n + 1"] assms(2)
  by (simp add: SetCapacityTo_def new_VectorBuffer_def lay_def idx_def)

lemma dq_capacity_lay: "lay c d xs \<Longrightarrow> dq_capacity d = c - 1"
  by (simp add: dq_capacity_def layD(5))

lemma reps_capacity:
  assumes "reps d xs" and "length xs + k \<le> dq_capacity d" and "0 < k"
  shows "\<exists>c. lay c d xs \<and> length xs + k < c"
  using assms(1)
proof (cases rule: reps_cases)
  case 1
  then show ?thesis using assms(2,3) by (simp add: dq_capacity_def)
next
  case (2 c)
  then have "length xs + k < c" using assms(2) layD(2) [OF 2] by (simp add: dq_capacity_lay)
  with 2 show ?thesis by blast
qed

lemma reps_Expand:
  assumes r: "reps d xs" and k: "0 < k"
  shows "\<exists>d' c. ExpandCapacityIfNecessary k d = Some d' \<and> lay c d' xs \<and> length xs + k < c \<and>
           generation d' = generation d \<and> (d' = d \<or> block d' = Suc (block d))"
proof (cases "length xs + k \<le> dq_capacity d")
  case True
  then show ?thesis
    using reps_capacity [OF r True k] by (auto simp: ExpandCapacityIfNecessary_def reps_size [OF r])
next
  case False
  define n where "n = max (max (length xs + k) kCircularBufferInitialCapacity) (dq_capacity d + dq_capacity d div 4)"
  have n: "length xs + k \<le> n" by (simp add: n_def)
  then obtain d' where "SetCapacityTo n d = Some d'" "lay (n + 1) d' xs" "generation d' = generation d" "block d' = Suc (block d)"
    using reps_SetCapacityTo [OF r, of n] by auto
  moreover have "ExpandCapacityIfNecessary k d = SetCapacityTo n d"
    using False by (simp add: ExpandCapacityIfNecessary_def reps_size [OF r] n_def)
  ultimately show ?thesis using n by (metis add.commute le_imp_less_Suc plus_1_eq_Suc)
qed

lemma reps_Expand_any:
  assumes "reps d xs"
  shows "\<exists>d'. ExpandCapacityIfNecessary k d = Some d' \<and> reps d' xs \<and> generation d' = generation d"
proof (cases k)
  case 0
  have "length xs \<le> dq_capacity d"
    using assms by (cases rule: reps_cases) (auto simp: dq_capacity_lay dest: layD(2))
  with 0 show ?thesis using assms by (simp add: ExpandCapacityIfNecessary_def reps_size)
next
  case (Suc n)
  then show ?thesis using reps_Expand [OF assms, of k] lay_reps by fastforce
qed

lemma reps_Shrink:
  assumes r: "reps d xs"
  shows "\<exists>d'. ShrinkCapacityIfNecessary d = Some d' \<and> reps d' xs \<and> generation d' = generation d"
proof -
  let ?n = "max kCircularBufferInitialCapacity (length xs + length xs div 4)"
  obtain d' where "SetCapacityTo ?n d = Some d'" "reps d' xs" "generation d' = generation d"
    using reps_SetCapacityTo [OF r, of ?n] lay_reps by fastforce
  then show ?thesis
    using r by (auto simp: ShrinkCapacityIfNecessary_def reps_size [OF r] Let_def)
qed

lemma reps_reserve: "reps d xs \<Longrightarrow> \<exists>d'. reserve n d = Some d' \<and> reps d' xs \<and> n \<le> dq_capacity d'"
proof (cases "dq_capacity d < n")
  case True
  assume r: "reps d xs"
  have "length xs \<le> dq_capacity d"
    using r by (cases rule: reps_cases) (auto simp: dq_capacity_lay dest: layD(2))
  then obtain d' where "SetCapacityTo n d = Some d'" "lay (n + 1) d' xs"
    using reps_SetCapacityTo [OF r, of n] True by auto
  then show ?thesis using True by (auto simp: reserve_def lay_reps dq_capacity_lay)
qed (auto simp: reserve_def)

lemma reps_shrink_to_fit: "reps d xs \<Longrightarrow> \<exists>d'. shrink_to_fit d = Some d' \<and> reps d' xs \<and> dq_capacity d' = length xs"
proof (cases "xs = []")
  case True
  assume r: "reps d xs"
  then show ?thesis
    using True reps_empty [OF r] by (auto simp: shrink_to_fit_def reps_def dq_empty_def dq_capacity_def)
next
  case False
  assume r: "reps d xs"
  then obtain d' where "SetCapacityTo (length xs) d = Some d'" "lay (length xs + 1) d' xs"
    using reps_SetCapacityTo [OF r, of "length xs"] by auto
  then show ?thesis
    using False by (auto simp: shrink_to_fit_def reps_empty [OF r] reps_size [OF r] lay_reps dq_capacity_lay)
qed

section \<open>Gaps\<close>

text \<open>The logical cells with a gap of \<open>k\<close> raw cells after the first \<open>p\<close> elements.\<close>

definition gap :: "nat \<Rightarrow> 'a list \<Rightarrow> nat \<Rightarrow> nat \<Rightarrow> 'a option list" where
  "gap c xs p k = map Some (take p xs) @ replicate k None @ map Some (drop p xs) @ replicate (c - length xs - k) None"

lemma length_gap [simp]: "length xs + k \<le> c \<Longrightarrow> length (gap c xs p k) = c"
  by (simp add: gap_def min_def)

lemma gap_nth:
  "p \<le> length xs \<Longrightarrow> length xs + k \<le> c \<Longrightarrow> i < c \<Longrightarrow>
     gap c xs p k ! i = (if i < p then Some (xs ! i) else if i < p + k then None
                         else if i < length xs + k then Some (xs ! (i - k)) else None)"
  by (auto simp: gap_def nth_append)

lemma gap_0 [simp]: "gap c xs p 0 = cells c xs"
  by (simp add: gap_def cells_def flip: map_append)

lemma gap_end [simp]: "length xs + k \<le> c \<Longrightarrow> gap c xs (length xs) k = cells c xs"
  by (simp add: gap_def cells_def flip: replicate_add)

lemma gap_step_right:
  assumes "s < length xs" and "0 < k" and "length xs + k \<le> c"
  shows "(gap c xs (Suc s) k)[s + k := gap c xs (Suc s) k ! s, s := None] = gap c xs s k"
  using assms by (intro nth_equalityI) (auto simp: gap_nth nth_list_update)

lemma gap_step_left:
  assumes "s < length xs" and "0 < k" and "length xs + k \<le> c"
  shows "(gap c xs s k)[s := gap c xs s k ! (s + k), s + k := None] = gap c xs (Suc s) k"
  using assms by (intro nth_equalityI) (auto simp: gap_nth nth_list_update less_Suc_eq)

lemma gap_fill:
  assumes "p \<le> length xs" and "length xs + Suc k \<le> c"
  shows "(gap c xs p (Suc k))[p := Some v] = gap c (take p xs @ v # drop p xs) (Suc p) k"
  using assms by (simp add: gap_def list_update_append)

lemma rotate_cells:
  assumes "length xs + k \<le> c"
  shows "rotate (c - k) (cells c xs) = gap c xs 0 k"
proof -
  have "cells c xs = (map Some xs @ replicate (c - length xs - k) None) @ replicate k None"
    using assms by (simp add: cells_def flip: replicate_add)
  moreover have "length (map Some xs @ replicate (c - length xs - k) None) = c - k" using assms by simp
  ultimately show ?thesis by (metis gap_def rotate_append append.left_neutral drop0 list.simps(8) take0)
qed

lemma rotate_gap:
  fixes xs :: "'a list"
  assumes "length xs + k \<le> c"
  shows "rotate k (gap c xs 0 k) = cells c xs"
proof -
  have "rotate (length (replicate k (None :: 'a option))) (replicate k None @ map Some xs @ replicate (c - length xs - k) None) =
      (map Some xs @ replicate (c - length xs - k) None) @ replicate k None"
    by (rule rotate_append)
  then show ?thesis using assms by (simp add: gap_def cells_def flip: replicate_add)
qed

text \<open>A deque whose buffer has a gap.\<close>

definition glay :: "nat \<Rightarrow> 'a circular_deque \<Rightarrow> 'a list \<Rightarrow> nat \<Rightarrow> nat \<Rightarrow> bool" where
  "glay c d xs p k \<longleftrightarrow> begin_at d < c \<and> length xs + k < c \<and> p \<le> length xs \<and>
     end_at d = idx c (begin_at d) (length xs + k) \<and> buffer d = rot (begin_at d) (gap c xs p k)"

lemma glay_lay: "p \<le> length xs \<Longrightarrow> glay c d xs p 0 = lay c d xs"
  by (simp add: glay_def lay_def)

lemma glayD:
  assumes "glay c d xs p k"
  shows "begin_at d < c" "length xs + k < c" "p \<le> length xs" "end_at d = idx c (begin_at d) (length xs + k)"
    "buffer d = rot (begin_at d) (gap c xs p k)" "cap d = c"
  using assms by (simp_all add: glay_def)

definition it_at :: "'a circular_deque \<Rightarrow> nat \<Rightarrow> iter" where
  "it_at d k = \<lparr>index = idx (cap d) (begin_at d) k, created_generation = generation d\<rparr>"

lemma index_it_at [simp]: "index (it_at d k) = idx (cap d) (begin_at d) k"
  by (simp add: it_at_def)

lemma Check_it_at [simp]: "CheckUnstableUsage d (it_at d k)"
  by (simp add: CheckUnstableUsage_def it_at_def)

lemma CheckValidIndex_iff:
  "begin_at d < cap d \<Longrightarrow> end_at d = idx (cap d) (begin_at d) n \<Longrightarrow> n < cap d \<Longrightarrow> k < cap d \<Longrightarrow>
     CheckValidIndex d (idx (cap d) (begin_at d) k) \<longleftrightarrow> k < n"
  by (auto simp: CheckValidIndex_def idx_def split: if_splits)

lemma OffsetFromBegin_idx:
  "begin_at d < cap d \<Longrightarrow> k < cap d \<Longrightarrow> OffsetFromBegin d (idx (cap d) (begin_at d) k) = k"
  using off_idx by (simp add: OffsetFromBegin_def off_def)

lemma idx_Suc: "b < c \<Longrightarrow> k < c \<Longrightarrow> (if Suc (idx c b k) = c then 0 else Suc (idx c b k)) = idx c b (Suc k)"
  by (auto simp: idx_def)

lemma idx_pred: "b < c \<Longrightarrow> k < c \<Longrightarrow> (if idx c b (Suc k) = 0 then c - 1 else idx c b (Suc k) - 1) = idx c b k"
  by (auto simp: idx_def)

lemma it_at_buffer [simp]: "length buf = cap d \<Longrightarrow> it_at (d\<lparr>buffer := buf\<rparr>) k = it_at d k"
  by (simp add: it_at_def)

lemma Increment_it_at:
  assumes "begin_at d < cap d" and "end_at d = idx (cap d) (begin_at d) n" and "n < cap d" and "k < n"
  shows "Increment d (it_at d k) = Some (it_at d (Suc k))"
proof -
  have "CheckValidIndex d (index (it_at d k))" using assms by (simp add: CheckValidIndex_iff)
  then show ?thesis
    using idx_Suc [of "begin_at d" "cap d" k] assms by (simp add: Increment_def) (auto simp: it_at_def split: if_splits)
qed

lemma Decrement_it_at:
  assumes "begin_at d < cap d" and "end_at d = idx (cap d) (begin_at d) n" and "n < cap d" and "Suc k \<le> n"
  shows "Decrement d (it_at d (Suc k)) = Some (it_at d k)"
proof -
  have "CheckValidIndexOrEnd d (index (it_at d (Suc k)))"
    using assms by (auto simp: CheckValidIndexOrEnd_def CheckValidIndex_iff le_less)
  then show ?thesis
    using idx_pred [of "begin_at d" "cap d" k] assms by (simp add: Decrement_def) (auto simp: it_at_def split: if_splits)
qed

section \<open>The operations on the contents\<close>

lemma cells_snoc:
  "Suc (length xs) \<le> c \<Longrightarrow> (cells c xs)[length xs := Some v] = cells c (xs @ [v])"
  using gap_fill [of "length xs" xs 0 c v] by simp

lemma cells_butlast:
  "Suc (length xs) \<le> c \<Longrightarrow> (cells c (xs @ [v]))[length xs := None] = cells c xs"
  by (rule nth_equalityI) (auto simp: cells_nth nth_list_update nth_append)

lemma clear_cells_take:
  "k \<le> length xs \<Longrightarrow> length xs \<le> c \<Longrightarrow> clear_cells k (length xs - k) (cells c xs) = cells c (take k xs)"
  by (simp add: clear_cells_def cells_def take_map flip: replicate_add)

lemma clear_cells_gap:
  "k + n \<le> length xs \<Longrightarrow> length xs \<le> c \<Longrightarrow>
     clear_cells k n (cells c xs) = gap c (take k xs @ drop (k + n) xs) k n"
  by (auto simp: clear_cells_def cells_def gap_def take_map drop_map min_def)

lemma destruct_split:
  assumes b: "b < c" and L: "length L = c" and n: "k + n < c" "0 < n"
    and some: "\<forall>m. k \<le> m \<and> m < k + n \<longrightarrow> L ! m \<noteq> None"
  shows "idx c b k < idx c b (k + n) \<Longrightarrow>
           VB_DestructRange (idx c b k) (idx c b (k + n)) (rot b L) = Some (rot b (clear_cells k n L))"
    and "idx c b (k + n) < idx c b k \<Longrightarrow>
           \<exists>buf. VB_DestructRange (idx c b k) c (rot b L) = Some buf \<and>
                 VB_DestructRange 0 (idx c b (k + n)) buf = Some (rot b (clear_cells k n L))"
    and "idx c b k \<noteq> idx c b (k + n)"
proof -
  show "VB_DestructRange (idx c b k) (idx c b (k + n)) (rot b L) = Some (rot b (clear_cells k n L))"
    if "idx c b k < idx c b (k + n)"
  proof -
    have "idx c b (k + n) - idx c b k = n" "idx c b k + n \<le> c" using that b n by (auto simp: idx_def split: if_splits)
    then show ?thesis using destruct_cells_rot [of b L k n] b L n some that by (simp add: VB_DestructRange_def)
  qed
  show "\<exists>buf. VB_DestructRange (idx c b k) c (rot b L) = Some buf \<and>
                 VB_DestructRange 0 (idx c b (k + n)) buf = Some (rot b (clear_cells k n L))"
    if wrap: "idx c b (k + n) < idx c b k"
  proof -
    define r e where "r = c - idx c b k" and "e = idx c b (k + n)"
    let ?L = "clear_cells k r L"
    have r: "r + e = n" "idx c b (k + r) = 0" "idx c b k + r = c"
      using wrap b n unfolding r_def e_def by (auto simp: idx_def split: if_splits)
    have L1: "length ?L = c" using L r n by simp
    have same: "?L ! m = L ! m" if "k + r \<le> m" "m < c" for m
      using that L r n by (auto simp: clear_cells_def nth_append)
    have 1: "destruct_cells r (idx c b k) (rot b L) = Some (rot b ?L)"
      using destruct_cells_rot [of b L k r] b L n some r by simp
    have "\<forall>m. k + r \<le> m \<and> m < k + r + e \<longrightarrow> ?L ! m \<noteq> None" using same some r n by simp
    then have "destruct_cells e 0 (rot b ?L) = Some (rot b (clear_cells (k + r) e ?L))"
      using destruct_cells_rot [of b ?L "k + r" e] b L1 n r idx_less [of b c "k + n"] by simp
    moreover have "clear_cells (k + r) e ?L = clear_cells k n L"
      using clear_cells_add [of k r e L] L n r by simp
    ultimately show ?thesis using 1 r by (auto simp: VB_DestructRange_def simp flip: e_def r_def)
  qed
  show "idx c b k \<noteq> idx c b (k + n)" using b n by (simp add: idx_eq_iff)
qed

lemma DestructRange_lay:
  assumes l: "lay c d xs" and k: "k \<le> length xs"
  shows "DestructRange (idx c (begin_at d) k) (end_at d) d = Some (d\<lparr>buffer := rot (begin_at d) (cells c (take k xs))\<rparr>)"
proof (cases "k = length xs")
  case True
  then show ?thesis using layD(3,4) [OF l] by (simp add: DestructRange_def)
next
  case False
  note D = layD [OF l]
  have some: "\<forall>m. k \<le> m \<and> m < k + (length xs - k) \<longrightarrow> cells c xs ! m \<noteq> None" using D(2) k by (auto simp: cells_nth)
  show ?thesis
    using destruct_split [OF D(1) _ _ _ some] clear_cells_take [OF k, of c] D k False
    by (cases "idx c (begin_at d) k < end_at d") (auto simp: DestructRange_def)
qed

lemma reps_ClearRetainCapacity:
  assumes "reps d xs"
  shows "\<exists>d'. ClearRetainCapacity d = Some d' \<and> reps d' []"
  using assms
proof (cases rule: reps_cases)
  case 1
  then show ?thesis by (simp add: ClearRetainCapacity_def DestructRange_def reps_def IncrementGeneration_def)
next
  case (2 c)
  have "rot b (cells c []) = rot 0 (cells c [])" if "b < c" for b
    using that by (intro nth_equalityI) (simp_all add: rot_nth_off off_less cells_nth)
  then have "lay c (d\<lparr>buffer := rot (begin_at d) (cells c []), begin_at := 0, end_at := 0\<rparr>) []"
    using layD [OF 2] by (simp add: lay_def idx_def)
  then show ?thesis
    using DestructRange_lay [OF 2, of 0] layD(1) [OF 2] lay_reps by (auto simp: ClearRetainCapacity_def)
qed

lemma reps_dq_clear:
  assumes "reps d xs"
  shows "\<exists>d'. dq_clear d = Some d' \<and> reps d' [] \<and> dq_capacity d' = 0"
proof -
  obtain d1 where d1: "ClearRetainCapacity d = Some d1" "reps d1 []" using reps_ClearRetainCapacity [OF assms] by blast
  then have "begin_at d1 = end_at d1" using reps_empty by (auto simp: dq_empty_def)
  then have "reps (d1\<lparr>buffer := [], block := Suc (block d1)\<rparr>) []" by (simp add: reps_def)
  then show ?thesis using d1 by (simp add: dq_clear_def dq_capacity_def)
qed

lemma lay_emplace_back:
  assumes l: "lay c d xs" and n: "length xs + 1 < c"
  shows "construct (end_at d) v (buffer d) = Some (rot (begin_at d) (cells c (xs @ [v])))"
    and "(if end_at d = cap d - 1 then 0 else end_at d + 1) = idx c (begin_at d) (Suc (length xs))"
proof -
  note D = layD [OF l]
  have L: "length (cells c xs) = c" using D by simp
  show "construct (end_at d) v (buffer d) = Some (rot (begin_at d) (cells c (xs @ [v])))"
    using rot_nth [of "begin_at d" "cells c xs" "length xs"] rot_update [of "begin_at d" "cells c xs" "length xs" "Some v"]
      cells_snoc [of xs c v] D(1-4) n idx_less [of "begin_at d" c "length xs"]
    by (simp add: construct_def cells_nth)
  show "(if end_at d = cap d - 1 then 0 else end_at d + 1) = idx c (begin_at d) (Suc (length xs))"
    using idx_Suc [OF D(1,2)] D idx_less [of "begin_at d" c "length xs"] by (auto split: if_splits)
qed

lemma reps_emplace_back:
  assumes r: "reps d xs"
  shows "\<exists>d'. emplace_back (Val v) d = Some d' \<and> reps d' (xs @ [v])"
proof -
  obtain d1 c where e: "ExpandCapacityIfNecessary (Suc 0) d = Some d1" and l: "lay c d1 xs" and n: "length xs + 1 < c"
    using reps_Expand [OF r, of "Suc 0"] by auto
  let ?d = "d1\<lparr>buffer := rot (begin_at d1) (cells c (xs @ [v])), end_at := idx c (begin_at d1) (Suc (length xs))\<rparr>"
  have "lay c ?d (xs @ [v])" using layD [OF l] n by (simp add: lay_def)
  moreover have "emplace_back (Val v) d = Some (IncrementGeneration ?d)"
    using lay_emplace_back(1) [OF l n, of v] lay_emplace_back(2) [OF l n] by (simp add: emplace_back_def e eval_arg_def)
  ultimately show ?thesis using lay_reps by fastforce
qed

lemma reps_emplace_front:
  assumes r: "reps d xs"
  shows "\<exists>d'. emplace_front (Val v) d = Some d' \<and> reps d' (v # xs)"
proof -
  obtain d1 c where e: "ExpandCapacityIfNecessary (Suc 0) d = Some d1" and l: "lay c d1 xs" and n: "length xs + 1 < c"
    using reps_Expand [OF r, of "Suc 0"] by auto
  note D = layD [OF l]
  define b where "b = idx c (begin_at d1) (c - 1)"
  have b: "(if begin_at d1 = 0 then cap d1 - 1 else begin_at d1 - 1) = b" "b < c" using D(1,5) by (auto simp: b_def idx_def)
  have "buffer d1 = rot b (gap c xs 0 1)"
    using rot_rotate [of "begin_at d1" "cells c xs" "c - 1"] rotate_cells [of xs 1 c] D n by (simp add: b_def)
  then have "construct b v (buffer d1) = Some (rot b (cells c (v # xs)))"
    using rot_nth [of b "gap c xs 0 1" 0] rot_update [of b "gap c xs 0 1" 0 "Some v"] gap_fill [of 0 xs 0 c v] b(2) n
    by (simp add: construct_def gap_nth)
  moreover have "idx c b (Suc (length xs)) = end_at d1"
    using D(1,3) n by (auto simp: b_def idx_def split: if_splits)
  ultimately have "emplace_front (Val v) d =
      Some ((IncrementGeneration (d1\<lparr>begin_at := b\<rparr>))\<lparr>buffer := rot b (cells c (v # xs))\<rparr>)"
    "lay c ((IncrementGeneration (d1\<lparr>begin_at := b\<rparr>))\<lparr>buffer := rot b (cells c (v # xs))\<rparr>) (v # xs)"
    using b(2) n by (simp_all add: emplace_front_def e eval_arg_def IncrementGeneration_def lay_def b(1))
  then show ?thesis using lay_reps by blast
qed

lemma reps_pop_front:
  assumes r: "reps d (x # xs)"
  shows "\<exists>d'. pop_front d = Some d' \<and> reps d' xs"
proof -
  obtain c where l: "lay c d (x # xs)" using r by (auto elim: reps_cases)
  note D = layD [OF l]
  let ?b = "idx c (begin_at d) (Suc 0)"
  have b: "(if Suc (begin_at d) = cap d then 0 else Suc (begin_at d)) = ?b" "?b < c" using D(1,2,5) by (auto simp: idx_def)
  have g: "(cells c (x # xs))[0 := None] = gap c xs 0 (Suc 0)" using D(2) by (simp add: cells_def gap_def)
  have "cells c (x # xs) \<noteq> []" by (simp add: cells_def)
  then have "destruct_cells (Suc 0) (begin_at d) (buffer d) = Some (rot (begin_at d) (gap c xs 0 (Suc 0)))"
    using rot_nth [of "begin_at d" "cells c (x # xs)" 0] rot_update [of "begin_at d" "cells c (x # xs)" 0 None] D(1,2,4) g
    by (simp add: cells_nth)
  also have "rot (begin_at d) (gap c xs 0 (Suc 0)) = rot ?b (cells c xs)"
    using rot_rotate [of "begin_at d" "gap c xs 0 (Suc 0)" "Suc 0"] rotate_gap [of xs "Suc 0" c] D(1,2) by simp
  finally have v: "VB_DestructRange (begin_at d) (Suc (begin_at d)) (buffer d) = Some (rot ?b (cells c xs))"
    by (simp add: VB_DestructRange_def)
  have "lay c (d\<lparr>buffer := rot ?b (cells c xs), begin_at := ?b\<rparr>) xs"
    using D(1-3) b idx_idx [of "begin_at d" c "Suc 0" "length xs"] by (simp add: lay_def)
  then obtain d1 where "ShrinkCapacityIfNecessary (d\<lparr>buffer := rot ?b (cells c xs), begin_at := ?b\<rparr>) = Some d1" "reps d1 xs"
    using reps_Shrink [OF lay_reps] by blast
  then show ?thesis
    using v by (simp add: pop_front_def reps_size [OF r] b(1))
qed

lemma reps_pop_back:
  assumes r: "reps d (xs @ [x])"
  shows "\<exists>d'. pop_back d = Some d' \<and> reps d' xs"
proof -
  obtain c where l: "lay c d (xs @ [x])" using r by (auto elim: reps_cases)
  note D = layD [OF l]
  let ?e = "idx c (begin_at d) (length xs)"
  have e: "(if end_at d = 0 then cap d - 1 else end_at d - 1) = ?e" "?e < c"
    using D idx_pred [of "begin_at d" c "length xs"] idx_less [of "begin_at d" c "length xs"] by (auto split: if_splits)
  have "destruct_cells (Suc 0) ?e (buffer d) = Some (rot (begin_at d) (cells c xs))"
    using rot_nth [of "begin_at d" "cells c (xs @ [x])" "length xs"] D(1,2,4) e(2)
      rot_update [of "begin_at d" "cells c (xs @ [x])" "length xs" None] cells_butlast [of xs c x]
    by (simp add: cells_nth)
  then have v: "VB_DestructRange ?e (Suc ?e) (buffer d) = Some (rot (begin_at d) (cells c xs))"
    by (simp add: VB_DestructRange_def)
  have "lay c (d\<lparr>buffer := rot (begin_at d) (cells c xs), end_at := ?e\<rparr>) xs" using D(1,2) by (simp add: lay_def)
  then obtain d1 where "ShrinkCapacityIfNecessary (d\<lparr>buffer := rot (begin_at d) (cells c xs), end_at := ?e\<rparr>) = Some d1" "reps d1 xs"
    using reps_Shrink [OF lay_reps] by blast
  then show ?thesis
    using v by (simp add: pop_back_def reps_size [OF r] Let_def e(1))
qed


lemma lay_deref:
  assumes l: "lay c d xs" and k: "k < length xs"
  shows "it_deref d (it_at d k) = Some (xs ! k)"
proof -
  note D = layD [OF l]
  have "CheckValidIndex d (index (it_at d k))" using D k CheckValidIndex_iff [of d "length xs" k] by simp
  moreover have "buffer d ! idx c (begin_at d) k = Some (xs ! k)"
    using rot_nth [of "begin_at d" "cells c xs" k] D(1,2,4) k by (simp add: cells_nth)
  ultimately show ?thesis using D(1,2,5) k idx_less [of "begin_at d" c k] by (simp add: it_deref_def)
qed

lemma lay_dq_end: "lay c d xs \<Longrightarrow> dq_end d = it_at d (length xs)"
  by (simp add: dq_end_def it_at_def layD(3,5))

lemma lay_dq_begin: "lay c d xs \<Longrightarrow> dq_begin d = it_at d 0"
  by (simp add: dq_begin_def it_at_def layD(1,5))

lemma reps_front_back:
  assumes "reps d xs" and "xs \<noteq> []"
  shows "dq_front d = Some (hd xs)" and "dq_back d = Some (List.last xs)"
proof -
  obtain c where l: "lay c d xs" using assms by (auto elim: reps_cases)
  note D = layD [OF l]
  show "dq_front d = Some (hd xs)"
    using rot_nth [of "begin_at d" "cells c xs" 0] D assms reps_empty [OF assms(1)]
    by (simp add: dq_front_def cells_nth hd_conv_nth)
  obtain k where k: "length xs = Suc k" using assms(2) by (cases xs) auto
  have "Decrement d (dq_end d) = Some (it_at d k)"
    using Decrement_it_at [of d "Suc k" k] D k by (simp add: lay_dq_end [OF l])
  then show "dq_back d = Some (List.last xs)"
    using lay_deref [OF l, of k] reps_empty [OF assms(1)] assms(2) k by (simp add: dq_back_def last_conv_nth)
qed

lemma lay_read_range:
  assumes l: "lay c d xs" and "k \<le> length xs"
  shows "read_range d (it_at d k) (it_at d (length xs)) = Some (drop k xs)"
  using assms(2)
proof (induction k rule: inc_induct)
  case base
  then show ?case by (subst read_range.simps) simp
next
  case (step k)
  note D = layD [OF l]
  have "idx c (begin_at d) k \<noteq> idx c (begin_at d) (length xs)" using D(1,2) step by (simp add: idx_eq_iff)
  moreover have "Increment d (it_at d k) = Some (it_at d (Suc k))"
    using Increment_it_at [of d "length xs" k] D step by simp
  ultimately show ?case
    using step lay_deref [OF l, of k] D(5) by (subst read_range.simps) (simp add: Cons_nth_drop_Suc)
qed

lemma reps_read_range:
  assumes "reps d xs"
  shows "read_range d (dq_begin d) (dq_end d) = Some xs"
  using assms
proof (cases rule: reps_cases)
  case 1
  then show ?thesis by (subst read_range.simps) (simp add: dq_begin_def dq_end_def)
next
  case (2 c)
  then show ?thesis using lay_read_range [OF 2, of 0] by (simp add: lay_dq_begin lay_dq_end)
qed

lemma reps_push_while:
  "reps d xs \<Longrightarrow> length xs \<le> n \<Longrightarrow>
     \<exists>d'. push_while (\<lambda>m. m < n) (Val v) d = Some d' \<and> reps d' (xs @ replicate (n - length xs) v)"
proof (induction "n - length xs" arbitrary: d xs)
  case 0
  then show ?case by (subst push_while.simps) (simp add: reps_size)
next
  case (Suc k)
  obtain d1 where d1: "emplace_back (Val v) d = Some d1" "reps d1 (xs @ [v])"
    using reps_emplace_back [OF Suc.prems(1)] by blast
  have "xs @ [v] @ replicate (n - length (xs @ [v])) v = xs @ replicate (n - length xs) v"
    using Suc.hyps(2) by (cases "n - length xs") auto
  then show ?case
    using Suc.hyps(1) [of "xs @ [v]" d1] Suc.hyps(2) Suc.prems d1
    by (subst push_while.simps) (auto simp: reps_size)
qed

lemma reps_resize:
  assumes r: "reps d xs"
  shows "\<exists>d'. resize n (Val v) d = Some d' \<and> reps d' (take n xs @ replicate (n - length xs) v)"
proof (cases "length xs" n rule: linorder_cases)
  case less
  obtain d0 where "ExpandCapacityIfNecessary (n - length xs) d = Some d0" "reps d0 xs"
    using reps_Expand_any [OF r] by blast
  then show ?thesis
    using less reps_push_while [of d0 xs n v] by (auto simp: resize_def reps_size [OF r])
next
  case equal
  then show ?thesis using r by (simp add: resize_def reps_size [OF r])
next
  case greater
  then obtain c where l: "lay c d xs" using r by (auto elim: reps_cases)
  note D = layD [OF l]
  let ?e = "idx c (begin_at d) n"
  have e: "(begin_at d + n) mod cap d = ?e" using D(1,2,5) greater by (simp add: idx_mod)
  have "lay c (d\<lparr>buffer := rot (begin_at d) (cells c (take n xs)), end_at := ?e\<rparr>) (take n xs)"
    using D(1,2) greater by (simp add: lay_def min_def)
  then obtain d1 where "ShrinkCapacityIfNecessary
      (d\<lparr>buffer := rot (begin_at d) (cells c (take n xs)), end_at := ?e\<rparr>) = Some d1" "reps d1 (take n xs)"
    using reps_Shrink [OF lay_reps] by blast
  then show ?thesis
    using greater DestructRange_lay [OF l, of n] by (simp add: resize_def reps_size [OF r] e)
qed

lemma reps_append_range: "reps d xs \<Longrightarrow> \<exists>d'. append_range ys d = Some d' \<and> reps d' (xs @ ys)"
proof (induction ys arbitrary: d xs)
  case (Cons y ys)
  then show ?case using reps_emplace_back [OF Cons.prems, of y] Cons.IH by fastforce
qed simp

lemma reps_repeat_back: "reps d xs \<Longrightarrow> \<exists>d'. repeat_op n (emplace_back (Val v)) d = Some d' \<and> reps d' (xs @ replicate n v)"
proof (induction n arbitrary: d xs)
  case (Suc n)
  then show ?case using reps_emplace_back [OF Suc.prems, of v] Suc.IH by fastforce
qed simp

lemma reps_repeat_front: "reps d xs \<Longrightarrow> \<exists>d'. repeat_op n (push_front (Val v)) d = Some d' \<and> reps d' (replicate n v @ xs)"
proof (induction n arbitrary: d xs)
  case (Suc n)
  obtain d1 where d1: "emplace_front (Val v) d = Some d1" "reps d1 (v # xs)"
    using reps_emplace_front [OF Suc.prems, of v] by blast
  then show ?case using Suc.IH [OF d1(2)] by (simp add: push_front_def replicate_app_Cons_same)
qed simp

lemma reps_assign_range:
  assumes "reps d xs"
  shows "\<exists>d'. assign_range ys d = Some d' \<and> reps d' ys"
proof -
  obtain d1 where "ClearRetainCapacity d = Some d1" "reps d1 []" using reps_ClearRetainCapacity [OF assms] by blast
  then show ?thesis using reps_append_range [of d1 "[]" ys] by (auto simp: assign_range_def)
qed

lemma reps_assign_n:
  assumes "reps d xs"
  shows "\<exists>d'. assign_n n (Val v) d = Some d' \<and> reps d' (replicate n v)"
proof -
  obtain d1 where d1: "ClearRetainCapacity d = Some d1" "reps d1 []" using reps_ClearRetainCapacity [OF assms] by blast
  obtain d2 where "reserve n d1 = Some d2" "reps d2 []" using reps_reserve [OF d1(2)] by blast
  then show ?thesis using d1 reps_repeat_back [of d2 "[]" n v] by (auto simp: assign_n_def)
qed

lemma reps_assign_list: "reps d xs \<Longrightarrow> \<exists>d'. assign_list ys d = Some d' \<and> reps d' ys"
  using reps_reserve [of d xs "length ys"] reps_assign_range by (fastforce simp: assign_list_def)

lemma reps_copy:
  assumes "reps d xs"
  shows "\<exists>d'. copy_circular_deque d = Some d' \<and> reps d' xs"
proof -
  have "lay (length xs + 1) (new_circular_deque\<lparr>buffer := new_VectorBuffer (length xs + 1)\<rparr>) ([] :: 'a list)"
    by (simp add: lay_def new_circular_deque_def new_VectorBuffer_def idx_def cells_def)
  then show ?thesis
    using reps_assign_range [OF lay_reps] by (simp add: copy_circular_deque_def reps_read_range [OF assms] reps_size [OF assms])
qed

lemma reps_assign_copy:
  assumes "reps other ys" and "reps d xs"
  shows "\<exists>d'. assign_copy False other d = Some d' \<and> reps d' ys"
  using reps_reserve [OF assms(2), of "dq_size other"] reps_assign_range
  by (fastforce simp: assign_copy_def reps_read_range [OF assms(1)])

lemma reps_take_over:
  "reps (d\<lparr>buffer := buffer other, begin_at := begin_at other, end_at := end_at other\<rparr>) ys = reps other ys"
  "reps (d\<lparr>buffer := [], begin_at := i, end_at := i\<rparr>) []"
  by (simp_all add: reps_def lay_def)

lemma reps_swap: "reps d xs \<Longrightarrow> reps other ys \<Longrightarrow> reps (fst (dq_swap d other)) ys \<and> reps (snd (dq_swap d other)) xs"
  by (simp add: dq_swap_def reps_take_over)

lemma reps_move: "reps d xs \<Longrightarrow> reps (fst (move_circular_deque d)) xs \<and> reps (snd (move_circular_deque d)) []"
  by (simp add: move_circular_deque_def reps_take_over)

lemma reps_assign_move:
  assumes "reps other ys" and "reps d xs"
  shows "\<exists>d' other'. assign_move False other d = Some (d', other') \<and> reps d' ys \<and> reps other' []"
  using reps_ClearRetainCapacity [OF assms(2)] assms(1) by (auto simp: assign_move_def reps_take_over)

section \<open>Shifting and filling\<close>

lemma move_cell_rot:
  assumes "b < length L" and "i < length L" and "j < length L" and "i \<noteq> j" and "L ! i \<noteq> None" and "L ! j = None"
  shows "move_cell (idx (length L) b i) (idx (length L) b j) (rot b L) = Some (rot b (L[j := L ! i, i := None]))"
proof -
  have "idx (length L) b i \<noteq> idx (length L) b j" using assms by (simp add: idx_eq_iff)
  moreover have "(rot b L)[idx (length L) b j := L ! i, idx (length L) b i := None] = rot b (L[j := L ! i, i := None])"
    using rot_update [of b L j "L ! i"] rot_update [of b "L[j := L ! i]" i None] assms by simp
  ultimately show ?thesis
    using assms by (auto simp: move_cell_def RangesOverlap_def rot_nth idx_less not_le)
qed

lemma it_less_at:
  "begin_at d < cap d \<Longrightarrow> k < cap d \<Longrightarrow> m < cap d \<Longrightarrow> it_less d (it_at d k) (it_at d m) \<longleftrightarrow> k < m"
  by (simp add: it_less_def OffsetFromBegin_idx)

lemma shift_right_glay:
  assumes "glay c d xs s k" and "0 < k" and "p \<le> s"
  shows "shift_right d (idx c (begin_at d) p) (it_at d s) (it_at d (s + k)) =
           Some (d\<lparr>buffer := rot (begin_at d) (gap c xs p k)\<rparr>)"
  using assms
proof (induction "s - p" arbitrary: s d)
  case 0
  then show ?case using glayD [of c d xs s k] by (subst shift_right.simps) simp
next
  case (Suc m)
  note G = glayD [OF Suc.prems(1)]
  obtain t where s: "s = Suc t" "p \<le> t" using Suc.hyps(2) Suc.prems(3) by (cases s) auto
  have ne: "idx c (begin_at d) s \<noteq> idx c (begin_at d) p" using G s by (simp add: idx_eq_iff)
  have dec: "Decrement d (it_at d s) = Some (it_at d t)" "Decrement d (it_at d (s + k)) = Some (it_at d (t + k))"
    using Decrement_it_at [of d "length xs + k" t] Decrement_it_at [of d "length xs + k" "t + k"] G s by simp_all
  let ?d = "d\<lparr>buffer := rot (begin_at d) (gap c xs t k)\<rparr>"
  have "move_cell (idx c (begin_at d) t) (idx c (begin_at d) (t + k)) (buffer d) = Some (rot (begin_at d) (gap c xs t k))"
    using move_cell_rot [of "begin_at d" "gap c xs s k" t "t + k"] gap_step_right [of t xs k c] G s Suc.prems(2)
    by (simp add: gap_nth)
  moreover have "shift_right ?d (idx c (begin_at d) p) (it_at d t) (it_at d (t + k)) = Some (d\<lparr>buffer := rot (begin_at d) (gap c xs p k)\<rparr>)"
  proof -
    have "glay c ?d xs t k" using Suc.prems(1) s by (simp add: glay_def)
    then show ?thesis using Suc.hyps(1) [of t ?d] Suc.hyps(2) Suc.prems(2) s G(2,6) by simp
  qed
  ultimately show ?case
    using ne dec G(6) by (subst shift_right.simps) simp
qed

lemma shift_left_glay:
  assumes "glay c d ys s k" and "0 < k"
  shows "shift_left d (it_at d (s + k)) (it_at d (length ys + k)) (it_at d s) =
           Some (d\<lparr>buffer := rot (begin_at d) (cells c ys)\<rparr>, it_at d (length ys))"
  using assms
proof (induction "length ys - s" arbitrary: s d)
  case 0
  then have s: "s = length ys" using glayD(3) by fastforce
  show ?case
    using 0 s glayD [of c d ys s k] it_less_at [of d "length ys + k" "length ys + k"] by (subst shift_left.simps) simp
next
  case (Suc m)
  note G = glayD [OF Suc.prems(1)]
  have s: "s < length ys" using Suc.hyps(2) by simp
  let ?d = "d\<lparr>buffer := rot (begin_at d) (gap c ys (Suc s) k)\<rparr>"
  have g: "glay c ?d ys (Suc s) k" using Suc.prems(1) s by (simp add: glay_def)
  note G' = glayD [OF g]
  have it: "it_at ?d n = it_at d n" for n using G(2,6) by simp
  have less: "it_less d (it_at d (s + k)) (it_at d (length ys + k))" using G s it_less_at [of d "s + k" "length ys + k"] by simp
  have "move_cell (idx c (begin_at d) (s + k)) (idx c (begin_at d) s) (buffer d) = Some (rot (begin_at d) (gap c ys (Suc s) k))"
    using move_cell_rot [of "begin_at d" "gap c ys s k" "s + k" s] gap_step_left [of s ys k c] G s Suc.prems(2)
    by (simp add: gap_nth)
  moreover have "Increment ?d (it_at d (s + k)) = Some (it_at d (Suc s + k))" "Increment ?d (it_at d s) = Some (it_at d (Suc s))"
    using Increment_it_at [of ?d "length ys + k" "s + k"] Increment_it_at [of ?d "length ys + k" s] G' s by (simp_all add: it)
  moreover have "shift_left ?d (it_at d (Suc s + k)) (it_at d (length ys + k)) (it_at d (Suc s)) =
      Some (d\<lparr>buffer := rot (begin_at d) (cells c ys)\<rparr>, it_at d (length ys))"
    using Suc.hyps(1) [of "Suc s" ?d, OF _ g Suc.prems(2)] Suc.hyps(2) by (simp add: it)
  ultimately show ?case
    using less G(6) by (subst shift_left.simps) simp
qed

lemma MakeRoomFor_lay:
  assumes l: "lay c0 d xs" and p: "p \<le> length xs" and k: "0 < k"
  shows "\<exists>d' c. MakeRoomFor k (it_at d p) d = Some (d', it_at d' p, it_at d' (p + k)) \<and> glay c d' xs p k \<and>
           generation d' = generation d"
proof -
  obtain d1 c where e: "ExpandCapacityIfNecessary k d = Some d1" and l1: "lay c d1 xs" and n: "length xs + k < c"
    and gen: "generation d1 = generation d"
    using reps_Expand [OF lay_reps [OF l] k] by auto
  note D = layD [OF l1]
  let ?b = "begin_at d1"
  have off: "OffsetFromBegin d (index (it_at d p)) = p"
    using layD(1,2,5) [OF l] p OffsetFromBegin_idx [of d p] by simp
  have ib: "(?b + p) mod c = idx c ?b p" using D(1,2) p by (simp add: idx_mod)
  then have ie: "(idx c ?b p + k) mod c = idx c ?b (p + k)"
    using D(1,2) p n idx_mod [of "idx c ?b p" c k] idx_less [of ?b c p] idx_idx [of ?b c p k] by simp
  have en: "(end_at d1 + k) mod c = idx c ?b (length xs + k)"
    using D(1-3) n idx_mod [of "end_at d1" c k] idx_less [of ?b c "length xs"] idx_idx [of ?b c "length xs" k] by simp
  let ?d2 = "d1\<lparr>end_at := idx c ?b (length xs + k)\<rparr>"
  let ?d3 = "?d2\<lparr>buffer := rot ?b (gap c xs p k)\<rparr>"
  have g: "glay c ?d2 xs (length xs) k" using D(1,4) n by (simp add: glay_def)
  have it: "dq_end d1 = it_at ?d2 (length xs)" "dq_end ?d2 = it_at ?d2 (length xs + k)"
    using D(3,5) by (simp_all add: dq_end_def it_at_def)
  have "shift_right ?d2 (idx c ?b p) (dq_end d1) (dq_end ?d2) = Some ?d3"
    using shift_right_glay [OF g k p] by (simp add: it)
  then have "MakeRoomFor k (it_at d p) d = Some (?d3, (it_at d p)\<lparr>index := idx c ?b p\<rparr>, \<lparr>index = idx c ?b (p + k), created_generation = generation d1\<rparr>)"
    using k off by (simp add: MakeRoomFor_def e D(5) ib ie en)
  moreover have "glay c ?d3 xs p k" using D(1) n p by (simp add: glay_def)
  ultimately show ?thesis
    using gen n by (intro exI [of _ ?d3] exI [of _ c]) (simp add: it_at_def)
qed

lemma fill_range_glay:
  assumes "glay c d xs p (length ys)"
  shows "\<exists>d'. fill_range ys (it_at d p) (it_at d (p + length ys)) d = Some d' \<and> lay c d' (take p xs @ ys @ drop p xs)"
  using assms
proof (induction ys arbitrary: d xs p)
  case Nil
  then show ?case
    using glayD [of c d xs p 0] it_less_at [of d p p] by (subst fill_range.simps) (simp add: glay_lay)
next
  case (Cons y ys)
  note G = glayD [OF Cons.prems]
  let ?xs = "take p xs @ y # drop p xs"
  let ?d = "d\<lparr>buffer := rot (begin_at d) (gap c ?xs (Suc p) (length ys))\<rparr>"
  have g: "glay c ?d ?xs (Suc p) (length ys)" using Cons.prems by (simp add: glay_def)
  have it: "it_at ?d n = it_at d n" for n using G by simp
  have less: "it_less d (it_at d p) (it_at d (p + length (y # ys)))" using G it_less_at [of d p "p + length (y # ys)"] by simp
  have con: "construct (idx c (begin_at d) p) y (buffer d) = Some (buffer ?d)"
    using rot_nth [of "begin_at d" "gap c xs p (Suc (length ys))" p] gap_fill [of p xs "length ys" c y] G
      rot_update [of "begin_at d" "gap c xs p (Suc (length ys))" p "Some y"] idx_less [of "begin_at d" c p]
    by (simp add: construct_def gap_nth)
  have inc: "Increment ?d (it_at d p) = Some (it_at d (Suc p))"
    using Increment_it_at [of ?d "length ?xs + length ys" p] glayD [OF g] G(3) by (simp add: it)
  obtain d' where "fill_range ys (it_at d (Suc p)) (it_at d (Suc p + length ys)) ?d = Some d'"
    "lay c d' (take (Suc p) ?xs @ ys @ drop (Suc p) ?xs)"
    using Cons.IH [OF g] by (auto simp: it)
  then show ?case
    using less con inc G(3,6) by (subst fill_range.simps) simp
qed

lemma fill_range_fill_n:
  "fill_range (replicate k v) cur stop d = Some d' \<Longrightarrow> fill_n (Val v) cur stop d = Some d'"
proof (induction k arbitrary: cur d)
  case 0
  then show ?case by (subst fill_n.simps, subst (asm) fill_range.simps) (simp split: if_splits)
next
  case (Suc k)
  show ?case
  proof (cases "it_less d cur stop")
    case True
    with Suc.prems obtain buf cur' where "construct (index cur) v (buffer d) = Some buf"
      "Increment (d\<lparr>buffer := buf\<rparr>) cur = Some cur'" "fill_range (replicate k v) cur' stop (d\<lparr>buffer := buf\<rparr>) = Some d'"
      unfolding fill_range.simps [of "replicate (Suc k) v" cur stop d] by (auto simp: bind_eq_Some_conv Let_def)
    then show ?thesis using True Suc.IH by (subst fill_n.simps) (simp add: eval_arg_def)
  next
    case False
    then show ?thesis
      using Suc.prems fill_range.simps [of "replicate (Suc k) v" cur stop d] by (subst fill_n.simps) simp
  qed
qed

lemma it_at_0:
  assumes "reps d xs"
  shows "index (it_at d 0) = begin_at d"
  using assms
proof (cases rule: reps_cases)
  case 1
  then show ?thesis by (simp add: idx_def)
next
  case (2 c)
  then show ?thesis by (simp add: layD(1,5))
qed

lemma reps_insert_n:
  assumes r: "reps d xs" and p: "p \<le> length xs"
  shows "\<exists>d'. insert_n (it_at d p) k (Val v) d = Some d' \<and> reps d' (take p xs @ replicate k v @ drop p xs)"
proof (cases "p = 0")
  case True
  then have "index (it_at d p) = begin_at d" using it_at_0 [OF r] by simp
  moreover obtain d1 where "ExpandCapacityIfNecessary k d = Some d1" "reps d1 xs" using reps_Expand_any [OF r] by blast
  ultimately show ?thesis
    using True reps_repeat_front [of d1 xs k v] by (simp add: insert_n_def del: index_it_at)
next
  case False
  then obtain c0 where l: "lay c0 d xs" using r p by (auto elim: reps_cases)
  note D = layD [OF l]
  have ne: "index (it_at d p) \<noteq> begin_at d"
    using D(1,2,5) p False idx_eq_iff [of "begin_at d" c0 p 0] by simp
  show ?thesis
  proof (cases "k = 0")
    case True
    have "fill_n (Val v) (it_at d p) (it_at d p) d = Some d" by (subst fill_n.simps) (simp add: it_less_def)
    then show ?thesis using True ne r by (simp add: insert_n_def MakeRoomFor_def del: index_it_at)
  next
    case False
    then obtain d1 c where m: "MakeRoomFor k (it_at d p) d = Some (d1, it_at d1 p, it_at d1 (p + k))" and g: "glay c d1 xs p k"
      using MakeRoomFor_lay [OF l p] by blast
    then obtain d2 where f: "fill_range (replicate k v) (it_at d1 p) (it_at d1 (p + k)) d1 = Some d2"
      "lay c d2 (take p xs @ replicate k v @ drop p xs)"
      using fill_range_glay [of c d1 xs p "replicate k v"] by auto
    then show ?thesis
      using ne m fill_range_fill_n [OF f(1)] lay_reps [OF f(2)] by (simp add: insert_n_def del: index_it_at)
  qed
qed

lemma reps_insert_range:
  assumes r: "reps d xs" and p: "p \<le> length xs"
  shows "\<exists>d'. insert_range (it_at d p) ys d = Some d' \<and> reps d' (take p xs @ ys @ drop p xs)"
proof (cases "ys = []")
  case True
  then show ?thesis using r by (simp add: insert_range_def)
next
  case ys: False
  have "\<exists>d1 c. (if index (it_at d p) = begin_at d
             then do {
               d0 \<leftarrow> ExpandCapacityIfNecessary (length ys) d;
               let stop = dq_begin d0;
               let d0' = d0\<lparr>begin_at := (begin_at d0 + cap d0 - length ys) mod cap d0\<rparr>;
               Some (d0', dq_begin d0', stop)
             }
             else MakeRoomFor (length ys) (it_at d p) d) = Some (d1, it_at d1 p, it_at d1 (p + length ys)) \<and>
      glay c d1 xs p (length ys)"
  proof (cases "p = 0")
    case True
    then have i: "index (it_at d p) = begin_at d" using it_at_0 [OF r] by simp
    obtain d0 c where e: "ExpandCapacityIfNecessary (length ys) d = Some d0" and l: "lay c d0 xs" and n: "length xs + length ys < c"
      using reps_Expand [OF r, of "length ys"] ys by auto
    note D = layD [OF l]
    let ?b = "idx c (begin_at d0) (c - length ys)"
    have b: "(begin_at d0 + c - length ys) mod c = ?b"
      using idx_mod [of "begin_at d0" c "c - length ys"] D(1) n by simp
    have ends: "idx c ?b (length ys) = begin_at d0" "idx c ?b (length xs + length ys) = end_at d0" "?b < c"
      using D(1,3) n by (auto simp: idx_def split: if_splits)
    have "glay c (d0\<lparr>begin_at := ?b\<rparr>) xs 0 (length ys)"
      using rot_rotate [of "begin_at d0" "cells c xs" "c - length ys"] rotate_cells [of xs "length ys" c] D n ends
      by (simp add: glay_def)
    then show ?thesis
      using True i e D(5) b ends(1,3) by (intro exI [of _ "d0\<lparr>begin_at := ?b\<rparr>"] exI [of _ c])
        (simp add: dq_begin_def it_at_def)
  next
    case False
    then obtain c0 where l: "lay c0 d xs" using r p by (auto elim: reps_cases)
    have "index (it_at d p) \<noteq> begin_at d"
      using layD(1,2,5) [OF l] p False idx_eq_iff [of "begin_at d" c0 p 0] by simp
    then show ?thesis using MakeRoomFor_lay [OF l p, of "length ys"] ys by (simp del: index_it_at) blast
  qed
  then show ?thesis
    using ys fill_range_glay lay_reps by (fastforce simp: insert_range_def simp del: index_it_at)
qed

lemma reps_emplace:
  assumes r: "reps d xs" and p: "p \<le> length xs"
  shows "\<exists>d'. emplace (it_at d p) (Val v) d = Some (d', it_at d' p) \<and> reps d' (take p xs @ v # drop p xs)"
proof (cases "p = 0")
  case True
  obtain d1 where d1: "emplace_front (Val v) d = Some d1" "reps d1 (v # xs)" using reps_emplace_front [OF r] by blast
  then have "dq_begin d1 = it_at d1 0" using it_at_0 [OF d1(2)] by (simp add: dq_begin_def it_at_def)
  then show ?thesis using True d1 it_at_0 [OF r] by (simp add: emplace_def del: index_it_at)
next
  case False
  then obtain c0 where l: "lay c0 d xs" using r p by (auto elim: reps_cases)
  let ?d = "IncrementGeneration d"
  have it: "\<lparr>index = index (it_at d p), created_generation = generation ?d\<rparr> = it_at ?d p"
    by (simp add: it_at_def IncrementGeneration_def)
  obtain d1 c where m: "MakeRoomFor (Suc 0) (it_at ?d p) ?d = Some (d1, it_at d1 p, it_at d1 (Suc p))" and g: "glay c d1 xs p (Suc 0)"
    using MakeRoomFor_lay [of c0 ?d xs p "Suc 0"] l p by auto
  note G = glayD [OF g]
  let ?buf = "rot (begin_at d1) (cells c (take p xs @ v # drop p xs))"
  have "construct (idx c (begin_at d1) p) v (buffer d1) = Some ?buf"
    using rot_nth [of "begin_at d1" "gap c xs p (Suc 0)" p] gap_fill [of p xs 0 c v] G
      rot_update [of "begin_at d1" "gap c xs p (Suc 0)" p "Some v"] idx_less [of "begin_at d1" c p]
    by (simp add: construct_def gap_nth)
  moreover have "index (it_at d p) \<noteq> begin_at d"
    using layD(1,2,5) [OF l] p False idx_eq_iff [of "begin_at d" c0 p 0] by simp
  ultimately have "emplace (it_at d p) (Val v) d = Some (d1\<lparr>buffer := ?buf\<rparr>, it_at d1 p)"
    using m it G(6) unfolding emplace_def by (simp add: eval_arg_def)
  moreover have "lay c (d1\<lparr>buffer := ?buf\<rparr>) (take p xs @ v # drop p xs)"
    using G by (simp add: lay_def)
  ultimately show ?thesis using lay_reps G by (intro exI [of _ "d1\<lparr>buffer := ?buf\<rparr>"]) auto
qed

lemma erase_destroy_lay:
  assumes l: "lay c d xs" and p: "p + n \<le> length xs" and n: "0 < n"
  defines "ys \<equiv> take p xs @ drop (p + n) xs"
  shows "\<exists>d'. erase_destroy (idx c (begin_at d) p) (idx c (begin_at d) (p + n)) d = Some d' \<and> glay c d' ys p n \<and>
           begin_at d' = begin_at d \<and> generation d' = generation d"
proof -
  note D = layD [OF l]
  let ?d = "d\<lparr>buffer := rot (begin_at d) (gap c ys p n)\<rparr>"
  have len: "length ys + n = length xs" "p \<le> length ys" using p by (simp_all add: ys_def)
  have some: "\<forall>m. p \<le> m \<and> m < p + n \<longrightarrow> cells c xs ! m \<noteq> None" using D(2) p by (auto simp: cells_nth)
  have clr: "clear_cells p n (cells c xs) = gap c ys p n" using clear_cells_gap [OF p, of c] D(2) by (simp add: ys_def)
  have "erase_destroy (idx c (begin_at d) p) (idx c (begin_at d) (p + n)) d = Some ?d"
    using destruct_split [OF D(1) _ _ _ some, unfolded clr] n p D(1,2,4,5)
    by (auto simp: erase_destroy_def linorder_neq_iff)
  moreover have "glay c ?d ys p n" using D(1-3) len by (simp add: glay_def)
  ultimately show ?thesis by (intro exI [of _ ?d]) simp
qed

lemma erase_close_glay:
  assumes g: "glay c d ys p n" and n: "0 < n"
  shows "\<exists>d'. erase_close (idx c (begin_at d) p) (idx c (begin_at d) (p + n)) d = Some (d', it_at d' p) \<and> lay c d' ys"
proof -
  note G = glayD [OF g]
  let ?b = "begin_at d"
  have it: "\<lparr>index = idx c ?b k, created_generation = generation d\<rparr> = it_at d k" for k
    using G(6) by (simp add: it_at_def)
  show ?thesis
  proof (cases "p = 0")
    case True
    let ?d = "d\<lparr>begin_at := idx c ?b n\<rparr>"
    have "lay c ?d ys"
      using rot_rotate [of ?b "gap c ys 0 n" n] rotate_gap [of ys n c] G True idx_idx [of ?b c n "length ys"]
      by (simp add: lay_def add.commute idx_less)
    then show ?thesis
      using True G idx_less [of ?b c n] by (intro exI [of _ ?d]) (simp add: erase_close_def it_at_def)
  next
    case False
    let ?d = "d\<lparr>buffer := rot ?b (cells c ys), end_at := idx c ?b (length ys)\<rparr>"
    have "dq_end d = it_at d (length ys + n)" using G(4,6) by (simp add: dq_end_def it_at_def)
    then have "shift_left d (it_at d (p + n)) (dq_end d) (it_at d p) = Some (d\<lparr>buffer := rot ?b (cells c ys)\<rparr>, it_at d (length ys))"
      using shift_left_glay [OF g n] by simp
    moreover have "idx c ?b p \<noteq> ?b" using G False idx_eq_iff [of ?b c p 0] by simp
    ultimately have "erase_close (idx c ?b p) (idx c ?b (p + n)) d = Some (?d, it_at d p)"
      using G(6) by (simp add: erase_close_def it)
    moreover have "lay c ?d ys" using G(1,2) by (simp add: lay_def)
    ultimately show ?thesis using G(2,6) by (intro exI [of _ ?d]) (simp add: it_at_def)
  qed
qed

lemma lay_erase_range:
  assumes l: "lay c d xs" and p: "p + n \<le> length xs"
  shows "\<exists>d'. erase_range (it_at d p) (it_at d (p + n)) d = Some (d', it_at d' p) \<and> lay c d' (take p xs @ drop (p + n) xs)"
proof (cases "n = 0")
  case True
  then show ?thesis
    using l by (intro exI [of _ "IncrementGeneration d"])
      (simp add: erase_range_def it_at_def IncrementGeneration_def CheckUnstableUsage_def)
next
  case False
  note D = layD [OF l]
  let ?d = "IncrementGeneration d"
  have b: "begin_at ?d = begin_at d" by (simp add: IncrementGeneration_def)
  obtain d1 where d1: "erase_destroy (idx c (begin_at d) p) (idx c (begin_at d) (p + n)) ?d = Some d1"
    "glay c d1 (take p xs @ drop (p + n) xs) p n" "begin_at d1 = begin_at d"
    using erase_destroy_lay [of c ?d xs p n] l p False by (auto simp: b)
  have ne: "idx c (begin_at d) p \<noteq> idx c (begin_at d) (p + n)" using D(1,2) p False by (simp add: idx_eq_iff)
  then show ?thesis
    using erase_close_glay [OF d1(2)] False d1 D(5) by (simp add: erase_range_def)
qed

lemma lay_it_assign:
  assumes l: "lay c d xs" and k: "k < length xs"
  shows "\<exists>d'. it_assign (it_at d k) v d = Some d' \<and> lay c d' (xs[k := v]) \<and> begin_at d' = begin_at d \<and>
           end_at d' = end_at d \<and> generation d' = generation d"
proof -
  note D = layD [OF l]
  let ?d = "d\<lparr>buffer := rot (begin_at d) (cells c (xs[k := v]))\<rparr>"
  have "(cells c xs)[k := Some v] = cells c (xs[k := v])" using k by (simp add: cells_def map_update list_update_append)
  then have "it_assign (it_at d k) v d = Some ?d"
    using lay_deref [OF l k] rot_update [of "begin_at d" "cells c xs" k "Some v"] D(1,2) k
    by (simp add: it_assign_def D(5)) (simp add: D(4))
  moreover have "lay c ?d (xs[k := v])" using D(1-3) by (simp add: lay_def)
  ultimately show ?thesis by (intro exI [of _ ?d]) simp
qed

lemma it_at_cong: "cap d = cap e \<Longrightarrow> begin_at d = begin_at e \<Longrightarrow> generation d = generation e \<Longrightarrow> it_at d k = it_at e k"
  by (simp add: it_at_def)

lemma lay_remove_if:
  assumes "lay c d (ys @ ms @ us)"
  shows "\<exists>d' zs. remove_if pred (it_at d (length (ys @ ms))) (it_at d (length (ys @ ms @ us))) (it_at d (length ys)) d =
             Some (d', it_at d' (length (ys @ filter (\<lambda>x. \<not> pred x) us))) \<and> lay c d' (ys @ filter (\<lambda>x. \<not> pred x) us @ zs)"
  using assms
proof (induction us arbitrary: d ys ms)
  case Nil
  then show ?case by (subst remove_if.simps) auto
next
  case (Cons u us)
  note l = Cons.prems
  note D = layD [OF l]
  let ?k = "length (ys @ ms)" and ?n = "length (ys @ ms @ u # us)"
  have ne: "index (it_at d ?k) \<noteq> index (it_at d ?n)" using D(1,2,5) by (simp add: idx_eq_iff)
  have u: "it_deref d (it_at d ?k) = Some u" using lay_deref [OF l, of ?k] by (simp add: nth_append)
  have inc: "Increment d (it_at d ?k) = Some (it_at d (Suc ?k))" using Increment_it_at [of d ?n ?k] D by simp
  show ?case
  proof (cases "pred u")
    case True
    then show ?thesis
      using Cons.IH [of d ys "ms @ [u]"] l ne u inc by (subst remove_if.simps) simp
  next
    case False
    obtain d1 where a: "it_assign (it_at d (length ys)) u d = Some d1" "lay c d1 ((ys @ ms @ u # us)[length ys := u])"
      and same: "begin_at d1 = begin_at d" "generation d1 = generation d"
      using lay_it_assign [OF l, of "length ys" u] by auto
    obtain ms' where ms': "(ys @ ms @ u # us)[length ys := u] = (ys @ [u]) @ ms' @ us" "length ms' = length ms"
      by (cases ms) (auto simp: list_update_append)
    have l1: "lay c d1 ((ys @ [u]) @ ms' @ us)" using a(2) ms'(1) by simp
    have it: "it_at d1 k = it_at d k" for k using layD(5) [OF l1] D(5) same by (intro it_at_cong) simp_all
    have "Increment d1 (it_at d (length ys)) = Some (it_at d (Suc (length ys)))"
      using Increment_it_at [of d1 ?n "length ys"] layD [OF l1] ms'(2) by (simp add: it)
    then show ?thesis
      using Cons.IH [OF l1] ne u inc a(1) False ms'(2) by (subst remove_if.simps) (simp add: it)
  qed
qed

lemma reps_EraseIf:
  assumes "reps d xs"
  shows "\<exists>d'. EraseIf pred d = Some d' \<and> reps d' (filter (\<lambda>x. \<not> pred x) xs)"
  using assms
proof (cases rule: reps_cases)
  case 1
  then have "remove_if pred (dq_begin d) (dq_end d) (dq_begin d) d = Some (d, dq_begin d)"
    by (subst remove_if.simps) (simp add: dq_begin_def dq_end_def)
  then show ?thesis
    using 1 assms by (simp add: EraseIf_def erase_range_def CheckUnstableUsage_def dq_begin_def dq_end_def Let_def)
next
  case (2 c)
  let ?ys = "filter (\<lambda>x. \<not> pred x) xs"
  obtain d1 zs where d1: "remove_if pred (dq_begin d) (dq_end d) (dq_begin d) d = Some (d1, it_at d1 (length ?ys))"
    and l: "lay c d1 (?ys @ zs)"
    using lay_remove_if [of c d "[]" "[]" xs pred] 2 by (auto simp: lay_dq_begin lay_dq_end)
  then show ?thesis
    using lay_erase_range [OF l, of "length ?ys" "length zs"] lay_reps lay_dq_end [OF l] by (auto simp: EraseIf_def)
qed

section \<open>The deque as a list\<close>

text \<open>Operations at a position go through \<open>begin() + p\<close>.\<close>

datatype 'a dq_op = PushFront 'a | PushBack 'a | PopFront | PopBack | ResizeTo nat 'a | AssignN nat 'a
  | AssignRange "'a list" | AssignList "'a list" | ClearAll | ReserveFor nat | ShrinkToFit
  | InsertN nat nat 'a | InsertRange nat "'a list" | EmplaceAt nat 'a | EraseRange nat nat | EraseAt nat | EraseWhere "'a \<Rightarrow> bool" | EraseValue 'a

definition at_pos :: "nat \<Rightarrow> 'a circular_deque \<Rightarrow> iter option" where
  "at_pos p d = it_Add d (int p) (dq_begin d)"

fun run_op :: "'a dq_op \<Rightarrow> 'a circular_deque \<Rightarrow> 'a circular_deque option" where
  "run_op (PushFront v) d = push_front (Val v) d"
| "run_op (PushBack v) d = push_back (Val v) d"
| "run_op PopFront d = pop_front d"
| "run_op PopBack d = pop_back d"
| "run_op (ResizeTo n v) d = resize n (Val v) d"
| "run_op (AssignN n v) d = assign_n n (Val v) d"
| "run_op (AssignRange xs) d = assign_range xs d"
| "run_op (AssignList xs) d = assign_list xs d"
| "run_op ClearAll d = dq_clear d"
| "run_op (ReserveFor n) d = reserve n d"
| "run_op ShrinkToFit d = shrink_to_fit d"
| "run_op (InsertN p n v) d = do { it \<leftarrow> at_pos p d; insert_n it n (Val v) d }"
| "run_op (InsertRange p xs) d = do { it \<leftarrow> at_pos p d; insert_range it xs d }"
| "run_op (EmplaceAt p v) d = do { it \<leftarrow> at_pos p d; (d', _) \<leftarrow> emplace it (Val v) d; Some d' }"
| "run_op (EraseRange p n) d = do {
     first \<leftarrow> at_pos p d; stop \<leftarrow> it_Add d (int n) first; (d', _) \<leftarrow> erase_range first stop d; Some d' }"
| "run_op (EraseAt p) d = do { it \<leftarrow> at_pos p d; (d', _) \<leftarrow> erase_one it d; Some d' }"
| "run_op (EraseWhere pred) d = EraseIf pred d"
| "run_op (EraseValue v) d = Erase v d"

fun list_op :: "'a dq_op \<Rightarrow> 'a list \<Rightarrow> 'a list option" where
  "list_op (PushFront v) xs = Some (v # xs)"
| "list_op (PushBack v) xs = Some (xs @ [v])"
| "list_op PopFront xs = (if xs = [] then None else Some (tl xs))"
| "list_op PopBack xs = (if xs = [] then None else Some (butlast xs))"
| "list_op (ResizeTo n v) xs = Some (take n xs @ replicate (n - length xs) v)"
| "list_op (AssignN n v) xs = Some (replicate n v)"
| "list_op (AssignRange ys) xs = Some ys"
| "list_op (AssignList ys) xs = Some ys"
| "list_op ClearAll xs = Some []"
| "list_op (ReserveFor n) xs = Some xs"
| "list_op ShrinkToFit xs = Some xs"
| "list_op (InsertN p n v) xs = (if p \<le> length xs then Some (take p xs @ replicate n v @ drop p xs) else None)"
| "list_op (InsertRange p ys) xs = (if p \<le> length xs then Some (take p xs @ ys @ drop p xs) else None)"
| "list_op (EmplaceAt p v) xs = (if p \<le> length xs then Some (take p xs @ v # drop p xs) else None)"
| "list_op (EraseRange p n) xs = (if p + n \<le> length xs then Some (take p xs @ drop (p + n) xs) else None)"
| "list_op (EraseAt p) xs = (if p < length xs then Some (take p xs @ drop (Suc p) xs) else None)"
| "list_op (EraseWhere pred) xs = Some (filter (\<lambda>x. \<not> pred x) xs)"
| "list_op (EraseValue v) xs = Some (filter (\<lambda>x. x \<noteq> v) xs)"

lemma it_Add_at:
  assumes r: "reps d xs" and p: "p \<le> length xs"
  shows "it_Add d (int n) (it_at d p) = (if p + n \<le> length xs then Some (it_at d (p + n)) else None)"
  using r
proof (cases rule: reps_cases)
  case 1
  then have "idx 0 (begin_at d) p = begin_at d" using p by (simp add: idx_def)
  then show ?thesis
    using 1 p reps_size [OF r] by (auto simp: it_Add_def CheckValidIndexOrEnd_def CheckValidIndex_def)
next
  case (2 c)
  note D = layD [OF 2]
  have o: "OffsetFromBegin d (index (it_at d p)) = p" using OffsetFromBegin_idx [of d p] D(1,2,5) p by simp
  have v: "CheckValidIndex d (index (it_at d p)) \<longleftrightarrow> p < length xs" using CheckValidIndex_iff [of d "length xs" p] D p by simp
  have e: "CheckValidIndexOrEnd d (index (it_at d p))"
    using v D p by (auto simp: CheckValidIndexOrEnd_def)
  have m: "nat (int p + int n + int (begin_at d)) mod cap d = idx c (begin_at d) (p + n)" if "p + n \<le> length xs"
    using that idx_mod [of "begin_at d" c "p + n"] D(1,2,5) by (simp add: nat_add_distrib add.commute)
  show ?thesis
  proof (cases "n = 0")
    case True
    then show ?thesis using e p by (simp add: it_Add_def)
  next
    case False
    then show ?thesis
      using o v e m D(5) p by (auto simp: it_Add_def reps_size [OF r] simp del: index_it_at) (simp_all add: it_at_def)
  qed
qed

lemma at_pos_reps: "reps d xs \<Longrightarrow> at_pos p d = (if p \<le> length xs then Some (it_at d p) else None)"
  using it_Add_at [of d xs 0 p] it_at_0 [of d xs] by (simp add: at_pos_def dq_begin_def it_at_def)

lemma rel_Some: "(\<exists>d'. m = Some d' \<and> reps d' ys) \<Longrightarrow> rel_option reps m (Some ys)"
  by auto

lemma pop_empty: "reps d [] \<Longrightarrow> pop_front d = None \<and> pop_back d = None"
  by (simp add: pop_front_def pop_back_def reps_size)

lemma reps_erase:
  assumes r: "reps d xs" and p: "p + n \<le> length xs"
  shows "\<exists>d' it. erase_range (it_at d p) (it_at d (p + n)) d = Some (d', it) \<and> reps d' (take p xs @ drop (p + n) xs)"
  using r
proof (cases rule: reps_cases)
  case 1
  then show ?thesis using p r by (simp add: erase_range_def Let_def)
next
  case (2 c)
  then show ?thesis using lay_erase_range [OF 2 p] lay_reps by blast
qed

lemma run_op_refines:
  assumes r: "reps d xs"
  shows "rel_option reps (run_op opn d) (list_op opn xs)"
proof (cases opn)
  case PopFront
  then show ?thesis using r pop_empty [of d] reps_pop_front [of d "hd xs" "tl xs"] by (cases xs) auto
next
  case PopBack
  then show ?thesis using r pop_empty [of d] reps_pop_back [of d "butlast xs" "List.last xs"] by (cases "xs = []") auto
next
  case (EmplaceAt p v)
  then show ?thesis using reps_emplace [OF r, of p v] by (auto simp: at_pos_reps [OF r])
next
  case (EraseRange p n)
  then show ?thesis using reps_erase [OF r, of p n] by (auto simp: at_pos_reps [OF r] it_Add_at [OF r])
next
  case (EraseAt p)
  then show ?thesis
    using reps_erase [OF r, of p 1] it_Add_at [OF r, of p 1] by (auto simp: at_pos_reps [OF r] erase_one_def)
next
  case (EraseWhere pred)
  then show ?thesis using reps_EraseIf [OF r, of pred] by auto
next
  case (EraseValue v)
  then show ?thesis using reps_EraseIf [OF r, of "\<lambda>x. x = v"] by (auto simp: Erase_def)
next
  case (ReserveFor n)
  then show ?thesis using reps_reserve [OF r, of n] by auto
next
  case (InsertN p n v)
  then show ?thesis using reps_insert_n [OF r, of p n v] by (auto simp: at_pos_reps [OF r])
next
  case (InsertRange p ys)
  then show ?thesis using reps_insert_range [OF r, of p ys] by (auto simp: at_pos_reps [OF r])
qed (use r reps_emplace_front [OF r] reps_emplace_back [OF r] reps_resize [OF r] reps_assign_n [OF r] reps_assign_range [OF r]
       reps_assign_list [OF r] reps_dq_clear [OF r] reps_shrink_to_fit [OF r]
     in \<open>auto simp: push_front_def push_back_def intro!: rel_Some\<close>)

primrec run_ops :: "'a dq_op list \<Rightarrow> 'a circular_deque \<Rightarrow> 'a circular_deque option" where
  "run_ops [] d = Some d"
| "run_ops (x # xs) d = Option.bind (run_op x d) (run_ops xs)"

primrec list_ops :: "'a dq_op list \<Rightarrow> 'a list \<Rightarrow> 'a list option" where
  "list_ops [] xs = Some xs"
| "list_ops (y # ys) xs = Option.bind (list_op y xs) (list_ops ys)"

lemma run_ops_refine: "reps d xs \<Longrightarrow> rel_option reps (run_ops opns d) (list_ops opns xs)"
proof (induction opns arbitrary: d xs)
  case (Cons a opns)
  from run_op_refines [OF Cons.prems, of a] show ?case
    by (cases rule: option.rel_cases) (auto simp: Cons.IH)
qed simp


text \<open>
  C24: Copying, assigning, moving and swapping whole deques: a copy has the elements of the original, a
  moved-from deque is empty, and swapping exchanges the elements.
\<close>

theorem circular_deque_transfers:
  assumes "reps d xs" and "reps other ys"
  shows "(\<exists>e. copy_circular_deque d = Some e \<and> reps e xs) \<and>
         (\<exists>e. assign_copy False other d = Some e \<and> reps e ys) \<and>
         (\<exists>e f. assign_move False other d = Some (e, f) \<and> reps e ys \<and> reps f []) \<and>
         reps (fst (move_circular_deque d)) xs \<and> reps (snd (move_circular_deque d)) [] \<and>
         reps (fst (dq_swap d other)) ys \<and> reps (snd (dq_swap d other)) xs"
  using reps_copy [OF assms(1)] reps_assign_copy [OF assms(2,1)] reps_assign_move [OF assms(2,1)]
    reps_move [OF assms(1)] reps_swap [OF assms] by blast

theorem circular_deque_transfers_witness:
  "\<exists>d e. run_ops [PushBack 1, PushFront 2, PopFront, PushBack (3 :: nat)] new_circular_deque = Some d \<and>
     copy_circular_deque d = Some e \<and> reps e [1, 3] \<and>
     reps (snd (dq_swap d new_circular_deque)) [1, 3]"
proof -
  obtain d where d: "run_ops [PushBack 1, PushFront 2, PopFront, PushBack (3 :: nat)] new_circular_deque = Some d" "reps d [1, 3]"
    using run_ops_refine [OF reps_new, of "[PushBack 1, PushFront 2, PopFront, PushBack (3 :: nat)]"]
    by (auto simp: rel_option_iff split: option.splits)
  show ?thesis using d circular_deque_transfers [OF d(2) reps_new] by blast
qed

text \<open>
  C25: Pushing an element of the deque onto itself.  While there is spare capacity, \<open>push_back\<close> of a reference to
  the front element appends a copy of it.  When the deque is full, the buffer is replaced before the argument is
  read: the reference is dangling and the call has no defined result.
\<close>

theorem push_back_own_element:
  assumes r: "reps d xs" and "xs \<noteq> []"
  shows "if length xs < dq_capacity d
         then \<exists>d'. push_back (Ref (block d) (begin_at d)) d = Some d' \<and> reps d' (xs @ [hd xs])
         else push_back (Ref (block d) (begin_at d)) d = None"
proof (cases "length xs < dq_capacity d")
  case True
  then have e: "ExpandCapacityIfNecessary (Suc 0) d = Some d" by (simp add: ExpandCapacityIfNecessary_def reps_size [OF r])
  have "eval_arg d (Ref (block d) (begin_at d)) = eval_arg d (Val (hd xs))"
    using reps_front_back(1) [OF assms] by (auto simp: eval_arg_def dq_front_def split: if_splits)
  then have "push_back (Ref (block d) (begin_at d)) d = emplace_back (Val (hd xs)) d"
    by (simp add: push_back_def emplace_back_def e)
  then show ?thesis using True reps_emplace_back [OF r, of "hd xs"] by simp
next
  case False
  obtain d1 c where d1: "ExpandCapacityIfNecessary (Suc 0) d = Some d1" "length xs + 1 < c" "lay c d1 xs"
    "d1 = d \<or> block d1 = Suc (block d)"
    using reps_Expand [OF r, of "Suc 0"] by auto
  then have "block d1 = Suc (block d)" using False dq_capacity_lay [OF d1(3)] by auto
  then show ?thesis using False d1(1) by (simp add: push_back_def emplace_back_def eval_arg_def)
qed

theorem push_back_own_element_witness:
  "\<exists>d. run_ops (map PushBack [1, 2, 3 :: nat]) new_circular_deque = Some d \<and> dq_capacity d = 3 \<and>
     push_back (Ref (block d) (begin_at d)) d = None"
proof -
  let ?d = "\<lparr>buffer = [Some 1, Some 2, Some 3, None], begin_at = 0, end_at = 3, generation = 3, block = 1\<rparr> :: nat circular_deque"
  have run: "run_ops (map PushBack [1, 2, 3 :: nat]) new_circular_deque = Some ?d" by code_simp
  have "lay 4 ?d [1, 2, 3]" by code_simp
  then have r: "reps ?d [1, 2, 3]" by (rule lay_reps)
  show ?thesis using push_back_own_element [OF r] run by (simp add: dq_capacity_def)
qed

text \<open>
  \<open>reserve\<close> replaces the buffer without a new generation: an iterator taken before still passes the check
  that is meant to reject it, although, unless the elements started at the front of the buffer, it no longer refers to the
  element it referred to.
\<close>

lemma reserve_keeps_stale_iterators:
  assumes r: "reps d xs" and "dq_capacity d < n" and k: "k < length xs"
  shows "\<exists>d'. reserve n d = Some d' \<and> reps d' xs \<and> CheckUnstableUsage d' (it_at d k) \<and>
           (index (it_at d k) = index (it_at d' k) \<longleftrightarrow> begin_at d = 0)"
proof -
  obtain c where l: "lay c d xs" using r k by (auto elim: reps_cases)
  note D = layD [OF l]
  have "length xs \<le> n" using assms(2) D(2) by (simp add: dq_capacity_lay [OF l])
  then obtain d' where d': "SetCapacityTo n d = Some d'" "lay (n + 1) d' xs" "begin_at d' = 0" "generation d' = generation d"
    using reps_SetCapacityTo [OF r] by blast
  have "index (it_at d' k) = k" using layD(5) [OF d'(2)] d'(3) k \<open>length xs \<le> n\<close> by (simp add: idx_def)
  moreover have "index (it_at d k) = k \<longleftrightarrow> begin_at d = 0" using D k by (auto simp: idx_def)
  ultimately show ?thesis
    using assms(2) d' lay_reps by (auto simp: reserve_def CheckUnstableUsage_def it_at_def)
qed

lemma reserve_keeps_stale_iterators_example:
  "\<exists>d d'. run_ops [PushBack 1, PushBack 2, PopFront, PushBack (3 :: nat)] new_circular_deque = Some d \<and>
     it_deref d (it_at d 0) = Some 2 \<and> reserve 10 d = Some d' \<and> CheckUnstableUsage d' (it_at d 0) \<and>
     it_deref d' (it_at d 0) = Some 3"
proof -
  let ?d = "\<lparr>buffer = [None, Some 2, Some 3, None], begin_at = 1, end_at = 3, generation = 4, block = 1\<rparr> :: nat circular_deque"
  have run: "run_ops [PushBack 1, PushBack 2, PopFront, PushBack (3 :: nat)] new_circular_deque = Some ?d" by code_simp
  have "lay 4 ?d [2, 3]" by code_simp
  then have r: "reps ?d [2, 3]" by (rule lay_reps)
  obtain d' where d': "reserve 10 ?d = Some d'" "CheckUnstableUsage d' (it_at ?d 0)"
    using reserve_keeps_stale_iterators [OF r, of 10 0] by (auto simp: dq_capacity_def)
  moreover have "it_deref ?d (it_at ?d 0) = Some 2" by code_simp
  moreover have "map_option (\<lambda>e. it_deref e (it_at ?d 0)) (reserve 10 ?d) = Some (Some 3)" by code_simp
  ultimately show ?thesis using run by (intro exI [of _ ?d] exI [of _ d']) simp
qed

end
