(* ===== verification/Intrusive_Heap.thy ===== *)
theory Intrusive_Heap
  imports Binary_Heap
begin

text \<open>
  \<open>IntrusiveHeap\<close> (\<open>base/task/sequence_manager/intrusive_heap.h\<close>): a min-heap in a 1-based vector
  whose elements are told their position, so that any element can be erased or given a new key.

  \<open>key\<close> stands for the comparison \<open><=\<close> of the element type, and \<open>ident e\<close> for the object that
  \<open>e.SetHeapHandle\<close> and \<open>e.ClearHeapHandle\<close> write to (in the scheduler, a queue that the element
  points to); \<open>handles\<close> holds what was written last, 0 being the invalid handle.  Vector elements
  that have been moved from keep their value.
\<close>

section \<open>The heap\<close>

type_synonym HeapHandle = nat

definition IsValid :: "HeapHandle \<Rightarrow> bool" where
  "IsValid handle \<longleftrightarrow> handle \<noteq> 0"

definition kMinimumHeapSize :: nat where
  "kMinimumHeapSize = 4"

record ('a, 'i) IntrusiveHeap =
  nodes :: "'a list"
  heap_size :: nat
  handles :: "'i \<Rightarrow> HeapHandle"

definition new_IntrusiveHeap :: "'a \<Rightarrow> ('a, 'i) IntrusiveHeap" where
  "new_IntrusiveHeap dflt = \<lparr>nodes = replicate kMinimumHeapSize dflt, heap_size = 0, handles = (\<lambda>_. 0)\<rparr>"

definition heap_empty :: "('a, 'i) IntrusiveHeap \<Rightarrow> bool" where
  "heap_empty h \<longleftrightarrow> heap_size h = 0"

definition Min_elem :: "('a, 'i) IntrusiveHeap \<Rightarrow> 'a option" where
  "Min_elem h = (if 1 \<le> heap_size h then Some (nodes h ! 1) else None)"

definition vector_resize :: "'a \<Rightarrow> nat \<Rightarrow> 'a list \<Rightarrow> 'a list" where
  "vector_resize dflt n xs = take n xs @ replicate (n - length xs) dflt"

definition MoveHole :: "('a \<Rightarrow> 'i) \<Rightarrow> nat \<Rightarrow> nat \<Rightarrow> ('a, 'i) IntrusiveHeap \<Rightarrow> ('a, 'i) IntrusiveHeap" where
  "MoveHole ident new_hole_pos old_hole_pos h =
     h\<lparr>nodes := (nodes h)[old_hole_pos := nodes h ! new_hole_pos],
       handles := (handles h)(ident (nodes h ! new_hole_pos) := old_hole_pos)\<rparr>"

definition MakeHole :: "('a \<Rightarrow> 'i) \<Rightarrow> nat \<Rightarrow> ('a, 'i) IntrusiveHeap \<Rightarrow> ('a, 'i) IntrusiveHeap" where
  "MakeHole ident idx h = h\<lparr>handles := (handles h)(ident (nodes h ! idx) := 0)\<rparr>"

definition FillHole :: "('a \<Rightarrow> 'i) \<Rightarrow> nat \<Rightarrow> 'a \<Rightarrow> ('a, 'i) IntrusiveHeap \<Rightarrow> ('a, 'i) IntrusiveHeap" where
  "FillHole ident hole e h = h\<lparr>nodes := (nodes h)[hole := e], handles := (handles h)(ident e := hole)\<rparr>"

function MoveHoleUpAndFillWithElement ::
  "('a \<Rightarrow> 'k::linorder) \<Rightarrow> ('a \<Rightarrow> 'i) \<Rightarrow> nat \<Rightarrow> 'a \<Rightarrow> ('a, 'i) IntrusiveHeap \<Rightarrow> ('a, 'i) IntrusiveHeap" where
  "MoveHoleUpAndFillWithElement key ident hole e h =
     (if 2 \<le> hole \<and> \<not> key (nodes h ! (hole div 2)) \<le> key e
      then MoveHoleUpAndFillWithElement key ident (hole div 2) e (MoveHole ident (hole div 2) hole h)
      else FillHole ident hole e h)"
  by pat_completeness auto
termination
  by (relation "measure (\<lambda>(key, ident, hole, e, h). hole)") auto

declare MoveHoleUpAndFillWithElement.simps [simp del]

text \<open>The end of \<open>MoveHoleDownAndFillWithElement\<close>, after its loop.\<close>

definition finish_down ::
  "('a \<Rightarrow> 'k::linorder) \<Rightarrow> ('a \<Rightarrow> 'i) \<Rightarrow> nat \<Rightarrow> nat \<Rightarrow> 'a \<Rightarrow> ('a, 'i) IntrusiveHeap \<Rightarrow> ('a, 'i) IntrusiveHeap" where
  "finish_down key ident child_pos hole e h =
     (if child_pos = heap_size h \<and> \<not> key e \<le> key (nodes h ! child_pos)
      then FillHole ident child_pos e (MoveHole ident child_pos hole h)
      else FillHole ident hole e h)"

function MoveHoleDownAndFillWithElement ::
  "('a \<Rightarrow> 'k::linorder) \<Rightarrow> ('a \<Rightarrow> 'i) \<Rightarrow> nat \<Rightarrow> 'a \<Rightarrow> ('a, 'i) IntrusiveHeap \<Rightarrow> ('a, 'i) IntrusiveHeap" where
  "MoveHoleDownAndFillWithElement key ident hole e h =
     (if 0 < hole \<and> 2 * hole < heap_size h
      then (let child_pos = (if key (nodes h ! (2 * hole + 1)) \<le> key (nodes h ! (2 * hole)) then 2 * hole + 1 else 2 * hole)
            in if key e \<le> key (nodes h ! child_pos) then finish_down key ident child_pos hole e h
               else MoveHoleDownAndFillWithElement key ident child_pos e (MoveHole ident child_pos hole h))
      else finish_down key ident (2 * hole) hole e h)"
  by pat_completeness auto
termination
  by (relation "measure (\<lambda>(key, ident, hole, e, h). heap_size h - hole)") (auto simp: MoveHole_def)

declare MoveHoleDownAndFillWithElement.simps [simp del]

function move_hole_to_leaf ::
  "('a \<Rightarrow> 'k::linorder) \<Rightarrow> ('a \<Rightarrow> 'i) \<Rightarrow> nat \<Rightarrow> ('a, 'i) IntrusiveHeap \<Rightarrow> nat \<times> ('a, 'i) IntrusiveHeap" where
  "move_hole_to_leaf key ident hole h =
     (if 0 < hole \<and> 2 * hole < heap_size h
      then (let child_pos = (if key (nodes h ! (2 * hole + 1)) \<le> key (nodes h ! (2 * hole)) then 2 * hole + 1 else 2 * hole)
            in move_hole_to_leaf key ident child_pos (MoveHole ident child_pos hole h))
      else if 0 < hole \<and> 2 * hole = heap_size h then (2 * hole, MoveHole ident (2 * hole) hole h)
      else (hole, h))"
  by pat_completeness auto
termination
  by (relation "measure (\<lambda>(key, ident, hole, h). heap_size h - hole)") (auto simp: MoveHole_def)

declare move_hole_to_leaf.simps [simp del]

definition MoveHoleDownAndFillWithLeafElement ::
  "('a \<Rightarrow> 'k::linorder) \<Rightarrow> ('a \<Rightarrow> 'i) \<Rightarrow> nat \<Rightarrow> 'a \<Rightarrow> ('a, 'i) IntrusiveHeap \<Rightarrow> ('a, 'i) IntrusiveHeap" where
  "MoveHoleDownAndFillWithLeafElement key ident hole e h =
     (case move_hole_to_leaf key ident hole h of (hole', h') \<Rightarrow> MoveHoleUpAndFillWithElement key ident hole' e h')"

section \<open>Its operations\<close>

definition heap_Clear :: "('a \<Rightarrow> 'i) \<Rightarrow> 'a \<Rightarrow> ('a, 'i) IntrusiveHeap \<Rightarrow> ('a, 'i) IntrusiveHeap" where
  "heap_Clear ident dflt h =
     (let h1 = fold (MakeHole ident) [1..<heap_size h + 1] h
      in h1\<lparr>nodes := vector_resize dflt kMinimumHeapSize (nodes h1), heap_size := 0\<rparr>)"

definition heap_insert ::
  "('a \<Rightarrow> 'k::linorder) \<Rightarrow> ('a \<Rightarrow> 'i) \<Rightarrow> 'a \<Rightarrow> 'a \<Rightarrow> ('a, 'i) IntrusiveHeap \<Rightarrow> ('a, 'i) IntrusiveHeap" where
  "heap_insert key ident dflt e h =
     (let n = heap_size h + 1;
          h1 = h\<lparr>heap_size := n,
                 nodes := (if length (nodes h) \<le> n then vector_resize dflt (length (nodes h) * 2) (nodes h) else nodes h)\<rparr>
      in MoveHoleUpAndFillWithElement key ident n e h1)"

definition heap_Pop ::
  "('a \<Rightarrow> 'k::linorder) \<Rightarrow> ('a \<Rightarrow> 'i) \<Rightarrow> ('a, 'i) IntrusiveHeap \<Rightarrow> ('a, 'i) IntrusiveHeap option" where
  "heap_Pop key ident h =
     (if heap_size h < 1 then None
      else (let h1 = MakeHole ident 1 h; top_index = heap_size h1; h2 = h1\<lparr>heap_size := heap_size h1 - 1\<rparr>
            in Some (if heap_empty h2 then h2
                     else MoveHoleDownAndFillWithLeafElement key ident 1 (nodes h2 ! top_index) h2)))"

definition heap_erase ::
  "('a \<Rightarrow> 'k::linorder) \<Rightarrow> ('a \<Rightarrow> 'i) \<Rightarrow> HeapHandle \<Rightarrow> ('a, 'i) IntrusiveHeap \<Rightarrow> ('a, 'i) IntrusiveHeap option" where
  "heap_erase key ident handle h =
     (if \<not> (0 < handle \<and> handle \<le> heap_size h) then None
      else (let h1 = MakeHole ident handle h; top_index = heap_size h1; h2 = h1\<lparr>heap_size := heap_size h1 - 1\<rparr>
            in Some (if heap_empty h2 \<or> top_index = handle then h2
                     else if key (nodes h2 ! handle) \<le> key (nodes h2 ! top_index)
                     then MoveHoleDownAndFillWithLeafElement key ident handle (nodes h2 ! top_index) h2
                     else MoveHoleUpAndFillWithElement key ident handle (nodes h2 ! top_index) h2)))"

definition ReplaceMin ::
  "('a \<Rightarrow> 'k::linorder) \<Rightarrow> ('a \<Rightarrow> 'i) \<Rightarrow> 'a \<Rightarrow> ('a, 'i) IntrusiveHeap \<Rightarrow> ('a, 'i) IntrusiveHeap" where
  "ReplaceMin key ident e h = MoveHoleDownAndFillWithElement key ident 1 e h"

definition ChangeKey ::
  "('a \<Rightarrow> 'k::linorder) \<Rightarrow> ('a \<Rightarrow> 'i) \<Rightarrow> HeapHandle \<Rightarrow> 'a \<Rightarrow> ('a, 'i) IntrusiveHeap \<Rightarrow> ('a, 'i) IntrusiveHeap" where
  "ChangeKey key ident handle e h =
     (if key (nodes h ! handle) \<le> key e then MoveHoleDownAndFillWithLeafElement key ident handle e h
      else MoveHoleUpAndFillWithElement key ident handle e h)"

section \<open>Positions and handles\<close>

text \<open>
  \<open>hok n hole x xs hs\<close>: in the first \<open>n\<close> places other than \<open>hole\<close>, the handles are exact, and
  nothing else but perhaps \<open>x\<close>, which is about to be filled in, has a valid handle.
\<close>

definition hok :: "('a \<Rightarrow> 'i) \<Rightarrow> nat \<Rightarrow> nat \<Rightarrow> 'i \<Rightarrow> 'a list \<Rightarrow> ('i \<Rightarrow> nat) \<Rightarrow> bool" where
  "hok ident n hole x xs hs \<longleftrightarrow>
     (\<forall>i. 1 \<le> i \<and> i \<le> n \<and> i \<noteq> hole \<longrightarrow> hs (ident (xs ! i)) = i \<and> ident (xs ! i) \<noteq> x) \<and>
     (\<forall>y. y \<noteq> x \<and> hs y \<noteq> 0 \<longrightarrow> (\<exists>i. 1 \<le> i \<and> i \<le> n \<and> i \<noteq> hole \<and> ident (xs ! i) = y))"

definition handles_ok :: "('a \<Rightarrow> 'i) \<Rightarrow> nat \<Rightarrow> 'a list \<Rightarrow> ('i \<Rightarrow> nat) \<Rightarrow> bool" where
  "handles_ok ident n xs hs \<longleftrightarrow>
     (\<forall>i. 1 \<le> i \<and> i \<le> n \<longrightarrow> hs (ident (xs ! i)) = i) \<and>
     (\<forall>y. hs y \<noteq> 0 \<longrightarrow> (\<exists>i. 1 \<le> i \<and> i \<le> n \<and> ident (xs ! i) = y))"

lemma hok_MoveHole:
  assumes h: "hok ident n old x xs hs" and n: "1 \<le> new" "new \<le> n" "new \<noteq> old" "1 \<le> old" "old \<le> n" "n < length xs"
  shows "hok ident n new x (xs[old := xs ! new]) (hs(ident (xs ! new) := old))"
proof -
  have hn: "hs (ident (xs ! new)) = new" "ident (xs ! new) \<noteq> x" using h n by (auto simp: hok_def)
  have other: "ident (xs ! i) \<noteq> ident (xs ! new)" if "1 \<le> i" "i \<le> n" "i \<noteq> old" "i \<noteq> new" for i
    using h hn(1) that by (auto simp: hok_def)
  show ?thesis
    unfolding hok_def
  proof (intro conjI allI impI)
    fix i assume i: "1 \<le> i \<and> i \<le> n \<and> i \<noteq> new"
    show "(hs(ident (xs ! new) := old)) (ident (xs[old := xs ! new] ! i)) = i" "ident (xs[old := xs ! new] ! i) \<noteq> x"
      using h hn i n other [of i] by (cases "i = old"; auto simp: hok_def)+
  next
    fix y assume y: "y \<noteq> x \<and> (hs(ident (xs ! new) := old)) y \<noteq> 0"
    show "\<exists>i. 1 \<le> i \<and> i \<le> n \<and> i \<noteq> new \<and> ident (xs[old := xs ! new] ! i) = y"
    proof (cases "y = ident (xs ! new)")
      case True
      then show ?thesis using n by (intro exI [of _ old]) simp
    next
      case False
      then obtain i where "1 \<le> i" "i \<le> n" "i \<noteq> old" "ident (xs ! i) = y" using h y unfolding hok_def by auto
      then show ?thesis using False by (intro exI [of _ i]) auto
    qed
  qed
qed

lemma hok_FillHole:
  assumes h: "hok ident n hole (ident e) xs hs" and n: "1 \<le> hole" "hole \<le> n" "n < length xs"
  shows "handles_ok ident n (xs[hole := e]) (hs(ident e := hole))"
  unfolding handles_ok_def
proof (intro conjI allI impI)
  fix i assume "1 \<le> i \<and> i \<le> n"
  then show "(hs(ident e := hole)) (ident (xs[hole := e] ! i)) = i"
    using h n by (cases "i = hole") (auto simp: hok_def)
next
  fix y assume y: "(hs(ident e := hole)) y \<noteq> 0"
  show "\<exists>i. 1 \<le> i \<and> i \<le> n \<and> ident (xs[hole := e] ! i) = y"
  proof (cases "y = ident e")
    case True
    then show ?thesis using n by (intro exI [of _ hole]) simp
  next
    case False
    then obtain i where "1 \<le> i" "i \<le> n" "i \<noteq> hole" "ident (xs ! i) = y" using h y unfolding hok_def by auto
    then show ?thesis by (intro exI [of _ i]) simp
  qed
qed

lemma handles_ok_hole:
  assumes "handles_ok ident n xs hs" and "1 \<le> hole" and "hole \<le> n"
  shows "hok ident n hole (ident (xs ! hole)) xs hs"
  using assms unfolding handles_ok_def hok_def by metis

lemma MoveHole_simps [simp]:
  "nodes (MoveHole ident new old h) = (nodes h)[old := nodes h ! new]"
  "handles (MoveHole ident new old h) = (handles h)(ident (nodes h ! new) := old)"
  "heap_size (MoveHole ident new old h) = heap_size h"
  by (simp_all add: MoveHole_def)

lemma FillHole_simps [simp]:
  "nodes (FillHole ident hole e h) = (nodes h)[hole := e]"
  "handles (FillHole ident hole e h) = (handles h)(ident e := hole)"
  "heap_size (FillHole ident hole e h) = heap_size h"
  by (simp_all add: FillHole_def)

lemma MakeHole_simps [simp]:
  "nodes (MakeHole ident k h) = nodes h" "heap_size (MakeHole ident k h) = heap_size h"
  "handles (MakeHole ident k h) = (handles h)(ident (nodes h ! k) := 0)"
  by (simp_all add: MakeHole_def)

lemma below_hole_smaller:
  assumes "heap1 key xs n" and "m \<le> n" and "\<not> key (xs ! k) \<le> key e"
  shows "below_hole key xs m k e"
  unfolding below_hole_def
proof (intro allI impI)
  fix i assume i: "2 \<le> i \<and> i \<le> m \<and> i div 2 = k"
  have "key e \<le> key (xs ! k)" using assms(3) by simp
  also have "\<dots> \<le> key (xs ! i)" using assms(1,2) i by (auto simp: heap1_def)
  finally show "key e \<le> key (xs ! i)" .
qed

lemma MoveHoleUp_refines:
  assumes "hok ident (heap_size h) hole (ident e) (nodes h) (handles h)"
    and "1 \<le> hole" and "hole \<le> heap_size h" and "heap_size h < length (nodes h)"
    and "MoveHoleUpAndFillWithElement key ident hole e h = h'"
  shows "nodes h' = hole_up key (nodes h) hole e \<and> heap_size h' = heap_size h \<and>
         handles_ok ident (heap_size h) (nodes h') (handles h')"
  using assms
proof (induction key ident hole e h rule: MoveHoleUpAndFillWithElement.induct)
  case (1 key ident hole e h)
  show ?case
  proof (cases "2 \<le> hole \<and> \<not> key (nodes h ! (hole div 2)) \<le> key e")
    case True
    let ?h = "MoveHole ident (hole div 2) hole h"
    have "hok ident (heap_size ?h) (hole div 2) (ident e) (nodes ?h) (handles ?h)"
      using hok_MoveHole [OF "1.prems"(1), of "hole div 2"] "1.prems" True by auto
    moreover have "MoveHoleUpAndFillWithElement key ident (hole div 2) e ?h = h'"
      using "1.prems"(5) True by (subst (asm) MoveHoleUpAndFillWithElement.simps) simp
    moreover have "Suc 0 \<le> hole div 2" "hole div 2 \<le> heap_size h" using True "1.prems"(3) by auto
    ultimately show ?thesis
      using "1.IH" [OF True] "1.prems"(4) hole_up_step [OF True] by (clarsimp simp: fun_upd_def)
  next
    case False
    then have "h' = FillHole ident hole e h"
      using "1.prems"(5) by (subst (asm) MoveHoleUpAndFillWithElement.simps) auto
    then show ?thesis using hok_FillHole [OF "1.prems"(1-4)] hole_up_stop [OF False] by (simp add: fun_upd_def)
  qed
qed

lemma move_hole_to_leaf_refines:
  assumes "hok ident (heap_size h) hole x (nodes h) (handles h)"
    and "1 \<le> hole" and "hole \<le> heap_size h" and "heap_size h < length (nodes h)"
    and "move_hole_to_leaf key ident hole h = (g, h')"
  shows "hole_down key (nodes h) (heap_size h) hole = (nodes h', g) \<and> heap_size h' = heap_size h \<and>
         hok ident (heap_size h) g x (nodes h') (handles h')"
  using assms
proof (induction key ident hole h arbitrary: g h' rule: move_hole_to_leaf.induct)
  case (1 key ident hole h)
  let ?c = "small_child key (nodes h) hole"
  consider "2 * hole < heap_size h" | "2 * hole = heap_size h" | "heap_size h < 2 * hole" by linarith
  then show ?case
  proof cases
    case 1
    let ?h = "MoveHole ident ?c hole h"
    have c: "1 \<le> ?c" "?c \<le> heap_size h" "?c \<noteq> hole" using small_child_cases [of key "nodes h" hole] 1 "1.prems"(2) by auto
    have "hok ident (heap_size ?h) ?c x (nodes ?h) (handles ?h)"
      using hok_MoveHole [OF "1.prems"(1) c] "1.prems" by simp
    moreover have "move_hole_to_leaf key ident ?c ?h = (g, h')"
      using "1.prems"(2,5) 1 by (subst (asm) move_hole_to_leaf.simps) (simp add: small_child_def Let_def)
    ultimately show ?thesis
      using "1.IH" [OF _ small_child_def, of g h'] "1.prems"(2-4) 1 c hole_down_step [of hole "heap_size h" key "nodes h"]
      by (simp add: fun_upd_def del: One_nat_def)
  next
    case 2
    then show ?thesis
      using "1.prems" hole_down_last [of hole "heap_size h" key "nodes h"] hok_MoveHole [OF "1.prems"(1), of "2 * hole"]
      by (subst (asm) move_hole_to_leaf.simps) auto
  next
    case 3
    then show ?thesis
      using "1.prems" hole_down_leaf [of "heap_size h" hole key "nodes h"] by (subst (asm) move_hole_to_leaf.simps) auto
  qed
qed

text \<open>
  The downward move that stops where the element fits: what holds of the hole on the way, and what
  the whole move achieves.
\<close>

definition down_pre :: "('a \<Rightarrow> 'k::linorder) \<Rightarrow> ('a \<Rightarrow> 'i) \<Rightarrow> nat \<Rightarrow> 'a \<Rightarrow> ('a, 'i) IntrusiveHeap \<Rightarrow> bool" where
  "down_pre key ident hole e h \<longleftrightarrow>
     hok ident (heap_size h) hole (ident e) (nodes h) (handles h) \<and>
     1 \<le> hole \<and> hole \<le> heap_size h \<and> heap_size h < length (nodes h) \<and>
     holed key (nodes h) (heap_size h) hole \<and> (2 \<le> hole \<longrightarrow> key (nodes h ! (hole div 2)) \<le> key e)"

definition filled ::
  "('a \<Rightarrow> 'k::linorder) \<Rightarrow> ('a \<Rightarrow> 'i) \<Rightarrow> nat \<Rightarrow> 'a \<Rightarrow> ('a, 'i) IntrusiveHeap \<Rightarrow> ('a, 'i) IntrusiveHeap \<Rightarrow> bool" where
  "filled key ident hole e h h' \<longleftrightarrow>
     heap1 key (nodes h') (heap_size h) \<and> mset (nodes h') = mset ((nodes h)[hole := e]) \<and> nodes h' ! 0 = nodes h ! 0 \<and>
     drop (Suc (heap_size h)) (nodes h') = drop (Suc (heap_size h)) (nodes h) \<and> length (nodes h') = length (nodes h) \<and>
     heap_size h' = heap_size h \<and> handles_ok ident (heap_size h) (nodes h') (handles h')"

lemma filled_here:
  assumes "down_pre key ident hole e h" and "below_hole key (nodes h) (heap_size h) hole e"
  shows "filled key ident hole e h (FillHole ident hole e h)"
  using assms hok_FillHole [of ident "heap_size h" hole e "nodes h" "handles h"]
    holed_fill [of key "nodes h" "heap_size h" hole e]
  by (auto simp: down_pre_def filled_def fun_upd_def)

lemma down_pre_step:
  assumes d: "down_pre key ident hole e h" and c: "c \<le> heap_size h" "c div 2 = hole" and lt: "\<not> key e \<le> key (nodes h ! c)"
    and least: "\<And>i. i \<le> heap_size h \<Longrightarrow> i div 2 = hole \<Longrightarrow> key (nodes h ! c) \<le> key (nodes h ! i)"
  shows "down_pre key ident c e (MoveHole ident c hole h)"
    and "filled key ident c e (MoveHole ident c hole h) h' \<Longrightarrow> filled key ident hole e h h'"
proof -
  have ne: "c \<noteq> hole" "hole < length (nodes h)" "1 \<le> c" using c d by (auto simp: down_pre_def)
  have "hok ident (heap_size h) c (ident e) ((nodes h)[hole := nodes h ! c]) ((handles h)(ident (nodes h ! c) := hole))"
    using hok_MoveHole [of ident "heap_size h" hole "ident e" "nodes h" "handles h" c] d c ne by (simp add: down_pre_def)
  moreover have "holed key ((nodes h)[hole := nodes h ! c]) (heap_size h) c"
    using holed_move_down [of key "nodes h" "heap_size h" hole c] least d c by (simp add: down_pre_def)
  ultimately show "down_pre key ident c e (MoveHole ident c hole h)"
    using d c ne lt by (auto simp: down_pre_def fun_upd_def)
  show "filled key ident hole e h h'" if "filled key ident c e (MoveHole ident c hole h) h'"
    using that mset_update_swap [of hole "nodes h" c e] d c ne by (auto simp: filled_def down_pre_def)
qed

lemma finish_down_filled:
  assumes d: "down_pre key ident hole e h" and only: "heap_size h \<le> 2 * hole"
  shows "filled key ident hole e h (finish_down key ident (2 * hole) hole e h)"
proof (cases "2 * hole = heap_size h \<and> \<not> key e \<le> key (nodes h ! (2 * hole))")
  case True
  have least: "key (nodes h ! (2 * hole)) \<le> key (nodes h ! i)" if "i \<le> heap_size h" "i div 2 = hole" for i
  proof -
    have "i = 2 * hole" using that True by auto
    then show ?thesis by simp
  qed
  have c: "2 * hole \<le> heap_size h" "2 * hole div 2 = hole" "\<not> key e \<le> key (nodes h ! (2 * hole))" using True by auto
  have "1 \<le> hole" using d by (simp add: down_pre_def)
  then have "below_hole key (nodes (MoveHole ident (2 * hole) hole h)) (heap_size (MoveHole ident (2 * hole) hole h)) (2 * hole) e"
    using True by (auto simp: below_hole_def)
  then have "filled key ident (2 * hole) e (MoveHole ident (2 * hole) hole h)
      (FillHole ident (2 * hole) e (MoveHole ident (2 * hole) hole h))"
    using down_pre_step(1) [OF d c] least by (intro filled_here) blast+
  then have "filled key ident hole e h (FillHole ident (2 * hole) e (MoveHole ident (2 * hole) hole h))"
    using down_pre_step(2) [OF d c] least by blast
  then show ?thesis unfolding finish_down_def if_P [OF True] .
next
  case False
  have "i = 2 * hole" if "i \<le> heap_size h" "i div 2 = hole" for i using that only by auto
  then have "below_hole key (nodes h) (heap_size h) hole e"
    using False only unfolding below_hole_def by (metis le_antisym)
  from filled_here [OF d this] show ?thesis unfolding finish_down_def if_not_P [OF False] .
qed

lemma MoveHoleDown_filled:
  "down_pre key ident hole e h \<Longrightarrow> filled key ident hole e h (MoveHoleDownAndFillWithElement key ident hole e h)"
proof (induction key ident hole e h rule: MoveHoleDownAndFillWithElement.induct)
  case (1 key ident hole e h)
  show ?case
  proof (cases "2 * hole < heap_size h")
    case True
    let ?c = "small_child key (nodes h) hole"
    have pos: "0 < hole" using "1.prems" by (simp add: down_pre_def)
    have c: "?c \<le> heap_size h" "?c div 2 = hole" using small_child_cases [of key "nodes h" hole] True by auto
    have unf: "MoveHoleDownAndFillWithElement key ident hole e h =
        (if key e \<le> key (nodes h ! ?c) then finish_down key ident ?c hole e h
         else MoveHoleDownAndFillWithElement key ident ?c e (MoveHole ident ?c hole h))"
      using pos True by (subst MoveHoleDownAndFillWithElement.simps) (auto simp: small_child_def Let_def)
    show ?thesis
    proof (cases "key e \<le> key (nodes h ! ?c)")
      case e: True
      then have "below_hole key (nodes h) (heap_size h) hole e"
        using small_child_least [of _ hole key "nodes h"] by (auto simp: below_hole_def intro: order_trans)
      then show ?thesis using filled_here [OF "1.prems"] e unf by (simp add: finish_down_def)
    next
      case False
      note step = down_pre_step [OF "1.prems" c False small_child_least]
      show ?thesis
        using "1.IH" [OF _ small_child_def False] step pos True False unf by simp
    qed
  next
    case False
    then show ?thesis
      using finish_down_filled [OF "1.prems"] by (subst MoveHoleDownAndFillWithElement.simps) simp
  qed
qed

section \<open>The contents of the heap\<close>

definition content :: "('a, 'i) IntrusiveHeap \<Rightarrow> 'a list" where
  "content h = take (heap_size h) (tl (nodes h))"

lemma content_nth: "i < heap_size h \<Longrightarrow> heap_size h < length (nodes h) \<Longrightarrow> content h ! i = nodes h ! Suc i"
  by (cases "nodes h") (simp_all add: content_def nth_tl)

lemma split_nodes:
  assumes "n < length xs"
  shows "mset xs = add_mset (xs ! 0) (mset (take n (tl xs)) + mset (drop (Suc n) xs))"
proof (cases xs)
  case (Cons x ys)
  have "mset ys = mset (take n ys) + mset (drop n ys)" by (metis append_take_drop_id mset_append)
  then show ?thesis using Cons by simp
qed (use assms in simp)

lemma mset_content_eq:
  assumes "mset ys = mset (xs[k := e])" and "ys ! 0 = xs ! 0" and "drop (Suc n) ys = drop (Suc n) xs"
    and "length ys = length xs" and "n < length xs" and "1 \<le> k" and "k \<le> n"
  shows "mset (take n (tl ys)) = mset ((take n (tl xs))[k - 1 := e])"
proof -
  have "take n (tl (xs[k := e])) = (take n (tl xs))[k - 1 := e]"
    using assms(5-7) by (cases xs; cases k) (simp_all add: take_update_swap)
  then show ?thesis
    using split_nodes [of n ys] split_nodes [of n "xs[k := e]"] assms by simp
qed

lemma hole_up_above: "h < i \<Longrightarrow> hole_up key xs h e ! i = xs ! i"
proof (induction key xs h e rule: hole_up.induct)
  case (1 key xs h e)
  show ?case
  proof (cases "2 \<le> h \<and> \<not> key (xs ! (h div 2)) \<le> key e")
    case True
    then show ?thesis using "1.IH" [OF True] "1.prems" hole_up_step [OF True] by auto
  next
    case False
    then show ?thesis using "1.prems" hole_up_stop [OF False] by simp
  qed
qed

lemma drop_hole_up: "h \<le> n \<Longrightarrow> drop (Suc n) (hole_up key xs h e) = drop (Suc n) xs"
  by (rule nth_equalityI) (simp_all add: hole_up_above)

lemma hole_down_above: "h \<le> n \<Longrightarrow> n < i \<Longrightarrow> fst (hole_down key xs n h) ! i = xs ! i"
proof (induction key xs n h rule: hole_down.induct)
  case (1 key xs n h)
  consider "0 < h" "2 * h < n" | "0 < h" "2 * h = n" | "h = 0 \<or> n < 2 * h" by linarith
  then show ?case
  proof cases
    case 1
    have "small_child key xs h \<le> n" using small_child_cases [of key xs h] 1 by auto
    then show ?thesis
      using "1.IH" [OF _ small_child_def] 1 "1.prems" hole_down_step [OF 1, of key xs] by simp
  next
    case 2
    then show ?thesis using "1.prems" by (simp add: hole_down_last)
  next
    case 3
    then show ?thesis by (subst hole_down.simps) auto
  qed
qed

lemma MoveHoleUp_filled:
  assumes "hok ident (heap_size h) hole (ident e) (nodes h) (handles h)"
    and "1 \<le> hole" and "hole \<le> heap_size h" and "heap_size h < length (nodes h)"
    and "holed key (nodes h) (heap_size h) hole" and "below_hole key (nodes h) (heap_size h) hole e"
  shows "filled key ident hole e h (MoveHoleUpAndFillWithElement key ident hole e h)"
  using MoveHoleUp_refines [OF assms(1-4) refl, of key] heap1_hole_up [OF assms(5,6,2,3,4)]
    mset_hole_up [of hole "nodes h" key e] hole_up_nth_0 [OF assms(2), of key "nodes h" e]
    drop_hole_up [OF assms(3), of key "nodes h" e] assms(3,4)
  by (clarsimp simp: filled_def)

lemma MoveHoleLeaf_filled:
  assumes "hok ident (heap_size h) hole (ident e) (nodes h) (handles h)"
    and "1 \<le> hole" and "hole \<le> heap_size h" and "heap_size h < length (nodes h)"
    and "holed key (nodes h) (heap_size h) hole"
  shows "filled key ident hole e h (MoveHoleDownAndFillWithLeafElement key ident hole e h)"
proof -
  let ?n = "heap_size h"
  obtain g h1 where m: "move_hole_to_leaf key ident hole h = (g, h1)" by fastforce
  have r: "hole_down key (nodes h) ?n hole = (nodes h1, g)" "heap_size h1 = ?n" "hok ident ?n g (ident e) (nodes h1) (handles h1)"
    using move_hole_to_leaf_refines [OF assms(1-4) m] by auto
  have sp: "holed key (nodes h1) ?n g" "1 \<le> g" "g \<le> ?n" "?n < 2 * g" "length (nodes h1) = length (nodes h)"
    "nodes h1 ! 0 = nodes h ! 0" "mset ((nodes h1)[g := e]) = mset ((nodes h)[hole := e])"
    using hole_down_spec [OF assms(5,2,3,4) r(1), of e] by auto
  have "below_hole key (nodes h1) ?n g e" using sp(4) by (auto simp: below_hole_def)
  then have f: "filled key ident g e h1 (MoveHoleUpAndFillWithElement key ident g e h1)"
    using MoveHoleUp_filled [of ident h1 g e key] r sp assms(4) by simp
  moreover have "drop (Suc ?n) (nodes h1) = drop (Suc ?n) (nodes h)"
    using hole_down_above [OF assms(3), of _ key "nodes h"] sp(5) by (intro nth_equalityI) (simp_all add: r(1))
  ultimately show ?thesis
    using sp r(2) m by (simp add: filled_def MoveHoleDownAndFillWithLeafElement_def)
qed

section \<open>Invariant and contents\<close>

definition heap_ok :: "('a \<Rightarrow> 'k::linorder) \<Rightarrow> ('a \<Rightarrow> 'i) \<Rightarrow> ('a, 'i) IntrusiveHeap \<Rightarrow> bool" where
  "heap_ok key ident h \<longleftrightarrow> heap_size h < length (nodes h) \<and> heap1 key (nodes h) (heap_size h) \<and>
     handles_ok ident (heap_size h) (nodes h) (handles h)"

lemma filled_heap_ok:
  assumes f: "filled key ident hole e h h'" and n: "heap_size h < length (nodes h)" "1 \<le> hole" "hole \<le> heap_size h"
  shows "heap_ok key ident h'" and "heap_size h' = heap_size h"
    and "mset (content h') = mset ((content h)[hole - 1 := e])"
proof -
  show "heap_ok key ident h'" "heap_size h' = heap_size h" using f n by (auto simp: filled_def heap_ok_def)
  then show "mset (content h') = mset ((content h)[hole - 1 := e])"
    using f n mset_content_eq [of "nodes h'" "nodes h" hole e "heap_size h"] by (simp add: filled_def content_def)
qed

lemma length_content: "heap_size h < length (nodes h) \<Longrightarrow> length (content h) = heap_size h"
  by (simp add: content_def)

lemma mset_replace: "i < length xs \<Longrightarrow> mset (xs[i := e]) = add_mset e (mset xs - {#xs ! i#})"
  by (simp add: mset_update)

text \<open>Growing the vector keeps what is in the heap; the new place is the hole.\<close>

lemma grown_hole:
  assumes ok: "heap_ok key ident h" and new: "handles h (ident e) = 0"
    and same: "\<And>i. i \<le> heap_size h \<Longrightarrow> xs ! i = nodes h ! i"
  defines "n \<equiv> Suc (heap_size h)"
  shows "holed key xs n n" and "hok ident n n (ident e) xs (handles h)"
proof -
  show "holed key xs n n"
    unfolding holed_def
  proof (intro conjI allI impI)
    fix i assume i: "2 \<le> i \<and> i \<le> n \<and> i \<noteq> n \<and> i div 2 \<noteq> n"
    then have "i \<le> heap_size h" "i div 2 \<le> heap_size h" by (auto simp: n_def)
    then show "key (xs ! (i div 2)) \<le> key (xs ! i)"
      using ok i same [of i] same [of "i div 2"] by (simp add: heap_ok_def heap1_def)
  qed auto
  have exact: "handles h (ident (xs ! i)) = i" if "1 \<le> i" "i \<le> heap_size h" for i
    using that ok same [of i] by (simp add: heap_ok_def handles_ok_def)
  show "hok ident n n (ident e) xs (handles h)"
    unfolding hok_def
  proof (intro conjI allI impI)
    fix i assume i: "1 \<le> i \<and> i \<le> n \<and> i \<noteq> n"
    then show "handles h (ident (xs ! i)) = i" using exact by (simp add: n_def)
    then show "ident (xs ! i) \<noteq> ident e" using i new by auto
  next
    fix y assume "y \<noteq> ident e \<and> handles h y \<noteq> 0"
    then obtain i where "1 \<le> i" "i \<le> heap_size h" "ident (nodes h ! i) = y" using ok by (auto simp: heap_ok_def handles_ok_def)
    then show "\<exists>i. 1 \<le> i \<and> i \<le> n \<and> i \<noteq> n \<and> ident (xs ! i) = y"
      using same by (intro exI [of _ i]) (simp add: n_def)
  qed
qed

lemma heap_insert_ok:
  assumes ok: "heap_ok key ident h" and new: "handles h (ident e) = 0"
  shows "heap_ok key ident (heap_insert key ident dflt e h)"
    and "mset (content (heap_insert key ident dflt e h)) = add_mset e (mset (content h))"
proof -
  define n where "n = Suc (heap_size h)"
  define xs where "xs = (if length (nodes h) \<le> n then vector_resize dflt (length (nodes h) * 2) (nodes h) else nodes h)"
  let ?h = "h\<lparr>heap_size := n, nodes := xs\<rparr>"
  have n: "heap_size h < length (nodes h)" using ok by (simp add: heap_ok_def)
  have nth: "xs ! i = nodes h ! i" if "i \<le> heap_size h" for i using that n by (simp add: xs_def vector_resize_def nth_append)
  have len: "n < length xs" using n by (auto simp: xs_def n_def vector_resize_def)
  have "heap_insert key ident dflt e h = MoveHoleUpAndFillWithElement key ident n e ?h"
    by (simp add: heap_insert_def n_def xs_def Let_def)
  moreover have "below_hole key xs n n e" by (auto simp: below_hole_def n_def)
  ultimately have f: "filled key ident n e ?h (heap_insert key ident dflt e h)"
    using MoveHoleUp_filled [of ident ?h n e key] grown_hole [OF ok new nth] len by (simp flip: n_def) (simp add: n_def)
  show "heap_ok key ident (heap_insert key ident dflt e h)"
    using filled_heap_ok(1) [OF f] len by (simp add: n_def)
  have "mset (content (heap_insert key ident dflt e h)) = mset ((content ?h)[n - 1 := e])"
    using filled_heap_ok(3) [OF f] len by (simp add: n_def)
  moreover have "(content ?h)[n - 1 := e] = content h @ [e]"
    using n len nth by (intro nth_equalityI) (auto simp: content_def n_def nth_append nth_tl nth_list_update less_Suc_eq)
  ultimately show "mset (content (heap_insert key ident dflt e h)) = add_mset e (mset (content h))" by simp
qed

text \<open>Taking the element at \<open>k\<close> out: its place is the hole, and the last element is to fill it.\<close>

lemma removed_last:
  assumes ok: "heap_ok key ident h" and n: "0 < heap_size h"
  defines "h2 \<equiv> (MakeHole ident (heap_size h) h)\<lparr>heap_size := heap_size h - 1\<rparr>"
  shows "heap_ok key ident h2"
proof -
  let ?n = "heap_size h" and ?hs = "(handles h)(ident (nodes h ! heap_size h) := 0)"
  have exact: "handles h (ident (nodes h ! i)) = i" if "1 \<le> i" "i \<le> ?n" for i
    using that ok by (simp add: heap_ok_def handles_ok_def)
  have "handles_ok ident (?n - 1) (nodes h) ?hs"
    unfolding handles_ok_def
  proof (intro conjI allI impI)
    fix i assume "1 \<le> i \<and> i \<le> ?n - 1"
    then have i: "1 \<le> i" "i \<le> ?n" "i \<noteq> ?n" using n by auto
    then show "?hs (ident (nodes h ! i)) = i" using exact [OF i(1,2)] exact [of ?n] n by (auto simp: fun_upd_def)
  next
    fix y assume y: "?hs y \<noteq> 0"
    then obtain i where i: "1 \<le> i" "i \<le> ?n" "ident (nodes h ! i) = y"
      using ok unfolding heap_ok_def handles_ok_def by (metis fun_upd_apply)
    with y have "i \<noteq> ?n" by auto
    with i show "\<exists>i. 1 \<le> i \<and> i \<le> ?n - 1 \<and> ident (nodes h ! i) = y" by (intro exI [of _ i]) simp
  qed
  then show ?thesis using ok n by (auto simp: h2_def MakeHole_def heap_ok_def heap1_def)
qed

lemma removed_hole:
  assumes ok: "heap_ok key ident h" and k: "1 \<le> k" "k < heap_size h"
  defines "h2 \<equiv> (MakeHole ident k h)\<lparr>heap_size := heap_size h - 1\<rparr>"
  shows "hok ident (heap_size h2) k (ident (nodes h2 ! heap_size h)) (nodes h2) (handles h2)"
    and "holed key (nodes h2) (heap_size h2) k"
proof -
  let ?n = "heap_size h" and ?hs = "(handles h)(ident (nodes h ! k) := 0)"
  have exact: "handles h (ident (nodes h ! i)) = i" if "1 \<le> i" "i \<le> ?n" for i
    using that ok by (simp add: heap_ok_def handles_ok_def)
  have "hok ident (?n - 1) k (ident (nodes h ! ?n)) (nodes h) ?hs"
    unfolding hok_def
  proof (intro conjI allI impI)
    fix i assume "1 \<le> i \<and> i \<le> ?n - 1 \<and> i \<noteq> k"
    then have i: "1 \<le> i" "i \<le> ?n" "i \<noteq> ?n" "i \<noteq> k" using k by auto
    then show "?hs (ident (nodes h ! i)) = i" "ident (nodes h ! i) \<noteq> ident (nodes h ! ?n)"
      using exact [OF i(1,2)] exact [of k] exact [of ?n] k by (auto simp: fun_upd_def)
  next
    fix y assume y: "y \<noteq> ident (nodes h ! ?n) \<and> ?hs y \<noteq> 0"
    then obtain i where i: "1 \<le> i" "i \<le> ?n" "ident (nodes h ! i) = y"
      using ok unfolding heap_ok_def handles_ok_def by (metis fun_upd_apply)
    with y have "i \<noteq> ?n" "i \<noteq> k" by auto
    with i show "\<exists>i. 1 \<le> i \<and> i \<le> ?n - 1 \<and> i \<noteq> k \<and> ident (nodes h ! i) = y" by (intro exI [of _ i]) simp
  qed
  then show "hok ident (heap_size h2) k (ident (nodes h2 ! heap_size h)) (nodes h2) (handles h2)"
    by (simp add: h2_def fun_upd_def)
  have "heap1 key (nodes h) (?n - 1)" using ok by (auto simp: heap_ok_def heap1_def)
  then show "holed key (nodes h2) (heap_size h2) k" by (simp add: h2_def MakeHole_def heap1_holed)
qed

lemma content_removed:
  fixes ident :: "'a \<Rightarrow> 'i" and h :: "('a, 'i) IntrusiveHeap"
  assumes n: "heap_size h < length (nodes h)" and k: "1 \<le> k" "k \<le> heap_size h"
  defines "h2 \<equiv> (MakeHole ident k h)\<lparr>heap_size := heap_size h - 1\<rparr>"
  shows "k < heap_size h \<Longrightarrow> mset ((content h2)[k - 1 := nodes h ! heap_size h]) = mset (content h) - {#nodes h ! k#}"
    and "k = heap_size h \<Longrightarrow> mset (content h2) = mset (content h) - {#nodes h ! k#}"
proof -
  let ?n = "heap_size h"
  obtain m where m: "?n = Suc m" using k by (cases ?n) auto
  have c: "content h = content h2 @ [nodes h ! ?n]"
    using n m by (cases "nodes h") (simp_all add: content_def h2_def MakeHole_def take_Suc_conv_app_nth)
  have l: "length (content h2) = m" using n m by (simp add: content_def h2_def MakeHole_def)
  show "mset ((content h2)[k - 1 := nodes h ! ?n]) = mset (content h) - {#nodes h ! k#}" if "k < ?n"
  proof -
    have kk: "k - 1 < m" using that m k by simp
    have "content h2 ! (k - 1) = nodes h ! k"
      using content_nth [of "k - 1" h] n kk m k(1) l by (simp add: c nth_append)
    moreover from this have "nodes h ! k \<in># mset (content h2)" using kk l by (metis nth_mem set_mset_mset)
    ultimately show ?thesis
      using mset_replace [of "k - 1" "content h2" "nodes h ! ?n"] kk l by (simp add: c diff_union_swap2)
  qed
  show "mset (content h2) = mset (content h) - {#nodes h ! k#}" if "k = ?n" using that by (simp add: c)
qed

lemma heap_erase_ok:
  assumes ok: "heap_ok key ident h" and k: "0 < k" "k \<le> heap_size h"
  shows "\<exists>h'. heap_erase key ident k h = Some h' \<and> heap_ok key ident h' \<and> mset (content h') = mset (content h) - {#nodes h ! k#}"
proof -
  let ?n = "heap_size h"
  let ?h2 = "(MakeHole ident k h)\<lparr>heap_size := ?n - 1\<rparr>" and ?e = "nodes h ! heap_size h"
  have n: "?n < length (nodes h)" using ok by (simp add: heap_ok_def)
  show ?thesis
  proof (cases "k = ?n")
    case True
    then show ?thesis
      using removed_last [OF ok] content_removed(2) [of h k ident] n k by (auto simp: heap_erase_def Let_def)
  next
    case False
    then have lt: "1 \<le> k" "k < ?n" using k by auto
    note rem = removed_hole [OF ok lt]
    define g where "g = (if key (nodes h ! k) \<le> key ?e
        then MoveHoleDownAndFillWithLeafElement key ident k ?e ?h2 else MoveHoleUpAndFillWithElement key ident k ?e ?h2)"
    have g: "heap_erase key ident k h = Some g" using lt by (simp add: heap_erase_def g_def Let_def heap_empty_def)
    have "filled key ident k ?e ?h2 g"
    proof (cases "key (nodes h ! k) \<le> key ?e")
      case True
      then show ?thesis using MoveHoleLeaf_filled [of ident ?h2 k ?e key] rem n lt by (simp add: g_def)
    next
      case False
      then have "below_hole key (nodes ?h2) (heap_size ?h2) k ?e"
        using below_hole_smaller [of key "nodes h" ?n "?n - 1" k ?e] ok by (simp add: heap_ok_def)
      then show ?thesis using MoveHoleUp_filled [of ident ?h2 k ?e key] rem n lt False by (simp add: g_def)
    qed
    note f = filled_heap_ok [OF this]
    show ?thesis using f g n lt content_removed(1) [of h k ident] by simp
  qed
qed

lemma heap_Pop_ok:
  assumes ok: "heap_ok key ident h" and n0: "heap_size h \<noteq> 0"
  shows "\<exists>h'. heap_Pop key ident h = Some h' \<and> heap_ok key ident h' \<and> mset (content h') = mset (content h) - {#nodes h ! 1#}"
proof -
  let ?n = "heap_size h"
  let ?h2 = "(MakeHole ident 1 h)\<lparr>heap_size := ?n - 1\<rparr>" and ?e = "nodes h ! heap_size h"
  have n: "?n < length (nodes h)" using ok by (simp add: heap_ok_def)
  show ?thesis
  proof (cases "?n = 1")
    case True
    then show ?thesis
      using removed_last [OF ok] content_removed(2) [of h 1 ident] n by (simp add: heap_Pop_def heap_empty_def)
  next
    case False
    then have lt: "1 \<le> (1 :: nat)" "1 < ?n" using n0 by auto
    note f = filled_heap_ok [OF MoveHoleLeaf_filled [of ident ?h2 1 ?e key]]
    have "\<not> heap_empty ?h2" using lt by (simp add: heap_empty_def)
    then show ?thesis
      using f removed_hole [OF ok lt] n lt content_removed(1) [of h 1 ident] by (simp add: heap_Pop_def Let_def)
  qed
qed

lemma replaced_hole:
  assumes ok: "heap_ok key ident h" and k: "0 < k" "k \<le> heap_size h" and same: "ident e = ident (nodes h ! k)"
  shows "hok ident (heap_size h) k (ident e) (nodes h) (handles h)" and "holed key (nodes h) (heap_size h) k"
  using handles_ok_hole [of ident "heap_size h" "nodes h" "handles h" k] ok k same heap1_holed
  by (auto simp: heap_ok_def)

lemma mset_content_replaced:
  assumes "heap_ok key ident h" and "0 < k" and "k \<le> heap_size h"
  shows "mset ((content h)[k - 1 := e]) = add_mset e (mset (content h) - {#nodes h ! k#})"
  using assms mset_replace [of "k - 1" "content h" e] content_nth [of "k - 1" h] length_content [of h]
  by (auto simp: heap_ok_def)

lemma ChangeKey_ok:
  assumes ok: "heap_ok key ident h" and k: "0 < k" "k \<le> heap_size h" and same: "ident e = ident (nodes h ! k)"
  shows "heap_ok key ident (ChangeKey key ident k e h)"
    and "mset (content (ChangeKey key ident k e h)) = add_mset e (mset (content h) - {#nodes h ! k#})"
proof -
  note rep = replaced_hole [OF assms]
  have n: "heap_size h < length (nodes h)" using ok by (simp add: heap_ok_def)
  have "filled key ident k e h (ChangeKey key ident k e h)"
  proof (cases "key (nodes h ! k) \<le> key e")
    case True
    then show ?thesis using MoveHoleLeaf_filled [of ident h k e key] rep n k by (simp add: ChangeKey_def)
  next
    case False
    then have "below_hole key (nodes h) (heap_size h) k e"
      using below_hole_smaller [of key "nodes h" "heap_size h" "heap_size h" k e] ok by (simp add: heap_ok_def)
    then show ?thesis using MoveHoleUp_filled [of ident h k e key] rep n k False by (simp add: ChangeKey_def)
  qed
  note f = filled_heap_ok [OF this]
  show "heap_ok key ident (ChangeKey key ident k e h)"
    and "mset (content (ChangeKey key ident k e h)) = add_mset e (mset (content h) - {#nodes h ! k#})"
    using f n k mset_content_replaced [OF ok k] by auto
qed

lemma ReplaceMin_ok:
  assumes ok: "heap_ok key ident h" and n0: "0 < heap_size h" and same: "ident e = ident (nodes h ! 1)"
  shows "heap_ok key ident (ReplaceMin key ident e h)"
    and "mset (content (ReplaceMin key ident e h)) = add_mset e (mset (content h) - {#nodes h ! 1#})"
proof -
  have n: "heap_size h < length (nodes h)" using ok by (simp add: heap_ok_def)
  have "down_pre key ident 1 e h"
    using replaced_hole [OF ok _ _ same] n n0 by (simp add: down_pre_def)
  then have "filled key ident 1 e h (ReplaceMin key ident e h)" unfolding ReplaceMin_def by (rule MoveHoleDown_filled)
  note f = filled_heap_ok [OF this]
  show "heap_ok key ident (ReplaceMin key ident e h)"
    and "mset (content (ReplaceMin key ident e h)) = add_mset e (mset (content h) - {#nodes h ! 1#})"
    using f n n0 mset_content_replaced [OF ok, of 1 e] by auto
qed

lemma handles_fold_MakeHole:
  "nodes (fold (MakeHole ident) ks h) = nodes h \<and> heap_size (fold (MakeHole ident) ks h) = heap_size h \<and>
   handles (fold (MakeHole ident) ks h) y = (if \<exists>k \<in> set ks. ident (nodes h ! k) = y then 0 else handles h y)"
  by (induction ks arbitrary: h) auto

lemma heap_Clear_ok:
  assumes ok: "heap_ok key ident h"
  shows "heap_ok key ident (heap_Clear ident dflt h)" and "content (heap_Clear ident dflt h) = []"
proof -
  have "handles (fold (MakeHole ident) [1..<heap_size h + 1] h) y = 0" for y
    using handles_fold_MakeHole [of ident "[1..<heap_size h + 1]" h y] ok
    by (force simp: heap_ok_def handles_ok_def)
  then show "heap_ok key ident (heap_Clear ident dflt h)" and "content (heap_Clear ident dflt h) = []"
    using handles_fold_MakeHole [of ident "[1..<heap_size h + 1]" h]
    by (auto simp: heap_Clear_def heap_ok_def heap1_def handles_ok_def content_def vector_resize_def kMinimumHeapSize_def)
qed

text \<open>
  The heaps that the operations build, with the multiset of elements they should hold.  Clients insert only
  elements whose object is not in the heap, and replace an element by one for the same object.
\<close>

inductive heap_reach ::
  "('a \<Rightarrow> 'k::linorder) \<Rightarrow> ('a \<Rightarrow> 'i) \<Rightarrow> 'a \<Rightarrow> ('a, 'i) IntrusiveHeap \<Rightarrow> 'a multiset \<Rightarrow> bool" for key ident dflt where
  new: "heap_reach key ident dflt (new_IntrusiveHeap dflt) {#}"
| ins: "heap_reach key ident dflt h M \<Longrightarrow> \<not> IsValid (handles h (ident e)) \<Longrightarrow>
    heap_reach key ident dflt (heap_insert key ident dflt e h) (add_mset e M)"
| pop: "heap_reach key ident dflt h M \<Longrightarrow> heap_Pop key ident h = Some h' \<Longrightarrow> Min_elem h = Some m \<Longrightarrow>
    heap_reach key ident dflt h' (M - {#m#})"
| erase: "heap_reach key ident dflt h M \<Longrightarrow> e \<in># M \<Longrightarrow> heap_erase key ident (handles h (ident e)) h = Some h' \<Longrightarrow>
    heap_reach key ident dflt h' (M - {#e#})"
| replace: "heap_reach key ident dflt h M \<Longrightarrow> Min_elem h = Some m \<Longrightarrow> ident e = ident m \<Longrightarrow>
    heap_reach key ident dflt (ReplaceMin key ident e h) (add_mset e (M - {#m#}))"
| change: "heap_reach key ident dflt h M \<Longrightarrow> x \<in># M \<Longrightarrow> ident e = ident x \<Longrightarrow>
    heap_reach key ident dflt (ChangeKey key ident (handles h (ident x)) e h) (add_mset e (M - {#x#}))"
| clear: "heap_reach key ident dflt h M \<Longrightarrow> heap_reach key ident dflt (heap_Clear ident dflt h) {#}"

lemma heap_member:
  assumes ok: "heap_ok key ident h" and x: "x \<in># mset (content h)"
  shows "0 < handles h (ident x)" "handles h (ident x) \<le> heap_size h" "nodes h ! handles h (ident x) = x"
proof -
  obtain i where i: "i < heap_size h" "nodes h ! Suc i = x"
    using x ok content_nth [of _ h] length_content [of h] by (auto simp: in_set_conv_nth heap_ok_def)
  then have "handles h (ident x) = Suc i" using ok by (auto simp: heap_ok_def handles_ok_def)
  then show "0 < handles h (ident x)" "handles h (ident x) \<le> heap_size h" "nodes h ! handles h (ident x) = x" using i by simp_all
qed

lemma heap_reach_ok: "heap_reach key ident dflt h M \<Longrightarrow> heap_ok key ident h \<and> mset (content h) = M"
proof (induction rule: heap_reach.induct)
  case new
  then show ?case
    by (simp add: new_IntrusiveHeap_def heap_ok_def heap1_def handles_ok_def content_def kMinimumHeapSize_def)
next
  case (ins h M e)
  then show ?case using heap_insert_ok [of key ident h e dflt] by (simp add: IsValid_def)
next
  case (pop h M h' m)
  then show ?case using heap_Pop_ok [of key ident h] by (auto simp: Min_elem_def split: if_splits)
next
  case (erase h M e h')
  then have "heap_ok key ident h" "e \<in># mset (content h)" by simp_all
  from heap_member [OF this] erase show ?case using heap_erase_ok [of key ident h "handles h (ident e)"] by auto
next
  case (replace h M m e)
  then show ?case using ReplaceMin_ok [of key ident h e] by (auto simp: Min_elem_def split: if_splits)
next
  case (change h M x e)
  then have "heap_ok key ident h" "x \<in># mset (content h)" by simp_all
  from heap_member [OF this] change show ?case using ChangeKey_ok [of key ident h "handles h (ident x)" e] by auto
next
  case (clear h M)
  then show ?case using heap_Clear_ok [of key ident h dflt] by simp
qed

text \<open>
  C26: An intrusive heap is a priority queue with exact handles.  After any operations the heap holds exactly
  the elements put in and not taken out, \<open>Min\<close> gives one with the smallest key, the handle of an element's object is the
  place of the element, and an object has a valid handle exactly when an element for it is in the heap.
  \<open>Pop\<close> is defined on every heap but the empty one, and \<open>erase\<close> on the handle of every element.
\<close>

theorem intrusive_heap_correct:
  assumes "heap_reach key ident dflt h M"
  shows "mset (content h) = M \<and> heap_size h = size M \<and>
         (case Min_elem h of None \<Rightarrow> M = {#} | Some m \<Rightarrow> m \<in># M \<and> (\<forall>x \<in># M. key m \<le> key x)) \<and>
         (\<forall>x \<in># M. nodes h ! handles h (ident x) = x) \<and>
         (\<forall>y. IsValid (handles h y) \<longleftrightarrow> y \<in> ident ` set_mset M) \<and>
         (heap_Pop key ident h = None \<longleftrightarrow> M = {#}) \<and>
         (\<forall>x \<in># M. heap_erase key ident (handles h (ident x)) h \<noteq> None)"
proof -
  have ok: "heap_ok key ident h" and M: "mset (content h) = M" using heap_reach_ok [OF assms] by auto
  have n: "heap_size h < length (nodes h)" using ok by (simp add: heap_ok_def)
  have size: "heap_size h = size M" using length_content [OF n] M by auto
  have in_M: "nodes h ! i \<in># M" if "1 \<le> i" "i \<le> heap_size h" for i
  proof -
    have "content h ! (i - 1) \<in> set (content h)" using that length_content [OF n] by simp
    then show ?thesis using content_nth [of "i - 1" h] that n M by auto
  qed
  have "key (nodes h ! 1) \<le> key x" if "x \<in># M" for x
    using heap_member [OF ok, of x] that M heap1_root_min [of key "nodes h" "heap_size h" "handles h (ident x)"] ok
    by (simp add: heap_ok_def)
  then have min: "case Min_elem h of None \<Rightarrow> M = {#} | Some m \<Rightarrow> m \<in># M \<and> (\<forall>x \<in># M. key m \<le> key x)"
    using in_M [of 1] size by (auto simp: Min_elem_def Suc_le_eq nonempty_has_size)
  have "IsValid (handles h y) \<longleftrightarrow> y \<in> ident ` set_mset M" for y
    using heap_member(1) [OF ok] M in_M ok unfolding IsValid_def heap_ok_def handles_ok_def by blast
  moreover have "heap_Pop key ident h = None \<longleftrightarrow> M = {#}"
    using size by (auto simp: heap_Pop_def nonempty_has_size Let_def)
  moreover have "heap_erase key ident (handles h (ident x)) h \<noteq> None" if "x \<in># M" for x
    using heap_member(1,2) [OF ok, of x] that M heap_erase_ok [OF ok, of "handles h (ident x)"] by auto
  ultimately show ?thesis using M size min heap_member(3) [OF ok] by simp
qed

theorem intrusive_heap_correct_witness:
  "\<exists>h. heap_reach fst snd (0, 0) h {#(2, 20), (5, 10 :: nat)#} \<and> Min_elem h = Some (2 :: nat, 20) \<and>
     nodes h ! handles h 10 = (5, 10)"
proof -
  let ?h = "heap_insert fst snd (0, 0) (2, 20) (heap_insert fst snd (0, 0) (5, 10) (new_IntrusiveHeap (0, 0)))
      :: (nat \<times> nat, nat) IntrusiveHeap"
  have v: "\<not> IsValid (handles (heap_insert fst snd (0, 0) (5, 10) (new_IntrusiveHeap (0 :: nat, 0 :: nat))) 20)"
    by code_simp
  have r: "heap_reach fst snd (0, 0) ?h {#(2, 20), (5, 10)#}"
    by (intro heap_reach.ins heap_reach.new) (use v in \<open>simp_all add: new_IntrusiveHeap_def IsValid_def\<close>)
  moreover have "Min_elem ?h = Some (2, 20)" by code_simp
  ultimately show ?thesis using intrusive_heap_correct [OF r] by (intro exI [of _ ?h]) simp
qed

end
