(* ===== verification/Message_Blocks.thy ===== *)
theory Message_Blocks
  imports Libchrome_Prelude
begin

unbundle bit_operations_syntax

text \<open>
  What the message digests of \<open>base\<close> have in common: a message is cut into blocks of 64 bytes, a compression
  function takes the blocks one by one, and the last blocks are padded with \<open>0x80\<close>, zeros and the length in bits.
  The locale \<open>block_hash\<close> is the contract of such a digest; its lemmas say what a streaming implementation must do
  with the bytes it holds back.  SHA-1 and MD5 interpret it.
\<close>

section \<open>Words and their bytes\<close>

lemma rotl_shifts:
  assumes "0 < n" "n < 32"
  shows "push_bit n x OR drop_bit (32 - n) x = word_rotl n (x :: u32)"
proof (rule bit_word_eqI)
  fix i assume "i < LENGTH(32)"
  then have i: "i < 32" by simp
  show "bit (push_bit n x OR drop_bit (32 - n) x) i = bit (word_rotl n x) i"
  proof (cases "n \<le> i")
    case True
    then have "i + 32 - n = (i - n) + 32" by simp
    then have "(i + 32 - n) mod 32 = i - n" using i by (simp only: mod_add_self2 mod_less)
    moreover have "\<not> bit x (32 + i - n)" using True bit_imp_le_length [of x "32 + i - n"] by auto
    ultimately show ?thesis using assms i True by (simp add: bit_simps)
  next
    case False
    moreover have "32 - n + i = i + 32 - n" "32 + i - n = i + 32 - n" using assms by auto
    ultimately show ?thesis using assms i by (simp add: bit_simps)
  qed
qed

lemma le_enc_map: "le_enc k n = map (\<lambda>i. of_nat (n div 256 ^ i mod 256)) [0..<k]"
  by (induction k arbitrary: n) (simp_all add: upt_conv_Cons map_Suc_upt [symmetric] div_mult2_eq del: upt_Suc)

lemma enc_dec_u32: "length bs = 4 \<Longrightarrow> enc_u32 (dec_u32 bs) = bs"
  using le_enc_dec [of bs] le_dec_bound [of bs] by (simp add: enc_u32_def dec_u32_def unat_of_nat)

section \<open>Blocks\<close>

function blocks :: "byte list \<Rightarrow> byte list list" where
  "blocks bs = (if length bs < 64 then [] else take 64 bs # blocks (drop 64 bs))"
  by pat_completeness auto
termination by (relation "measure length") auto

declare blocks.simps [simp del]

definition tail :: "byte list \<Rightarrow> byte list" where
  "tail bs = drop (64 * (length bs div 64)) bs"

lemma blocks_short [simp]: "length bs < 64 \<Longrightarrow> blocks bs = []"
  by (simp add: blocks.simps)

lemma blocks_block: "length b = 64 \<Longrightarrow> blocks (b @ bs) = b # blocks bs"
  by (subst blocks.simps) simp

lemma length_tail [simp]: "length (tail bs) = length bs mod 64"
  by (simp add: tail_def minus_mult_div_eq_mod)

lemma tail_short [simp]: "length bs < 64 \<Longrightarrow> tail bs = bs"
  by (simp add: tail_def)

lemma tail_block: "length b = 64 \<Longrightarrow> tail (b @ bs) = tail bs"
  using div_add_self1 [of 64 "length bs"] by (simp add: tail_def)

lemma tail_64 [simp]: "length b = 64 \<Longrightarrow> tail b = []"
  using tail_block [of b "[]"] by simp

lemma blocks_64 [simp]: "length b = 64 \<Longrightarrow> blocks b = [b]"
  using blocks_block [of b "[]"] by simp

lemma blocks_tail_append: "blocks (bs @ cs) = blocks bs @ blocks (tail bs @ cs) \<and> tail (bs @ cs) = tail (tail bs @ cs)"
proof (induction bs rule: blocks.induct)
  case (1 bs)
  show ?case
  proof (cases "length bs < 64")
    case True
    then show ?thesis by simp
  next
    case False
    let ?b = "take 64 bs" and ?r = "drop 64 bs"
    have b: "length ?b = 64" using False by simp
    have bs: "bs = ?b @ ?r" by simp
    have "blocks (?b @ ?r @ cs) = (?b # blocks ?r) @ blocks (tail ?r @ cs)" "tail (?b @ ?r @ cs) = tail (tail ?r @ cs)"
      using 1 [OF False] blocks_block [OF b] tail_block [OF b] by simp_all
    moreover have "blocks bs = ?b # blocks ?r" "tail bs = tail ?r"
      using bs blocks_block [OF b, of ?r] tail_block [OF b, of ?r] by metis+
    ultimately show ?thesis using bs by (metis append.assoc)
  qed
qed

lemmas blocks_append = blocks_tail_append [THEN conjunct1]
lemmas tail_append = blocks_tail_append [THEN conjunct2]

section \<open>Padding\<close>

definition zeros :: "nat \<Rightarrow> byte list" where
  "zeros n = replicate n 0"

lemma length_zeros [simp]: "length (zeros n) = n"
  by (simp add: zeros_def)

definition padded :: "(u64 \<Rightarrow> byte list) \<Rightarrow> byte list \<Rightarrow> byte list" where
  "padded enc bs = bs @ 0x80 # zeros ((119 - length bs mod 64) mod 64) @ enc (of_nat (8 * length bs))"

lemma pad_one:
  assumes "m < (56 :: nat)"
  shows "(119 - m) mod 64 = 55 - m"
proof -
  have "119 - m = 64 + (55 - m)" "55 - m < 64" using assms by arith+
  then show ?thesis by (simp only: mod_add_self1 mod_less)
qed

locale block_hash =
  fixes compress :: "'h \<Rightarrow> byte list \<Rightarrow> 'h" and enc :: "u64 \<Rightarrow> byte list"
  assumes length_enc: "length (enc n) = 8"
begin

definition absorb :: "byte list \<Rightarrow> 'h \<Rightarrow> 'h" where
  "absorb bs h = fold (\<lambda>b h. compress h b) (blocks bs) h"

lemma absorb_Nil [simp]: "absorb [] h = h"
  by (simp add: absorb_def)

lemma absorb_append: "absorb (bs @ cs) h = absorb (tail bs @ cs) (absorb bs h)"
  unfolding absorb_def by (subst blocks_append) simp

lemma absorb_short: "length bs mod 64 + length cs < 64 \<Longrightarrow> absorb (bs @ cs) h = absorb bs h"
  by (subst absorb_append) (simp add: absorb_def)

lemma absorb_fill:
  "length bs mod 64 + length cs = 64 \<Longrightarrow> absorb (bs @ cs) h = compress (absorb bs h) (tail bs @ cs) \<and> tail (bs @ cs) = []"
  by (subst absorb_append, subst tail_append) (simp add: absorb_def)

lemma absorb_block: "length b = 64 \<Longrightarrow> absorb (b @ bs) h = absorb bs (compress h b)"
  by (simp add: absorb_def blocks_block)

lemma absorb_padded_one:
  assumes "length bs mod 64 < 56"
  shows "absorb (padded enc bs) h =
    compress (absorb bs h) (tail bs @ 0x80 # zeros (55 - length bs mod 64) @ enc (of_nat (8 * length bs)))"
proof -
  have z: "(119 - length bs mod 64) mod 64 = 55 - length bs mod 64" using assms by (rule pad_one)
  show ?thesis unfolding padded_def z
    by (rule absorb_fill [THEN conjunct1]) (use assms length_enc in simp)
qed

lemma absorb_padded_two:
  assumes "56 \<le> length bs mod 64"
  shows "absorb (padded enc bs) h =
    compress (compress (absorb bs h) (tail bs @ 0x80 # zeros (63 - length bs mod 64)))
      (zeros 56 @ enc (of_nat (8 * length bs)))"
proof -
  let ?m = "length bs mod 64" and ?l = "enc (of_nat (8 * length bs))"
  have m: "?m < 64" by simp
  have "(119 - ?m) mod 64 = 119 - ?m" "119 - ?m = (63 - ?m) + 56" using assms m by simp_all
  then have "(119 - ?m) mod 64 = (63 - ?m) + 56" by metis
  then have "padded enc bs = (bs @ 0x80 # zeros (63 - ?m)) @ zeros 56 @ ?l"
    unfolding padded_def zeros_def by (simp only: replicate_add append_assoc append_Cons append_Nil)
  moreover have "absorb (bs @ 0x80 # zeros (63 - ?m)) h = compress (absorb bs h) (tail bs @ 0x80 # zeros (63 - ?m)) \<and>
      tail (bs @ 0x80 # zeros (63 - ?m)) = []"
    by (rule absorb_fill) (use m in simp)
  ultimately show ?thesis
    using absorb_append [of "bs @ 0x80 # zeros (63 - ?m)" "zeros 56 @ ?l" h]
      absorb_block [of "zeros 56 @ ?l" "[]"] length_enc by simp
qed

end

end
