(* ===== verification/Sha1.thy ===== *)
theory Sha1
  imports Message_Blocks
begin

unbundle bit_operations_syntax

text \<open>
  \<open>SecureHashAlgorithm\<close> (\<open>base/sha1.cc\<close>), and SHA-1 as FIPS 180 defines it.

  The union of \<open>W\<close> and \<open>M\<close> is the list of its 80 words; \<open>set_M\<close> stores a byte of \<open>M\<close> into the word it
  shares, as on a little-endian machine.  The class leaves the union uninitialised, so it starts as an arbitrary
  list of 80 words.
\<close>

section \<open>The class\<close>

record SecureHashAlgorithm =
  sha_A :: u32
  sha_B :: u32
  sha_C :: u32
  sha_D :: u32
  sha_E :: u32
  sha_H :: "u32 list"
  sha_W :: "u32 list"
  sha_cursor :: u32
  sha_l :: u64

definition ByteSwap32 :: "u32 \<Rightarrow> u32" where
  "ByteSwap32 x = dec_u32 (rev (enc_u32 x))"

definition sha_f :: "nat \<Rightarrow> u32 \<Rightarrow> u32 \<Rightarrow> u32 \<Rightarrow> u32" where
  "sha_f t B C D =
     (if t < 20 then (B AND C) OR ((NOT B) AND D)
      else if t < 40 then B XOR C XOR D
      else if t < 60 then (B AND C) OR (B AND D) OR (C AND D)
      else B XOR C XOR D)"

definition sha_S :: "nat \<Rightarrow> u32 \<Rightarrow> u32" where
  "sha_S n X = push_bit n X OR drop_bit (32 - n) X"

definition sha_K :: "nat \<Rightarrow> u32" where
  "sha_K t =
     (if t < 20 then 0x5a827999
      else if t < 40 then 0x6ed9eba1
      else if t < 60 then 0x8f1bbcdc
      else 0xca62c1d6)"

definition sha_Init :: "SecureHashAlgorithm \<Rightarrow> SecureHashAlgorithm" where
  "sha_Init s = s\<lparr>sha_A := 0, sha_B := 0, sha_C := 0, sha_D := 0, sha_E := 0, sha_cursor := 0, sha_l := 0,
     sha_H := [0x67452301, 0xefcdab89, 0x98badcfe, 0x10325476, 0xc3d2e1f0]\<rparr>"

definition set_M :: "nat \<Rightarrow> byte \<Rightarrow> u32 list \<Rightarrow> u32 list" where
  "set_M i b W = W[i div 4 := dec_u32 ((enc_u32 (W ! (i div 4)))[i mod 4 := b])]"

text \<open>The statement \<open>M[cursor++] = b\<close>.\<close>

definition put_M :: "byte \<Rightarrow> SecureHashAlgorithm \<Rightarrow> SecureHashAlgorithm" where
  "put_M b s = s\<lparr>sha_W := set_M (unat (sha_cursor s)) b (sha_W s), sha_cursor := sha_cursor s + 1\<rparr>"

definition swap_step :: "nat \<Rightarrow> u32 list \<Rightarrow> u32 list" where
  "swap_step t W = W[t := ByteSwap32 (W ! t)]"

definition sched_step :: "nat \<Rightarrow> u32 list \<Rightarrow> u32 list" where
  "sched_step t W = W[t := sha_S 1 (W ! (t - 3) XOR W ! (t - 8) XOR W ! (t - 14) XOR W ! (t - 16))]"

definition round_step :: "nat \<Rightarrow> SecureHashAlgorithm \<Rightarrow> SecureHashAlgorithm" where
  "round_step t s =
     (let TEMP = sha_S 5 (sha_A s) + sha_f t (sha_B s) (sha_C s) (sha_D s) + sha_E s + sha_W s ! t + sha_K t
      in s\<lparr>sha_E := sha_D s, sha_D := sha_C s, sha_C := sha_S 30 (sha_B s), sha_B := sha_A s, sha_A := TEMP\<rparr>)"

definition sha_Process :: "SecureHashAlgorithm \<Rightarrow> SecureHashAlgorithm" where
  "sha_Process s =
     (let W1 = fold swap_step [0..<16] (sha_W s);
          W2 = fold sched_step [16..<80] W1;
          s1 = s\<lparr>sha_W := W2, sha_A := sha_H s ! 0, sha_B := sha_H s ! 1, sha_C := sha_H s ! 2,
                 sha_D := sha_H s ! 3, sha_E := sha_H s ! 4\<rparr>;
          s2 = fold round_step [0..<80] s1
      in s2\<lparr>sha_H := [sha_H s2 ! 0 + sha_A s2, sha_H s2 ! 1 + sha_B s2, sha_H s2 ! 2 + sha_C s2,
                     sha_H s2 ! 3 + sha_D s2, sha_H s2 ! 4 + sha_E s2],
            sha_cursor := 0\<rparr>)"

definition sha_Update_byte :: "byte \<Rightarrow> SecureHashAlgorithm \<Rightarrow> SecureHashAlgorithm" where
  "sha_Update_byte d s =
     (let s1 = put_M d s; s2 = (if 64 \<le> sha_cursor s1 then sha_Process s1 else s1)
      in s2\<lparr>sha_l := sha_l s2 + 8\<rparr>)"

definition sha_Update :: "byte list \<Rightarrow> SecureHashAlgorithm \<Rightarrow> SecureHashAlgorithm" where
  "sha_Update data s = fold sha_Update_byte data s"

text \<open>The loop \<open>while (cursor < limit) M[cursor++] = 0\<close>.\<close>

function fill_M :: "u32 \<Rightarrow> SecureHashAlgorithm \<Rightarrow> SecureHashAlgorithm" where
  "fill_M limit s = (if sha_cursor s < limit then fill_M limit (put_M 0 s) else s)"
  by pat_completeness auto
termination
proof (relation "measure (\<lambda>(limit, s). unat limit - unat (sha_cursor s))")
  fix limit :: u32 and s :: SecureHashAlgorithm
  assume c: "sha_cursor s < limit"
  then have "unat (sha_cursor s) < unat limit" by (simp add: word_less_nat_alt)
  moreover have "unat (sha_cursor s + 1) = unat (sha_cursor s) + 1"
    using \<open>unat (sha_cursor s) < unat limit\<close> unsigned_less [of limit, where ?'a = nat]
    by (simp add: unat_word_ariths(1))
  ultimately show "((limit, put_M 0 s), limit, s) \<in> measure (\<lambda>(limit, s). unat limit - unat (sha_cursor s))"
    by (simp add: put_M_def)
qed simp

declare fill_M.simps [simp del]

definition length_byte :: "nat \<Rightarrow> SecureHashAlgorithm \<Rightarrow> byte" where
  "length_byte n s = ucast (drop_bit n (sha_l s) AND 0xff)"

definition put_length :: "SecureHashAlgorithm \<Rightarrow> SecureHashAlgorithm" where
  "put_length s = fold (\<lambda>n s. put_M (length_byte n s) s) [56, 48, 40, 32, 24, 16, 8, 0] s"

definition sha_Pad :: "SecureHashAlgorithm \<Rightarrow> SecureHashAlgorithm" where
  "sha_Pad s =
     (let s1 = put_M 0x80 s;
          s2 = (if 64 - 8 < sha_cursor s1 then sha_Process (fill_M 64 s1) else s1)
      in put_length (fill_M (64 - 8) s2))"

definition sha_Final :: "SecureHashAlgorithm \<Rightarrow> SecureHashAlgorithm" where
  "sha_Final s = (let s1 = sha_Process (sha_Pad s) in s1\<lparr>sha_H := map ByteSwap32 (sha_H s1)\<rparr>)"

definition sha_Digest :: "SecureHashAlgorithm \<Rightarrow> byte list" where
  "sha_Digest s = concat (map enc_u32 (sha_H s))"

definition SHA1HashBytes :: "SecureHashAlgorithm \<Rightarrow> byte list \<Rightarrow> byte list" where
  "SHA1HashBytes raw data = take 20 (sha_Digest (sha_Final (sha_Update data (sha_Init raw))))"

section \<open>SHA-1\<close>

definition be_word :: "byte list \<Rightarrow> u32" where
  "be_word bs = dec_u32 (rev bs)"

definition Ch :: "u32 \<Rightarrow> u32 \<Rightarrow> u32 \<Rightarrow> u32" where
  "Ch x y z = (x AND y) XOR (NOT x AND z)"

definition Parity :: "u32 \<Rightarrow> u32 \<Rightarrow> u32 \<Rightarrow> u32" where
  "Parity x y z = x XOR y XOR z"

definition Maj :: "u32 \<Rightarrow> u32 \<Rightarrow> u32 \<Rightarrow> u32" where
  "Maj x y z = (x AND y) XOR (x AND z) XOR (y AND z)"

fun schedule :: "byte list \<Rightarrow> nat \<Rightarrow> u32" where
  "schedule m t = (if t < 16 then be_word (take 4 (drop (4 * t) m))
     else word_rotl 1 (schedule m (t - 3) XOR schedule m (t - 8) XOR schedule m (t - 14) XOR schedule m (t - 16)))"

declare schedule.simps [simp del]

type_synonym five = "u32 \<times> u32 \<times> u32 \<times> u32 \<times> u32"

definition fips_round :: "byte list \<Rightarrow> nat \<Rightarrow> five \<Rightarrow> five" where
  "fips_round m t = (\<lambda>(a, b, c, d, e).
     let ft = (if t \<le> 19 then Ch b c d else if t \<le> 39 then Parity b c d else if t \<le> 59 then Maj b c d else Parity b c d);
         Kt = (if t \<le> 19 then 0x5a827999 else if t \<le> 39 then 0x6ed9eba1 else if t \<le> 59 then 0x8f1bbcdc else 0xca62c1d6)
     in (word_rotl 5 a + ft + e + Kt + schedule m t, a, word_rotl 30 b, c, d))"

definition fips_compress :: "five \<Rightarrow> byte list \<Rightarrow> five" where
  "fips_compress H m = (case H of (h0, h1, h2, h3, h4) \<Rightarrow> case fold (fips_round m) [0..<80] H of (a, b, c, d, e) \<Rightarrow>
     (h0 + a, h1 + b, h2 + c, h3 + d, h4 + e))"

definition be_u64 :: "u64 \<Rightarrow> byte list" where
  "be_u64 n = rev (enc_u64 n)"

definition be_u32 :: "u32 \<Rightarrow> byte list" where
  "be_u32 n = rev (enc_u32 n)"

interpretation sha1: block_hash fips_compress be_u64
  by standard (simp add: be_u64_def)

definition sha1_digest :: "byte list \<Rightarrow> byte list" where
  "sha1_digest m =
     (case fold (\<lambda>b h. fips_compress h b) (blocks (padded be_u64 m)) (0x67452301, 0xefcdab89, 0x98badcfe, 0x10325476, 0xc3d2e1f0)
      of (a, b, c, d, e) \<Rightarrow> be_u32 a @ be_u32 b @ be_u32 c @ be_u32 d @ be_u32 e)"

section \<open>The functions of a round\<close>

lemma sha_S_rotl: "0 < n \<Longrightarrow> n < 32 \<Longrightarrow> sha_S n x = word_rotl n x"
  by (simp add: sha_S_def rotl_shifts)

lemma sha_f_fips:
  "sha_f t b c d = (if t \<le> 19 then Ch b c d else if t \<le> 39 then Parity b c d else if t \<le> 59 then Maj b c d else Parity b c d)"
  unfolding sha_f_def Ch_def Parity_def Maj_def
  by (rule bit_word_eqI) (auto simp: bit_simps)

section \<open>The union\<close>

definition bytes :: "u32 list \<Rightarrow> byte list" where
  "bytes W = concat (map enc_u32 W)"

lemma length_bytes [simp]: "length (bytes W) = 4 * length W"
  by (simp add: bytes_def u32c.length_concat_enc)

lemma bytes_set_M: "i < 4 * length W \<Longrightarrow> bytes (set_M i b W) = (bytes W)[i := b]"
proof (induction W arbitrary: i)
  case (Cons w W)
  show ?case
  proof (cases "i < 4")
    case True
    then show ?thesis by (simp add: set_M_def bytes_def enc_dec_u32 list_update_append)
  next
    case False
    then obtain j where i: "i = j + 4" by (metis add.commute le_Suc_ex not_le)
    moreover have "(j + 4) div 4 = Suc (j div 4)" by simp
    ultimately show ?thesis using Cons.IH [of j] Cons.prems by (simp add: set_M_def bytes_def list_update_append del: div_add_self2)
  qed
qed simp

lemma length_set_M [simp]: "length (set_M i b W) = length W"
  by (simp add: set_M_def)

lemma word_of_bytes: "t < length W \<Longrightarrow> take 4 (drop (4 * t) (bytes W)) = enc_u32 (W ! t)"
proof (induction W arbitrary: t)
  case (Cons w W)
  then show ?case by (cases t) (auto simp: bytes_def)
qed simp

lemma be_word_block: "t < 16 \<Longrightarrow> 16 \<le> length W \<Longrightarrow> be_word (take 4 (drop (4 * t) (take 64 (bytes W)))) = ByteSwap32 (W ! t)"
  using word_of_bytes [of t W] by (simp add: be_word_def ByteSwap32_def drop_take min_absorb1)

section \<open>Processing a block\<close>

lemma swap_loop:
  "n \<le> length W \<Longrightarrow> length (fold swap_step [0..<n] W) = length W \<and>
   (\<forall>j < length W. fold swap_step [0..<n] W ! j = (if j < n then ByteSwap32 (W ! j) else W ! j))"
  by (induction n) (auto simp: swap_step_def nth_list_update)

lemma sched_loop:
  assumes "\<And>j. j < 16 \<Longrightarrow> W ! j = schedule m j"
  shows "16 + k \<le> length W \<Longrightarrow> length (fold sched_step [16..<16 + k] W) = length W \<and>
    (\<forall>j < 16 + k. fold sched_step [16..<16 + k] W ! j = schedule m j)"
proof (induction k)
  case 0
  then show ?case using assms by simp
next
  case (Suc k)
  let ?W = "fold sched_step [16..<16 + k] W"
  have W: "fold sched_step [16..<16 + Suc k] W = sched_step (16 + k) ?W"
    unfolding add_Suc_right by (subst upt_Suc_append) simp_all
  have IH: "length ?W = length W" "\<And>j. j < 16 + k \<Longrightarrow> ?W ! j = schedule m j" using Suc by simp_all
  then have "sched_step (16 + k) ?W ! (16 + k) = schedule m (16 + k)"
    using Suc.prems by (subst schedule.simps) (simp add: sched_step_def sha_S_rotl)
  moreover have "sched_step (16 + k) ?W ! j = schedule m j" if "j < 16 + k" for j
    using IH that by (simp add: sched_step_def)
  ultimately have "\<forall>j < Suc (16 + k). sched_step (16 + k) ?W ! j = schedule m j" by (simp only: less_Suc_eq) blast
  then show ?case unfolding W using IH(1) by (simp add: sched_step_def)
qed

definition regs :: "SecureHashAlgorithm \<Rightarrow> five" where
  "regs s = (sha_A s, sha_B s, sha_C s, sha_D s, sha_E s)"

definition five :: "u32 list \<Rightarrow> five" where
  "five xs = (xs ! 0, xs ! 1, xs ! 2, xs ! 3, xs ! 4)"

lemma round_loop:
  assumes "\<And>t. t < n \<Longrightarrow> sha_W s ! t = schedule m t"
  shows "regs (fold round_step [0..<n] s) = fold (fips_round m) [0..<n] (regs s) \<and>
    sha_W (fold round_step [0..<n] s) = sha_W s \<and> sha_H (fold round_step [0..<n] s) = sha_H s \<and>
    sha_l (fold round_step [0..<n] s) = sha_l s"
  using assms
proof (induction n)
  case (Suc n)
  then show ?case
    by (auto simp: round_step_def fips_round_def regs_def Let_def sha_S_rotl sha_f_fips sha_K_def algebra_simps split: prod.splits)
qed simp

lemma sha_Process_compress:
  assumes "length (sha_W s) = 80" and "length (sha_H s) = 5"
  shows "five (sha_H (sha_Process s)) = fips_compress (five (sha_H s)) (take 64 (bytes (sha_W s)))"
    and "length (sha_W (sha_Process s)) = 80" and "length (sha_H (sha_Process s)) = 5"
    and "sha_l (sha_Process s) = sha_l s" and "sha_cursor (sha_Process s) = 0"
proof -
  let ?m = "take 64 (bytes (sha_W s))" and ?W1 = "fold swap_step [0..<16] (sha_W s)"
  let ?W2 = "fold sched_step [16..<80] ?W1"
  let ?s1 = "s\<lparr>sha_W := ?W2, sha_A := sha_H s ! 0, sha_B := sha_H s ! 1, sha_C := sha_H s ! 2,
     sha_D := sha_H s ! 3, sha_E := sha_H s ! 4\<rparr>"
  have "?W1 ! j = schedule ?m j" if "j < 16" for j
    using swap_loop [of 16 "sha_W s"] be_word_block [of j "sha_W s"] assms that by (simp add: schedule.simps [of _ j])
  from sched_loop [of ?W1, OF this, of 64] have W2: "length ?W2 = 80" "\<And>j. j < 80 \<Longrightarrow> ?W2 ! j = schedule ?m j"
    using swap_loop [of 16 "sha_W s"] assms by simp_all
  define s2 where "s2 = fold round_step [0..<80] ?s1"
  have r: "regs s2 = fold (fips_round ?m) [0..<80] (five (sha_H s))" "sha_W s2 = ?W2" "sha_H s2 = sha_H s" "sha_l s2 = sha_l s"
    using round_loop [of 80 ?s1 ?m] W2(2) unfolding s2_def by (simp_all add: regs_def five_def del: upt_rec_numeral)
  have P: "sha_Process s = s2\<lparr>sha_H := [sha_H s2 ! 0 + sha_A s2, sha_H s2 ! 1 + sha_B s2, sha_H s2 ! 2 + sha_C s2,
      sha_H s2 ! 3 + sha_D s2, sha_H s2 ! 4 + sha_E s2], sha_cursor := 0\<rparr>"
    unfolding sha_Process_def s2_def Let_def ..
  show "five (sha_H (sha_Process s)) = fips_compress (five (sha_H s)) ?m"
    using r(1) [symmetric] r(3) by (simp add: P five_def fips_compress_def regs_def del: upt_rec_numeral)
  show "length (sha_W (sha_Process s)) = 80" and "length (sha_H (sha_Process s)) = 5"
    and "sha_l (sha_Process s) = sha_l s" and "sha_cursor (sha_Process s) = 0"
    using r W2(1) by (simp_all add: P)
qed

section \<open>Streaming\<close>

text \<open>\<open>sha_mem s h pre\<close>: the blocks so far give \<open>h\<close>, and \<open>pre\<close> waits in \<open>M\<close>.\<close>

definition sha_mem :: "SecureHashAlgorithm \<Rightarrow> five \<Rightarrow> byte list \<Rightarrow> bool" where
  "sha_mem s h pre \<longleftrightarrow> length (sha_W s) = 80 \<and> length (sha_H s) = 5 \<and> five (sha_H s) = h \<and>
     unat (sha_cursor s) = length pre \<and> length pre \<le> 64 \<and> take (length pre) (bytes (sha_W s)) = pre"

lemma sha_mem_put:
  assumes "sha_mem s h pre" and "length pre < 64"
  shows "sha_mem (put_M b s) h (pre @ [b])" and "sha_l (put_M b s) = sha_l s"
proof -
  have "unat (sha_cursor s + 1) = length pre + 1"
    using assms by (simp add: sha_mem_def unat_word_ariths(1))
  moreover have "take (Suc (length pre)) ((bytes (sha_W s))[length pre := b]) = pre @ [b]"
    using assms by (simp add: sha_mem_def take_Suc_conv_app_nth take_update_cancel)
  ultimately show "sha_mem (put_M b s) h (pre @ [b])" "sha_l (put_M b s) = sha_l s"
    using assms by (simp_all add: sha_mem_def put_M_def bytes_set_M)
qed

lemma sha_mem_Process:
  assumes "sha_mem s h pre" and "length pre = 64"
  shows "sha_mem (sha_Process s) (fips_compress h pre) []" and "sha_l (sha_Process s) = sha_l s"
  using assms sha_Process_compress [of s] by (simp_all add: sha_mem_def)

lemma sha_mem_fill:
  "sha_mem s h pre \<Longrightarrow> length pre \<le> unat limit \<Longrightarrow> unat limit \<le> 64 \<Longrightarrow>
   sha_mem (fill_M limit s) h (pre @ zeros (unat limit - length pre)) \<and> sha_l (fill_M limit s) = sha_l s"
proof (induction limit s arbitrary: pre rule: fill_M.induct)
  case (1 limit s)
  have c: "sha_cursor s < limit \<longleftrightarrow> length pre < unat limit"
    using 1(2) by (simp add: sha_mem_def word_less_nat_alt)
  show ?case
  proof (cases "length pre < unat limit")
    case True
    have "sha_mem (put_M 0 s) h (pre @ [0])" using sha_mem_put(1) [OF 1(2)] True 1(4) by simp
    moreover have "(pre @ [0]) @ zeros (unat limit - length (pre @ [0])) = pre @ zeros (unat limit - length pre)"
      using True by (simp add: zeros_def flip: replicate_Suc)
    ultimately show ?thesis
      using 1(1) [of "pre @ [0]"] True c 1(3,4) by (simp add: fill_M.simps [of limit s] put_M_def)
  next
    case False
    then show ?thesis using 1(2,3) c by (simp add: fill_M.simps [of limit s] zeros_def)
  qed
qed

definition sha_ok :: "SecureHashAlgorithm \<Rightarrow> byte list \<Rightarrow> bool" where
  "sha_ok s bs \<longleftrightarrow>
     sha_mem s (sha1.absorb bs (0x67452301, 0xefcdab89, 0x98badcfe, 0x10325476, 0xc3d2e1f0)) (tail bs) \<and>
     sha_l s = of_nat (8 * length bs)"

lemma sha_Update_byte_ok:
  assumes "sha_ok s bs"
  shows "sha_ok (sha_Update_byte b s) (bs @ [b])"
proof -
  let ?n = "length bs mod 64" and ?h = "sha1.absorb bs (0x67452301, 0xefcdab89, 0x98badcfe, 0x10325476, 0xc3d2e1f0)"
  have n: "?n < 64" by simp
  have mem: "sha_mem (put_M b s) ?h (tail bs @ [b])" and l: "sha_l (put_M b s) = of_nat (8 * length bs)"
    using assms sha_mem_put [of s ?h "tail bs" b] by (simp_all add: sha_ok_def)
  have c: "64 \<le> sha_cursor (put_M b s) \<longleftrightarrow> ?n = 63"
    using mem by (simp add: sha_mem_def word_le_nat_alt) (use n in linarith)
  show ?thesis
  proof (cases "?n = 63")
    case True
    with sha_mem_Process [OF mem] sha1.absorb_fill [of bs "[b]"] l c show ?thesis
      by (simp add: sha_ok_def sha_Update_byte_def sha_mem_def)
  next
    case False
    moreover from this n have "?n + 1 < 64" by simp
    moreover have "tail (bs @ [b]) = tail bs @ [b]" using \<open>?n + 1 < 64\<close> by (subst tail_append) simp
    ultimately show ?thesis using mem sha1.absorb_short [of bs "[b]"] l c
      by (simp add: sha_ok_def sha_Update_byte_def sha_mem_def)
  qed
qed

lemma sha_Update_ok: "sha_ok s bs \<Longrightarrow> sha_ok (sha_Update data s) (bs @ data)"
proof (induction data arbitrary: s bs)
  case (Cons d data)
  then show ?case using sha_Update_byte_ok [of s bs d] by (fastforce simp: sha_Update_def)
qed (simp add: sha_Update_def)

lemma sha_Updates_ok: "sha_ok s bs \<Longrightarrow> sha_ok (fold sha_Update datas s) (bs @ concat datas)"
proof (induction datas arbitrary: s bs)
  case (Cons d datas)
  then show ?case using sha_Update_ok [of s bs d] by fastforce
qed simp

lemma sha_Init_ok: "length (sha_W raw) = 80 \<Longrightarrow> sha_ok (sha_Init raw) []"
  by (simp add: sha_ok_def sha_Init_def sha_mem_def five_def)

section \<open>Padding\<close>

lemma length_byte_div: "unat (length_byte (8 * i) s) = unat (sha_l s) div 256 ^ i mod 256"
proof -
  have "drop_bit (8 * i) (sha_l s) AND 0xff = take_bit 8 (drop_bit (8 * i) (sha_l s))"
    by (simp add: take_bit_eq_mask mask_numeral)
  then have "unat (length_byte (8 * i) s) = take_bit 8 (unat (drop_bit (8 * i) (sha_l s)))"
    by (simp add: length_byte_def unsigned_ucast_eq unsigned_take_bit_eq)
  also have "unat (drop_bit (8 * i) (sha_l s)) = unat (sha_l s) div 256 ^ i"
    by (subst unat_drop_bit_eq) (simp add: drop_bit_eq_div power_mult)
  finally show ?thesis by (simp add: take_bit_eq_mod)
qed

lemma be_u64_bytes: "be_u64 (sha_l s) = map (\<lambda>n. length_byte n s) [56, 48, 40, 32, 24, 16, 8, 0]"
proof -
  have b: "of_nat (unat (sha_l s) div 256 ^ i mod 256) = length_byte (8 * i) s" for i
    by (simp flip: length_byte_div)
  then show ?thesis
    by (simp add: be_u64_def enc_u64_def le_enc_map rev_map upt_conv_Cons)
qed

lemma put_length_mem:
  assumes "sha_mem s h pre" and "length pre = 56"
  shows "sha_mem (put_length s) h (pre @ be_u64 (sha_l s))"
proof -
  have "sha_mem (fold (\<lambda>n s. put_M (length_byte n s) s) ns s) h (pre @ map (\<lambda>n. length_byte n s) ns)"
    if "length pre + length ns \<le> 64" "sha_mem s h pre" for ns s pre
    using that
  proof (induction ns arbitrary: s pre)
    case (Cons n ns)
    have "length_byte m (put_M b s) = length_byte m s" for m b by (simp add: length_byte_def put_M_def)
    then show ?case using Cons.IH [of "pre @ [length_byte n s]" "put_M (length_byte n s) s"] Cons.prems sha_mem_put(1) [of s h pre]
      by simp
  qed simp
  from this [of pre "[56, 48, 40, 32, 24, 16, 8, 0]" s] show ?thesis
    using assms by (simp add: put_length_def be_u64_bytes)
qed

lemma sha_Final_ok:
  assumes ok: "sha_ok s bs"
  shows "sha_Digest (sha_Final s) = sha1_digest bs"
proof -
  let ?n = "length bs mod 64" and ?H0 = "(0x67452301, 0xefcdab89, 0x98badcfe, 0x10325476, 0xc3d2e1f0) :: five"
  let ?h = "sha1.absorb bs ?H0" and ?s1 = "put_M 0x80 s" and ?l = "of_nat (8 * length bs) :: u64"
  have n: "?n < 64" by simp
  have m1: "sha_mem ?s1 ?h (tail bs @ [0x80])" and l1: "sha_l ?s1 = ?l"
    using ok sha_mem_put [of s ?h "tail bs" "0x80"] by (simp_all add: sha_ok_def)
  have c: "64 - 8 < sha_cursor ?s1 \<longleftrightarrow> 56 \<le> ?n"
    using m1 by (simp add: sha_mem_def word_less_nat_alt) linarith
  have "\<exists>h' pre. sha_mem (sha_Pad s) h' pre \<and> length pre = 64 \<and> fips_compress h' pre = sha1.absorb (padded be_u64 bs) ?H0"
  proof (cases "56 \<le> ?n")
    case True
    let ?s2 = "sha_Process (fill_M 64 ?s1)"
    have z: "tail bs @ [0x80] @ zeros (unat (64 :: u32) - length (tail bs @ [0x80])) = tail bs @ 0x80 # zeros (63 - ?n)" by simp
    have f: "sha_mem (fill_M 64 ?s1) ?h (tail bs @ 0x80 # zeros (63 - ?n))" and "sha_l (fill_M 64 ?s1) = ?l"
      using sha_mem_fill [OF m1, of 64] n l1 z by simp_all
    then have "sha_mem ?s2 (fips_compress ?h (tail bs @ 0x80 # zeros (63 - ?n))) []" "sha_l ?s2 = ?l"
      using sha_mem_Process [OF f] n by simp_all
    from sha_mem_fill [OF this(1), of 56] this(2)
    show ?thesis using put_length_mem [of "fill_M 56 ?s2" _ "zeros 56"] sha1.absorb_padded_two [OF True, of ?H0] c True
      by (intro exI [of _ "fips_compress ?h (tail bs @ 0x80 # zeros (63 - ?n))"] exI [of _ "zeros 56 @ be_u64 ?l"])
         (simp add: sha_Pad_def sha1.length_enc)
  next
    case False
    then have n56: "?n < 56" by simp
    have "sha_mem (fill_M 56 ?s1) ?h ((tail bs @ [0x80]) @ zeros (55 - ?n))" "sha_l (fill_M 56 ?s1) = ?l"
      using sha_mem_fill [OF m1, of 56] n56 l1 by simp_all
    then show ?thesis using put_length_mem [of "fill_M 56 ?s1" ?h "tail bs @ 0x80 # zeros (55 - ?n)"]
        sha1.absorb_padded_one [OF n56, of ?H0] c False n56
      by (intro exI [of _ ?h] exI [of _ "tail bs @ 0x80 # zeros (55 - ?n) @ be_u64 ?l"])
         (simp add: sha_Pad_def sha1.length_enc)
  qed
  then obtain h' pre where mem: "sha_mem (sha_Pad s) h' pre" "length pre = 64"
    and h': "fips_compress h' pre = sha1.absorb (padded be_u64 bs) ?H0" by blast
  obtain a b c d e where abs: "sha1.absorb (padded be_u64 bs) ?H0 = (a, b, c, d, e)" by (metis prod_cases5)
  have "length (sha_H (sha_Process (sha_Pad s))) = 5" "five (sha_H (sha_Process (sha_Pad s))) = (a, b, c, d, e)"
    using sha_mem_Process [OF mem] h' abs by (simp_all add: sha_mem_def)
  then have "sha_H (sha_Process (sha_Pad s)) = [a, b, c, d, e]" by (auto simp: five_def length_Suc_conv numeral_eq_Suc)
  moreover have "enc_u32 (ByteSwap32 x) = be_u32 x" for x by (simp add: ByteSwap32_def be_u32_def enc_dec_u32)
  ultimately show ?thesis using abs by (simp add: sha_Digest_def sha_Final_def Let_def sha1_digest_def sha1.absorb_def)
qed

text \<open>
  C27: SHA-1.  However a message is cut into calls of \<open>Update\<close>, and whatever was in the uninitialised union, the
  digest is the SHA-1 of the whole message as FIPS 180 defines it: padding with \<open>0x80\<close>, zeros and the big-endian
  number of bits (modulo \<open>2^64\<close>), the message schedule, the 80 rounds, and the five words in big-endian order.
\<close>

theorem sha1_is_fips:
  assumes "length (sha_W raw) = 80"
  shows "sha_Digest (sha_Final (fold sha_Update datas (sha_Init raw))) = sha1_digest (concat datas) \<and>
         SHA1HashBytes raw (concat datas) = sha1_digest (concat datas) \<and> length (sha1_digest (concat datas)) = 20"
proof -
  have "length (sha1_digest (concat datas)) = 20"
    by (simp add: sha1_digest_def be_u32_def split: prod.splits)
  then show ?thesis
    using sha_Final_ok [OF sha_Updates_ok [OF sha_Init_ok [OF assms], of datas]]
      sha_Final_ok [OF sha_Updates_ok [OF sha_Init_ok [OF assms], of "[concat datas]"]] by (simp add: SHA1HashBytes_def)
qed

theorem sha1_is_fips_witness:
  "sha_Digest (sha_Final (fold sha_Update [[0x61], [], [0x62, 0x63]] (sha_Init
     \<lparr>sha_A = 1, sha_B = 2, sha_C = 3, sha_D = 4, sha_E = 5, sha_H = [], sha_W = replicate 80 7, sha_cursor = 9, sha_l = 8\<rparr>))) =
   sha1_digest [0x61, 0x62, 0x63]"
  by (subst sha1_is_fips [THEN conjunct1]) simp_all

end
