(* ===== verification/Md5.thy ===== *)
theory Md5
  imports Message_Blocks
begin

unbundle bit_operations_syntax

text \<open>
  The MD5 functions of \<open>base/md5.cc\<close>, and MD5 as RFC 1321 defines it.

  \<open>MD5Context\<close> is the record \<open>Context\<close> that the code casts it to.  \<open>memcpy_at\<close> and \<open>memset_at\<close> write
  into a byte array; an array of words is read from its little-endian bytes.  Lengths of input buffers are natural
  numbers, cut to 32 bits where the code casts them.
\<close>

section \<open>The functions of md5.cc\<close>

record Context =
  md5_buf :: "u32 list"
  md5_bits0 :: u32
  md5_bits1 :: u32
  md5_in :: "byte list"

definition memcpy_at :: "nat \<Rightarrow> byte list \<Rightarrow> byte list \<Rightarrow> byte list" where
  "memcpy_at off src dst = take off dst @ src @ drop (off + length src) dst"

definition memset_at :: "nat \<Rightarrow> byte \<Rightarrow> nat \<Rightarrow> byte list \<Rightarrow> byte list" where
  "memset_at off b n dst = memcpy_at off (replicate n b) dst"

definition reverse_long :: "nat \<Rightarrow> byte list \<Rightarrow> byte list" where
  "reverse_long i bs =
     (let b = (\<lambda>k. ucast (bs ! (4 * i + k)) :: u32);
          temp = push_bit 16 (push_bit 8 (b 3) OR b 2) OR (push_bit 8 (b 1) OR b 0)
      in memcpy_at (4 * i) (enc_u32 temp) bs)"

definition byteReverse :: "byte list \<Rightarrow> nat \<Rightarrow> byte list" where
  "byteReverse bs longs = fold reverse_long [0..<longs] bs"

definition F1 :: "u32 \<Rightarrow> u32 \<Rightarrow> u32 \<Rightarrow> u32" where
  "F1 x y z = (z XOR (x AND (y XOR z)))"

definition F2 :: "u32 \<Rightarrow> u32 \<Rightarrow> u32 \<Rightarrow> u32" where
  "F2 x y z = F1 z x y"

definition F3 :: "u32 \<Rightarrow> u32 \<Rightarrow> u32 \<Rightarrow> u32" where
  "F3 x y z = (x XOR y XOR z)"

definition F4 :: "u32 \<Rightarrow> u32 \<Rightarrow> u32 \<Rightarrow> u32" where
  "F4 x y z = (y XOR (x OR NOT z))"

definition MD5STEP :: "(u32 \<Rightarrow> u32 \<Rightarrow> u32 \<Rightarrow> u32) \<Rightarrow> u32 \<Rightarrow> u32 \<Rightarrow> u32 \<Rightarrow> u32 \<Rightarrow> u32 \<Rightarrow> nat \<Rightarrow> u32" where
  "MD5STEP f w x y z data s =
     (let w = w + (f x y z + data); w = push_bit s w OR drop_bit (32 - s) w in w + x)"

text \<open>The four registers, and \<open>MD5STEP\<close> with each of them as its first argument.\<close>

type_synonym four = "u32 \<times> u32 \<times> u32 \<times> u32"

definition step_a :: "(u32 \<Rightarrow> u32 \<Rightarrow> u32 \<Rightarrow> u32) \<Rightarrow> u32 \<Rightarrow> nat \<Rightarrow> four \<Rightarrow> four" where
  "step_a f data s = (\<lambda>(a, b, c, d). (MD5STEP f a b c d data s, b, c, d))"

definition step_b :: "(u32 \<Rightarrow> u32 \<Rightarrow> u32 \<Rightarrow> u32) \<Rightarrow> u32 \<Rightarrow> nat \<Rightarrow> four \<Rightarrow> four" where
  "step_b f data s = (\<lambda>(a, b, c, d). (a, MD5STEP f b c d a data s, c, d))"

definition step_c :: "(u32 \<Rightarrow> u32 \<Rightarrow> u32 \<Rightarrow> u32) \<Rightarrow> u32 \<Rightarrow> nat \<Rightarrow> four \<Rightarrow> four" where
  "step_c f data s = (\<lambda>(a, b, c, d). (a, b, MD5STEP f c d a b data s, d))"

definition step_d :: "(u32 \<Rightarrow> u32 \<Rightarrow> u32 \<Rightarrow> u32) \<Rightarrow> u32 \<Rightarrow> nat \<Rightarrow> four \<Rightarrow> four" where
  "step_d f data s = (\<lambda>(a, b, c, d). (a, b, c, MD5STEP f d a b c data s))"

definition md5_steps :: "u32 list \<Rightarrow> (four \<Rightarrow> four) list" where
  "md5_steps inp =
     [
       step_a F1 (inp ! 0 + 0xd76aa478) 7, step_d F1 (inp ! 1 + 0xe8c7b756) 12, step_c F1 (inp ! 2 + 0x242070db) 17, step_b F1 (inp ! 3 + 0xc1bdceee) 22,
       step_a F1 (inp ! 4 + 0xf57c0faf) 7, step_d F1 (inp ! 5 + 0x4787c62a) 12, step_c F1 (inp ! 6 + 0xa8304613) 17, step_b F1 (inp ! 7 + 0xfd469501) 22,
       step_a F1 (inp ! 8 + 0x698098d8) 7, step_d F1 (inp ! 9 + 0x8b44f7af) 12, step_c F1 (inp ! 10 + 0xffff5bb1) 17, step_b F1 (inp ! 11 + 0x895cd7be) 22,
       step_a F1 (inp ! 12 + 0x6b901122) 7, step_d F1 (inp ! 13 + 0xfd987193) 12, step_c F1 (inp ! 14 + 0xa679438e) 17, step_b F1 (inp ! 15 + 0x49b40821) 22,
       step_a F2 (inp ! 1 + 0xf61e2562) 5, step_d F2 (inp ! 6 + 0xc040b340) 9, step_c F2 (inp ! 11 + 0x265e5a51) 14, step_b F2 (inp ! 0 + 0xe9b6c7aa) 20,
       step_a F2 (inp ! 5 + 0xd62f105d) 5, step_d F2 (inp ! 10 + 0x02441453) 9, step_c F2 (inp ! 15 + 0xd8a1e681) 14, step_b F2 (inp ! 4 + 0xe7d3fbc8) 20,
       step_a F2 (inp ! 9 + 0x21e1cde6) 5, step_d F2 (inp ! 14 + 0xc33707d6) 9, step_c F2 (inp ! 3 + 0xf4d50d87) 14, step_b F2 (inp ! 8 + 0x455a14ed) 20,
       step_a F2 (inp ! 13 + 0xa9e3e905) 5, step_d F2 (inp ! 2 + 0xfcefa3f8) 9, step_c F2 (inp ! 7 + 0x676f02d9) 14, step_b F2 (inp ! 12 + 0x8d2a4c8a) 20,
       step_a F3 (inp ! 5 + 0xfffa3942) 4, step_d F3 (inp ! 8 + 0x8771f681) 11, step_c F3 (inp ! 11 + 0x6d9d6122) 16, step_b F3 (inp ! 14 + 0xfde5380c) 23,
       step_a F3 (inp ! 1 + 0xa4beea44) 4, step_d F3 (inp ! 4 + 0x4bdecfa9) 11, step_c F3 (inp ! 7 + 0xf6bb4b60) 16, step_b F3 (inp ! 10 + 0xbebfbc70) 23,
       step_a F3 (inp ! 13 + 0x289b7ec6) 4, step_d F3 (inp ! 0 + 0xeaa127fa) 11, step_c F3 (inp ! 3 + 0xd4ef3085) 16, step_b F3 (inp ! 6 + 0x04881d05) 23,
       step_a F3 (inp ! 9 + 0xd9d4d039) 4, step_d F3 (inp ! 12 + 0xe6db99e5) 11, step_c F3 (inp ! 15 + 0x1fa27cf8) 16, step_b F3 (inp ! 2 + 0xc4ac5665) 23,
       step_a F4 (inp ! 0 + 0xf4292244) 6, step_d F4 (inp ! 7 + 0x432aff97) 10, step_c F4 (inp ! 14 + 0xab9423a7) 15, step_b F4 (inp ! 5 + 0xfc93a039) 21,
       step_a F4 (inp ! 12 + 0x655b59c3) 6, step_d F4 (inp ! 3 + 0x8f0ccc92) 10, step_c F4 (inp ! 10 + 0xffeff47d) 15, step_b F4 (inp ! 1 + 0x85845dd1) 21,
       step_a F4 (inp ! 8 + 0x6fa87e4f) 6, step_d F4 (inp ! 15 + 0xfe2ce6e0) 10, step_c F4 (inp ! 6 + 0xa3014314) 15, step_b F4 (inp ! 13 + 0x4e0811a1) 21,
       step_a F4 (inp ! 4 + 0xf7537e82) 6, step_d F4 (inp ! 11 + 0xbd3af235) 10, step_c F4 (inp ! 2 + 0x2ad7d2bb) 15, step_b F4 (inp ! 9 + 0xeb86d391) 21
     ]"

definition MD5Transform :: "u32 list \<Rightarrow> u32 list \<Rightarrow> u32 list" where
  "MD5Transform bf inp =
     (case fold (\<lambda>f. f) (md5_steps inp) (bf ! 0, bf ! 1, bf ! 2, bf ! 3) of
        (a, b, c, d) \<Rightarrow> [bf ! 0 + a, bf ! 1 + b, bf ! 2 + c, bf ! 3 + d])"

definition MD5Init :: "Context \<Rightarrow> Context" where
  "MD5Init ctx = ctx\<lparr>md5_buf := [0x67452301, 0xefcdab89, 0x98badcfe, 0x10325476], md5_bits0 := 0, md5_bits1 := 0\<rparr>"

text \<open>\<open>byteReverse(ctx->in, 16); MD5Transform(ctx->buf, (uint32_t* ) ctx->in)\<close>.\<close>

definition transform_in :: "Context \<Rightarrow> Context" where
  "transform_in ctx =
     (let i = byteReverse (md5_in ctx) 16
      in ctx\<lparr>md5_in := i, md5_buf := MD5Transform (md5_buf ctx) (read_array 4 dec_u32 16 i)\<rparr>)"

function update_chunks :: "byte list \<Rightarrow> Context \<Rightarrow> Context" where
  "update_chunks data ctx =
     (if 64 \<le> length data
      then update_chunks (drop 64 data) (transform_in (ctx\<lparr>md5_in := memcpy_at 0 (take 64 data) (md5_in ctx)\<rparr>))
      else ctx\<lparr>md5_in := memcpy_at 0 data (md5_in ctx)\<rparr>)"
  by pat_completeness auto
termination by (relation "measure (\<lambda>(data, ctx). length data)") auto

declare update_chunks.simps [simp del]

definition update_bitcount :: "nat \<Rightarrow> Context \<Rightarrow> Context" where
  "update_bitcount len ctx =
     (let t = md5_bits0 ctx;
          ctx = ctx\<lparr>md5_bits0 := t + push_bit 3 (of_nat len)\<rparr>;
          ctx = (if md5_bits0 ctx < t then ctx\<lparr>md5_bits1 := md5_bits1 ctx + 1\<rparr> else ctx)
      in ctx\<lparr>md5_bits1 := md5_bits1 ctx + of_nat (len div 2 ^ 29)\<rparr>)"

definition MD5Update :: "byte list \<Rightarrow> Context \<Rightarrow> Context" where
  "MD5Update data ctx =
     (let len = length data;
          t = unat (drop_bit 3 (md5_bits0 ctx) AND 0x3f);
          ctx = update_bitcount len ctx
      in if t \<noteq> 0 then
           (let p = t; t = 64 - t
            in if len < t then ctx\<lparr>md5_in := memcpy_at p data (md5_in ctx)\<rparr>
               else update_chunks (drop t data)
                      (transform_in (ctx\<lparr>md5_in := memcpy_at p (take t data) (md5_in ctx)\<rparr>)))
         else update_chunks data ctx)"

definition pad_in :: "Context \<Rightarrow> Context" where
  "pad_in ctx =
     (let cnt = unat (drop_bit 3 (md5_bits0 ctx) AND 0x3f);
          ctx = ctx\<lparr>md5_in := (md5_in ctx)[cnt := 0x80]\<rparr>;
          p = cnt + 1;
          cnt = 64 - 1 - cnt
      in if cnt < 8
         then (let ctx = transform_in (ctx\<lparr>md5_in := memset_at p 0 cnt (md5_in ctx)\<rparr>)
               in ctx\<lparr>md5_in := memset_at 0 0 56 (md5_in ctx)\<rparr>)
         else ctx\<lparr>md5_in := memset_at p 0 (cnt - 8) (md5_in ctx)\<rparr>)"

definition MD5Final :: "Context \<Rightarrow> byte list \<times> Context" where
  "MD5Final ctx =
     (let ctx = pad_in ctx;
          ctx = ctx\<lparr>md5_in := byteReverse (md5_in ctx) 14\<rparr>;
          ctx = ctx\<lparr>md5_in := memcpy_at (14 * 4) (enc_u32 (md5_bits0 ctx)) (md5_in ctx)\<rparr>;
          ctx = ctx\<lparr>md5_in := memcpy_at (15 * 4) (enc_u32 (md5_bits1 ctx)) (md5_in ctx)\<rparr>;
          bf = MD5Transform (md5_buf ctx) (read_array 4 dec_u32 16 (md5_in ctx));
          digest = byteReverse (concat (map enc_u32 bf)) 4
      in (digest, \<lparr>md5_buf = replicate 4 0, md5_bits0 = 0, md5_bits1 = 0, md5_in = replicate 64 0\<rparr>))"

definition MD5IntermediateFinal :: "Context \<Rightarrow> byte list" where
  "MD5IntermediateFinal ctx = fst (MD5Final ctx)"

definition zEncode :: string where
  "zEncode = ''0123456789abcdef''"

definition MD5DigestToBase16 :: "byte list \<Rightarrow> string" where
  "MD5DigestToBase16 digest =
     fold (\<lambda>i ret. let a = digest ! i; j = 2 * i
        in (ret[j := zEncode ! unat (drop_bit 4 a AND 0xf)])[j + 1 := zEncode ! unat (a AND 0xf)])
       [0..<16] (replicate 32 (CHR 0x00))"

definition MD5Sum :: "Context \<Rightarrow> byte list \<Rightarrow> byte list" where
  "MD5Sum raw data = fst (MD5Final (MD5Update data (MD5Init raw)))"

definition MD5String :: "Context \<Rightarrow> byte list \<Rightarrow> string" where
  "MD5String raw str = MD5DigestToBase16 (MD5Sum raw str)"

section \<open>MD5\<close>

definition rfc_F :: "u32 \<Rightarrow> u32 \<Rightarrow> u32 \<Rightarrow> u32" where
  "rfc_F x y z = (x AND y) OR (NOT x AND z)"

definition rfc_G :: "u32 \<Rightarrow> u32 \<Rightarrow> u32 \<Rightarrow> u32" where
  "rfc_G x y z = (x AND z) OR (y AND NOT z)"

definition rfc_H :: "u32 \<Rightarrow> u32 \<Rightarrow> u32 \<Rightarrow> u32" where
  "rfc_H x y z = x XOR y XOR z"

definition rfc_I :: "u32 \<Rightarrow> u32 \<Rightarrow> u32 \<Rightarrow> u32" where
  "rfc_I x y z = y XOR (x OR NOT z)"

text \<open>The integer part of \<open>4294967296 * abs (sin i)\<close>, for \<open>i\<close> from 1 to 64.\<close>

definition rfc_T :: "u32 list" where
  "rfc_T = [
     0xd76aa478, 0xe8c7b756, 0x242070db, 0xc1bdceee, 0xf57c0faf, 0x4787c62a, 0xa8304613, 0xfd469501,
     0x698098d8, 0x8b44f7af, 0xffff5bb1, 0x895cd7be, 0x6b901122, 0xfd987193, 0xa679438e, 0x49b40821,
     0xf61e2562, 0xc040b340, 0x265e5a51, 0xe9b6c7aa, 0xd62f105d, 0x02441453, 0xd8a1e681, 0xe7d3fbc8,
     0x21e1cde6, 0xc33707d6, 0xf4d50d87, 0x455a14ed, 0xa9e3e905, 0xfcefa3f8, 0x676f02d9, 0x8d2a4c8a,
     0xfffa3942, 0x8771f681, 0x6d9d6122, 0xfde5380c, 0xa4beea44, 0x4bdecfa9, 0xf6bb4b60, 0xbebfbc70,
     0x289b7ec6, 0xeaa127fa, 0xd4ef3085, 0x04881d05, 0xd9d4d039, 0xe6db99e5, 0x1fa27cf8, 0xc4ac5665,
     0xf4292244, 0x432aff97, 0xab9423a7, 0xfc93a039, 0x655b59c3, 0x8f0ccc92, 0xffeff47d, 0x85845dd1,
     0x6fa87e4f, 0xfe2ce6e0, 0xa3014314, 0x4e0811a1, 0xf7537e82, 0xbd3af235, 0x2ad7d2bb, 0xeb86d391]"

definition rfc_round :: "nat \<Rightarrow> (u32 \<Rightarrow> u32 \<Rightarrow> u32 \<Rightarrow> u32) \<times> nat \<times> nat list" where
  "rfc_round i =
     (if i < 16 then (rfc_F, i, [7, 12, 17, 22])
      else if i < 32 then (rfc_G, (5 * i + 1) mod 16, [5, 9, 14, 20])
      else if i < 48 then (rfc_H, (3 * i + 5) mod 16, [4, 11, 16, 23])
      else (rfc_I, (7 * i) mod 16, [6, 10, 15, 21]))"

definition rfc_step :: "u32 list \<Rightarrow> nat \<Rightarrow> four \<Rightarrow> four" where
  "rfc_step X i = (\<lambda>(a, b, c, d). case rfc_round i of (f, k, s) \<Rightarrow>
     (d, b + word_rotl (s ! (i mod 4)) (a + f b c d + X ! k + rfc_T ! i), b, c))"

definition rfc_compress :: "four \<Rightarrow> byte list \<Rightarrow> four" where
  "rfc_compress H m = (case H of (a, b, c, d) \<Rightarrow>
     case fold (rfc_step (read_array 4 dec_u32 16 m)) [0..<64] H of (a', b', c', d') \<Rightarrow>
       (a + a', b + b', c + c', d + d'))"

interpretation md5: block_hash rfc_compress enc_u64
  by standard simp

definition md5_digest :: "byte list \<Rightarrow> byte list" where
  "md5_digest m =
     (case fold (\<lambda>b h. rfc_compress h b) (blocks (padded enc_u64 m)) (0x67452301, 0xefcdab89, 0x98badcfe, 0x10325476)
      of (a, b, c, d) \<Rightarrow> enc_u32 a @ enc_u32 b @ enc_u32 c @ enc_u32 d)"

section \<open>The compression function\<close>

lemma le_dec_or:
  "push_bit 16 (push_bit 8 (ucast d) OR ucast c) OR (push_bit 8 (ucast b) OR ucast a) = (dec_u32 [a, b, c, d] :: u32)"
  for a b c d :: byte
proof -
  have byte: "\<not> bit (ucast x :: u32) n" if "8 \<le> n" for x :: byte and n
    using that bit_imp_le_length [of x n] by (auto simp: bit_simps)
  have pair: "push_bit 8 (ucast y) OR ucast x = (of_nat (unat x + 256 * unat y) :: u32)" for x y :: byte
  proof -
    have "push_bit 8 (ucast y) OR ucast x = push_bit 8 (ucast y) + (ucast x :: u32)"
      by (rule disjunctive_add [symmetric]) (use byte in \<open>auto simp: bit_simps\<close>)
    then show ?thesis by (simp add: push_bit_eq_mult unsigned_of_nat)
  qed
  have "push_bit 16 (push_bit 8 (ucast d) OR ucast c) OR (push_bit 8 (ucast b) OR ucast a) =
      push_bit 16 (push_bit 8 (ucast d) OR ucast c) + (push_bit 8 (ucast b) OR ucast a :: u32)"
    by (rule disjunctive_add [symmetric]) (use byte in \<open>auto simp: bit_simps\<close>)
  then show ?thesis unfolding pair by (simp add: push_bit_eq_mult dec_u32_def algebra_simps)
qed

lemma reverse_long_id:
  assumes "4 * i + 4 \<le> length bs"
  shows "reverse_long i bs = bs"
proof -
  let ?q = "[bs ! (4 * i), bs ! (4 * i + 1), bs ! (4 * i + 2), bs ! (4 * i + 3)]"
  have q: "take 4 (drop (4 * i) bs) = ?q"
    using assms by (intro nth_equalityI) (auto simp: less_Suc_eq numeral_eq_Suc nth_Cons')
  have "enc_u32 (dec_u32 ?q) = ?q" by (simp add: enc_dec_u32)
  moreover have "take (4 * i) bs @ ?q @ drop (4 * i + 4) bs = bs"
    unfolding q [symmetric] by (metis append_take_drop_id drop_drop add.commute)
  ultimately show ?thesis
    using le_dec_or [of "bs ! (4 * i + 3)" "bs ! (4 * i + 2)" "bs ! (4 * i + 1)" "bs ! (4 * i)"]
    by (simp add: reverse_long_def memcpy_at_def Let_def add.commute)
qed

lemma byteReverse_id: "4 * n \<le> length bs \<Longrightarrow> byteReverse bs n = bs"
  by (induction n) (simp_all add: byteReverse_def reverse_long_id)

lemma F1_rfc: "F1 = rfc_F" and F2_rfc: "F2 = rfc_G" and F3_rfc: "F3 = rfc_H" and F4_rfc: "F4 = rfc_I"
  unfolding F1_def F2_def F3_def F4_def rfc_F_def rfc_G_def rfc_H_def rfc_I_def
  by (intro ext bit_word_eqI; auto simp: bit_simps)+

lemma MD5STEP_rotl: "0 < s \<Longrightarrow> s < 32 \<Longrightarrow> MD5STEP f w x y z data s = x + word_rotl s (w + f x y z + data)"
  by (simp add: MD5STEP_def Let_def rotl_shifts algebra_simps)

definition rf :: "nat \<Rightarrow> u32 \<Rightarrow> u32 \<Rightarrow> u32 \<Rightarrow> u32" where
  "rf i = fst (rfc_round i)"

definition rdata :: "u32 list \<Rightarrow> nat \<Rightarrow> u32" where
  "rdata X i = X ! fst (snd (rfc_round i)) + rfc_T ! i"

definition rshift :: "nat \<Rightarrow> nat" where
  "rshift i = snd (snd (rfc_round i)) ! (i mod 4)"

definition quad :: "u32 list \<Rightarrow> nat \<Rightarrow> (four \<Rightarrow> four) list" where
  "quad X i = [step_a (rf i) (rdata X i) (rshift i), step_d (rf (i + 1)) (rdata X (i + 1)) (rshift (i + 1)),
     step_c (rf (i + 2)) (rdata X (i + 2)) (rshift (i + 2)), step_b (rf (i + 3)) (rdata X (i + 3)) (rshift (i + 3))]"

lemma rshift_bounds: "0 < rshift i" "rshift i < 32"
proof -
  have "i mod 4 < 4" by simp
  then have "i mod 4 \<in> {0, 1, 2, 3}" by auto
  then show "0 < rshift i" "rshift i < 32" by (auto simp: rshift_def rfc_round_def)
qed

lemma rfc_step_MD5STEP: "rfc_step X i (a, b, c, d) = (d, MD5STEP (rf i) a b c d (rdata X i) (rshift i), b, c)"
  unfolding MD5STEP_rotl [OF rshift_bounds]
  by (simp add: rfc_step_def rf_def rdata_def rshift_def add.assoc split: prod.splits)

lemma fold_quads: "fold (rfc_step X) [0..<4 * n] st = fold (\<lambda>f. f) (concat (map (\<lambda>q. quad X (4 * q)) [0..<n])) st"
proof (induction n)
  case (Suc n)
  have "[0..<4 * Suc n] = [0..<4 * n] @ [4 * n, 4 * n + 1, 4 * n + 2, 4 * n + 3]" by (simp add: numeral_eq_Suc)
  moreover have "fold (rfc_step X) [i, i + 1, i + 2, i + 3] st = fold (\<lambda>f. f) (quad X i) st" for i st
    by (cases st) (simp add: rfc_step_MD5STEP quad_def step_a_def step_b_def step_c_def step_d_def)
  ultimately show ?case using Suc by simp
qed simp

lemma md5_steps_quads: "md5_steps X = concat (map (\<lambda>q. quad X (4 * q)) [0..<16])"
  by (simp add: md5_steps_def quad_def rf_def rdata_def rshift_def rfc_round_def rfc_T_def F1_rfc F2_rfc F3_rfc F4_rfc upt_conv_Cons numeral_2_eq_2 [symmetric])

definition four :: "u32 list \<Rightarrow> four" where
  "four xs = (xs ! 0, xs ! 1, xs ! 2, xs ! 3)"

lemma MD5Transform_compress:
  "four (MD5Transform h (read_array 4 dec_u32 16 m)) = rfc_compress (four h) m" "length (MD5Transform h X) = 4"
proof -
  let ?X = "read_array 4 dec_u32 16 m"
  have "fold (\<lambda>f. f) (md5_steps ?X) (four h) = fold (rfc_step ?X) [0..<64] (four h)"
    using fold_quads [of ?X 16] md5_steps_quads [of ?X] by simp
  then show "four (MD5Transform h ?X) = rfc_compress (four h) m"
    by (simp add: MD5Transform_def rfc_compress_def four_def split: prod.splits)
  show "length (MD5Transform h X) = 4" by (simp add: MD5Transform_def split: prod.splits)
qed

section \<open>Streaming\<close>

lemma length_memcpy_at [simp]: "off + length src \<le> length dst \<Longrightarrow> length (memcpy_at off src dst) = length dst"
  by (simp add: memcpy_at_def)

definition md5_mem :: "Context \<Rightarrow> four \<Rightarrow> byte list \<Rightarrow> bool" where
  "md5_mem ctx h pre \<longleftrightarrow> length (md5_buf ctx) = 4 \<and> four (md5_buf ctx) = h \<and> length (md5_in ctx) = 64 \<and>
     length pre \<le> 64 \<and> take (length pre) (md5_in ctx) = pre"

lemma md5_mem_memcpy:
  assumes "md5_mem ctx h pre" and "length pre + length data \<le> 64"
  shows "md5_mem (ctx\<lparr>md5_in := memcpy_at (length pre) data (md5_in ctx)\<rparr>) h (pre @ data)"
  using assms by (auto simp: md5_mem_def memcpy_at_def)

lemma md5_mem_transform:
  assumes "md5_mem ctx h pre" and "length pre = 64"
  shows "md5_mem (transform_in ctx) (rfc_compress h pre) []"
    and "md5_bits0 (transform_in ctx) = md5_bits0 ctx" and "md5_bits1 (transform_in ctx) = md5_bits1 ctx"
proof -
  have "md5_in ctx = pre" "length (md5_in ctx) = 64" using assms by (auto simp: md5_mem_def)
  then show "md5_mem (transform_in ctx) (rfc_compress h pre) []"
    and "md5_bits0 (transform_in ctx) = md5_bits0 ctx" and "md5_bits1 (transform_in ctx) = md5_bits1 ctx"
    using assms by (simp_all add: md5_mem_def transform_in_def byteReverse_id MD5Transform_compress)
qed

lemma md5_mem_front: "md5_mem ctx h pre \<Longrightarrow> md5_mem ctx h []"
  by (simp add: md5_mem_def)

lemma update_chunks_ok:
  "md5_mem ctx h [] \<Longrightarrow> md5_mem (update_chunks data ctx) (md5.absorb data h) (tail data) \<and>
   md5_bits0 (update_chunks data ctx) = md5_bits0 ctx \<and> md5_bits1 (update_chunks data ctx) = md5_bits1 ctx"
proof (induction data ctx arbitrary: h rule: update_chunks.induct)
  case (1 data ctx)
  show ?case
  proof (cases "64 \<le> length data")
    case True
    let ?b = "take 64 data" and ?c = "ctx\<lparr>md5_in := memcpy_at 0 (take 64 data) (md5_in ctx)\<rparr>"
    have b: "length ?b = 64" using True by simp
    have m: "md5_mem ?c h ?b" using md5_mem_memcpy [OF 1(2), of ?b] b by simp
    have "md5.absorb data h = md5.absorb (drop 64 data) (rfc_compress h ?b)" "tail data = tail (drop 64 data)"
      using md5.absorb_block [OF b, of "drop 64 data"] tail_block [OF b, of "drop 64 data"] by simp_all
    then show ?thesis using 1(1) [OF True md5_mem_transform(1) [OF m b]] md5_mem_transform(2,3) [OF m b] True
      by (simp add: update_chunks.simps [of data ctx])
  next
    case False
    then show ?thesis using md5_mem_memcpy [OF 1(2), of data]
      by (simp add: update_chunks.simps [of data ctx] md5.absorb_def)
  qed
qed

section \<open>The bit count\<close>

definition md5_count :: "Context \<Rightarrow> nat \<Rightarrow> bool" where
  "md5_count ctx n \<longleftrightarrow> md5_bits0 ctx = of_nat (8 * n) \<and> md5_bits1 ctx = of_nat (n div 2 ^ 29)"

lemma unat_bits0: "unat (of_nat (8 * n) :: u32) = 8 * (n mod 2 ^ 29)"
  using mult_mod_right [of 8 n "2 ^ 29"] by (simp add: unat_of_nat del: of_nat_mult)

lemma md5_count_bytes: "md5_count ctx n \<Longrightarrow> unat (drop_bit 3 (md5_bits0 ctx) AND 0x3f) = n mod 64"
proof -
  assume "md5_count ctx n"
  then have "unat (md5_bits0 ctx) = 8 * (n mod 2 ^ 29)" by (simp only: md5_count_def unat_bits0)
  then have "unat (drop_bit 3 (md5_bits0 ctx)) = n mod 2 ^ 29"
    by (subst unat_drop_bit_eq) (simp add: drop_bit_eq_div)
  moreover have "drop_bit 3 (md5_bits0 ctx) AND 0x3f = take_bit 6 (drop_bit 3 (md5_bits0 ctx))"
    by (simp add: take_bit_eq_mask mask_numeral)
  ultimately have "unat (drop_bit 3 (md5_bits0 ctx) AND 0x3f) = n mod 2 ^ 29 mod 2 ^ 6"
    by (simp only: unsigned_take_bit_eq) (simp add: take_bit_eq_mod)
  also have "\<dots> = n mod 64" by (subst mod_mod_cancel) (simp_all add: dvd_def)
  finally show ?thesis .
qed

lemma add_mod_less: "a < M \<Longrightarrow> b < M \<Longrightarrow> (a + b) mod M < a \<longleftrightarrow> M \<le> a + b" for a b M :: nat
  by (cases "a + b < M") (auto simp: le_mod_geq)

lemma update_bitcount_ok:
  assumes "md5_count ctx n"
  shows "update_bitcount k ctx = ctx\<lparr>md5_bits0 := of_nat (8 * (n + k)), md5_bits1 := of_nat ((n + k) div 2 ^ 29)\<rparr>"
proof -
  let ?a = "n mod 2 ^ 29" and ?b = "k mod 2 ^ 29"
  have c: "md5_bits0 ctx = of_nat (8 * n)" "md5_bits1 ctx = of_nat (n div 2 ^ 29)" using assms by (simp_all add: md5_count_def)
  have b0: "md5_bits0 ctx + push_bit 3 (of_nat k) = of_nat (8 * (n + k))"
    by (simp add: c push_bit_eq_mult algebra_simps)
  have b: "?a < 2 ^ 29" "?b < 2 ^ 29" by simp_all
  have "(n + k) mod 2 ^ 29 < ?a \<longleftrightarrow> 2 ^ 29 \<le> ?a + ?b" using add_mod_less [OF b] by (simp only: mod_add_eq)
  then have carry: "(of_nat (8 * (n + k)) :: u32) < md5_bits0 ctx \<longleftrightarrow> 2 ^ 29 \<le> ?a + ?b"
    unfolding c(1) word_less_nat_alt unat_bits0 by simp
  have "(?a + ?b) div 2 ^ 29 = (if 2 ^ 29 \<le> ?a + ?b then 1 else 0)"
    using b by (auto simp: le_div_geq)
  then have d: "(n + k) div 2 ^ 29 = n div 2 ^ 29 + k div 2 ^ 29 + (if 2 ^ 29 \<le> ?a + ?b then 1 else 0)"
    by (subst div_add1_eq) simp
  show ?thesis
    using carry d c(2) by (simp add: update_bitcount_def Let_def b0 algebra_simps)
qed

section \<open>The operations\<close>

definition md5_ok :: "Context \<Rightarrow> byte list \<Rightarrow> bool" where
  "md5_ok ctx bs \<longleftrightarrow>
     md5_mem ctx (md5.absorb bs (0x67452301, 0xefcdab89, 0x98badcfe, 0x10325476)) (tail bs) \<and> md5_count ctx (length bs)"

lemma MD5Init_ok: "length (md5_in raw) = 64 \<Longrightarrow> md5_ok (MD5Init raw) []"
  by (simp add: md5_ok_def MD5Init_def md5_mem_def md5_count_def four_def)

lemma md5_mem_bits: "md5_mem (ctx\<lparr>md5_bits0 := x, md5_bits1 := y\<rparr>) h pre = md5_mem ctx h pre"
  by (simp add: md5_mem_def)

lemma MD5Update_ok:
  assumes ok: "md5_ok ctx bs"
  shows "md5_ok (MD5Update data ctx) (bs @ data)"
proof -
  let ?n = "length bs mod 64" and ?H0 = "(0x67452301, 0xefcdab89, 0x98badcfe, 0x10325476) :: four"
  let ?c = "ctx\<lparr>md5_bits0 := of_nat (8 * (length bs + length data)), md5_bits1 := of_nat ((length bs + length data) div 2 ^ 29)\<rparr>"
  have n: "?n < 64" by simp
  have m: "md5_mem ?c (md5.absorb bs ?H0) (tail bs)" using ok by (simp add: md5_ok_def md5_mem_bits)
  have cnt: "md5_count ?c (length bs + length data)" by (simp add: md5_count_def)
  have t: "unat (drop_bit 3 (md5_bits0 ctx) AND 0x3f) = ?n" using ok by (simp add: md5_ok_def md5_count_bytes)
  have upd: "update_bitcount (length data) ctx = ?c" using ok unfolding md5_ok_def by (intro update_bitcount_ok) simp
  show ?thesis
  proof (cases "?n + length data < 64")
    case True
    have "md5_mem (?c\<lparr>md5_in := memcpy_at ?n data (md5_in ?c)\<rparr>) (md5.absorb bs ?H0) (tail bs @ data)"
      using md5_mem_memcpy [OF m, of data] True by simp
    moreover have "update_chunks data ?c = ?c\<lparr>md5_in := memcpy_at 0 data (md5_in ?c)\<rparr>" if "?n = 0"
      using True that by (simp add: update_chunks.simps)
    ultimately have "md5_mem (MD5Update data ctx) (md5.absorb bs ?H0) (tail bs @ data) \<and> md5_count (MD5Update data ctx) (length bs + length data)"
      using cnt True unfolding MD5Update_def t upd Let_def by (auto simp: md5_count_def)
    moreover have "tail (bs @ data) = tail bs @ data" using True by (subst tail_append) simp
    ultimately show ?thesis using md5.absorb_short [OF True] by (simp add: md5_ok_def)
  next
    case False
    let ?d = "take (64 - ?n) data" and ?r = "drop (64 - ?n) data"
    let ?c' = "transform_in (?c\<lparr>md5_in := memcpy_at ?n ?d (md5_in ?c)\<rparr>)"
    have f: "?n + length ?d = 64" using False n by simp
    have "md5_mem (?c\<lparr>md5_in := memcpy_at ?n ?d (md5_in ?c)\<rparr>) (md5.absorb bs ?H0) (tail bs @ ?d)"
      using md5_mem_memcpy [OF m, of ?d] f by simp
    from md5_mem_transform [OF this] f
    have tr: "md5_mem ?c' (rfc_compress (md5.absorb bs ?H0) (tail bs @ ?d)) []" "md5_count ?c' (length bs + length data)"
      using cnt by (simp_all add: md5_count_def)
    have "MD5Update data ctx = update_chunks ?r ?c'"
      using False n unfolding MD5Update_def t upd Let_def by (simp add: update_chunks.simps [of data])
    with update_chunks_ok [OF tr(1), of ?r] tr(2)
    have "md5_mem (MD5Update data ctx) (md5.absorb ?r (rfc_compress (md5.absorb bs ?H0) (tail bs @ ?d))) (tail ?r)"
      "md5_count (MD5Update data ctx) (length bs + length data)"
      by (simp_all add: md5_count_def)
    moreover have "md5.absorb ((bs @ ?d) @ ?r) ?H0 = md5.absorb ?r (rfc_compress (md5.absorb bs ?H0) (tail bs @ ?d))"
      "tail ((bs @ ?d) @ ?r) = tail ?r"
      using md5.absorb_fill [OF f, of ?H0] md5.absorb_append [of "bs @ ?d" ?r ?H0] tail_append [of "bs @ ?d" ?r] by simp_all
    ultimately show ?thesis by (simp add: md5_ok_def)
  qed
qed

lemma MD5Updates_ok: "md5_ok ctx bs \<Longrightarrow> md5_ok (fold MD5Update datas ctx) (bs @ concat datas)"
proof (induction datas arbitrary: ctx bs)
  case (Cons d datas)
  then show ?case using MD5Update_ok [of ctx bs d] by fastforce
qed simp

lemma enc_u64_halves: "enc_u32 (of_nat (8 * n)) @ enc_u32 (of_nat (n div 2 ^ 29)) = enc_u64 (of_nat (8 * n))"
proof -
  have e: "le_enc k (m mod 256 ^ k) = le_enc k m" for k m
    by (metis le_dec_enc le_enc_dec length_le_enc)
  have "le_enc (j + k) m = le_enc j m @ le_enc k (m div 256 ^ j)" for j k m
    by (induction j arbitrary: m) (simp_all add: div_mult2_eq)
  from this [of 4 4 "8 * n"] have "le_enc 8 (8 * n) = le_enc 4 (8 * n) @ le_enc 4 (n div 2 ^ 29)"
    using div_mult_mult1 [of 8 n "2 ^ 29"] by simp
  then show ?thesis
    using e [of 4 "8 * n"] e [of 4 "n div 2 ^ 29"] e [of 8 "8 * n"]
    by (simp add: enc_u32_def enc_u64_def unat_of_nat del: of_nat_mult)
qed

lemma memset_mem:
  assumes "md5_mem ctx h pre" and "length pre + n \<le> 64"
  shows "md5_mem (ctx\<lparr>md5_in := memset_at (length pre) 0 n (md5_in ctx)\<rparr>) h (pre @ zeros n)"
  using md5_mem_memcpy [OF assms(1), of "zeros n"] assms(2) by (simp add: memset_at_def zeros_def)

lemma byte_mem:
  assumes "md5_mem ctx h pre" and "length pre < 64"
  shows "md5_mem (ctx\<lparr>md5_in := (md5_in ctx)[length pre := b]\<rparr>) h (pre @ [b])"
  using md5_mem_memcpy [OF assms(1), of "[b]"] assms
  by (simp add: memcpy_at_def md5_mem_def upd_conv_take_nth_drop)

lemma pad_in_ok:
  assumes ok: "md5_ok ctx bs" and H0: "H0 = (0x67452301, 0xefcdab89, 0x98badcfe, 0x10325476)"
  shows "\<exists>h pre. md5_mem (pad_in ctx) h pre \<and> length pre = 56 \<and> md5_count (pad_in ctx) (length bs) \<and>
     rfc_compress h (pre @ enc_u64 (of_nat (8 * length bs))) = md5.absorb (padded enc_u64 bs) H0"
proof -
  let ?n = "length bs mod 64" and ?h = "md5.absorb bs H0"
  let ?c = "ctx\<lparr>md5_in := (md5_in ctx)[?n := 0x80]\<rparr>"
  have n: "?n < 64" by simp
  have t: "unat (drop_bit 3 (md5_bits0 ctx) AND 0x3f) = ?n" using ok by (simp add: md5_ok_def md5_count_bytes)
  have m: "md5_mem ?c ?h (tail bs @ [0x80])" and cnt: "md5_count ?c (length bs)"
    using ok byte_mem [of ctx ?h "tail bs" "0x80"] by (simp_all add: md5_ok_def H0 md5_count_def)
  show ?thesis
  proof (cases "56 \<le> ?n")
    case True
    let ?c1 = "?c\<lparr>md5_in := memset_at (?n + 1) 0 (63 - ?n) (md5_in ?c)\<rparr>"
    let ?c2 = "(transform_in ?c1)\<lparr>md5_in := memset_at 0 0 56 (md5_in (transform_in ?c1))\<rparr>"
    have f: "length ((tail bs @ [0x80]) @ zeros (63 - ?n)) = 64" using n by simp
    have "md5_mem ?c1 ?h ((tail bs @ [0x80]) @ zeros (63 - ?n))" using memset_mem [OF m, of "63 - ?n"] n by simp
    from md5_mem_transform [OF this f] cnt
    have "md5_mem ?c2 (rfc_compress ?h (tail bs @ 0x80 # zeros (63 - ?n))) (zeros 56)" "md5_count ?c2 (length bs)"
      using memset_mem [of "transform_in ?c1" _ "[]" 56] by (simp_all add: md5_count_def)
    moreover have "pad_in ctx = ?c2" using True n unfolding pad_in_def t Let_def by simp
    ultimately show ?thesis using md5.absorb_padded_two [OF True, of H0] by (metis length_zeros)
  next
    case False
    let ?c1 = "?c\<lparr>md5_in := memset_at (?n + 1) 0 (55 - ?n) (md5_in ?c)\<rparr>"
    have n56: "?n < 56" using False by simp
    have "md5_mem ?c1 ?h (tail bs @ 0x80 # zeros (55 - ?n))" using memset_mem [OF m, of "55 - ?n"] n56 by simp
    moreover have "pad_in ctx = ?c1" using n56 unfolding pad_in_def t Let_def by simp
    moreover have "length (tail bs @ 0x80 # zeros (55 - ?n)) = 56" using n56 by simp
    ultimately show ?thesis using md5.absorb_padded_one [OF n56, of H0] cnt
      by (intro exI [of _ ?h] exI [of _ "tail bs @ 0x80 # zeros (55 - ?n)"]) (simp add: md5_count_def)
  qed
qed

lemma list_of_four: "length xs = 4 \<Longrightarrow> \<exists>w x y z. xs = [w, x, y, z]"
  by (auto simp: numeral_eq_Suc length_Suc_conv)

lemma MD5Final_ok:
  assumes ok: "md5_ok ctx bs"
  shows "fst (MD5Final ctx) = md5_digest bs"
proof -
  obtain h pre where m: "md5_mem (pad_in ctx) h pre" "length pre = 56" and cnt: "md5_count (pad_in ctx) (length bs)"
    and h: "rfc_compress h (pre @ enc_u64 (of_nat (8 * length bs))) =
      md5.absorb (padded enc_u64 bs) (0x67452301, 0xefcdab89, 0x98badcfe, 0x10325476)"
    using pad_in_ok [OF ok refl] by blast
  let ?i = "memcpy_at (15 * 4) (enc_u32 (md5_bits1 (pad_in ctx)))
      (memcpy_at (14 * 4) (enc_u32 (md5_bits0 (pad_in ctx))) (byteReverse (md5_in (pad_in ctx)) 14))"
  have i: "?i = pre @ enc_u64 (of_nat (8 * length bs))"
    using m cnt enc_u64_halves [of "length bs"] by (simp add: memcpy_at_def md5_mem_def byteReverse_id md5_count_def)
  let ?b = "MD5Transform (md5_buf (pad_in ctx)) (read_array 4 dec_u32 16 ?i)"
  obtain w x y z where b: "?b = [w, x, y, z]"
    using list_of_four [OF MD5Transform_compress(2)] by blast
  have "four ?b = md5.absorb (padded enc_u64 bs) (0x67452301, 0xefcdab89, 0x98badcfe, 0x10325476)"
    using m(1) h unfolding i by (simp add: MD5Transform_compress md5_mem_def)
  then have "md5.absorb (padded enc_u64 bs) (0x67452301, 0xefcdab89, 0x98badcfe, 0x10325476) = (w, x, y, z)"
    unfolding b by (simp add: four_def)
  then have d: "concat (map enc_u32 ?b) = md5_digest bs"
    unfolding b md5_digest_def md5.absorb_def by simp
  have "fst (MD5Final ctx) = byteReverse (concat (map enc_u32 ?b)) 4"
    unfolding MD5Final_def Let_def by simp
  also have "\<dots> = concat (map enc_u32 ?b)"
    unfolding b by (rule byteReverse_id) simp
  finally show ?thesis unfolding d .
qed

section \<open>Hexadecimal\<close>

definition hex :: "byte list \<Rightarrow> string" where
  "hex bs = concat (map (\<lambda>b. [zEncode ! (unat b div 16), zEncode ! (unat b mod 16)]) bs)"

lemma nibbles: "unat (drop_bit 4 a AND 0xf) = unat a div 16" "unat (a AND 0xf) = unat a mod 16" for a :: byte
proof -
  have m: "x AND 0xf = take_bit 4 x" for x :: byte by (simp add: take_bit_eq_mask mask_numeral)
  show "unat (a AND 0xf) = unat a mod 16" unfolding m by (simp only: unsigned_take_bit_eq) (simp add: take_bit_eq_mod)
  have "unat (drop_bit 4 a) = unat a div 16" by (subst unat_drop_bit_eq) (simp add: drop_bit_eq_div)
  moreover have "unat a < 256" using unsigned_less [of a, where ?'a = nat] by simp
  ultimately show "unat (drop_bit 4 a AND 0xf) = unat a div 16"
    unfolding m by (simp only: unsigned_take_bit_eq) (simp add: take_bit_eq_mod)
qed

lemma MD5DigestToBase16_hex:
  assumes "length d = 16"
  shows "MD5DigestToBase16 d = hex d"
proof -
  let ?step = "\<lambda>i (ret :: string). let a = d ! i; j = 2 * i
     in (ret[j := zEncode ! (unat a div 16)])[j + 1 := zEncode ! (unat a mod 16)]"
  have l: "length (hex bs) = 2 * length bs" for bs by (induction bs) (simp_all add: hex_def)
  have "fold ?step [0..<n] (replicate 32 c) = hex (take n d) @ replicate (2 * (16 - n)) c" if "n \<le> 16" for n c
    using that
  proof (induction n)
    case (Suc n)
    have "2 * (16 - n) = Suc (Suc (2 * (16 - Suc n)))" using Suc.prems by simp
    then show ?case using Suc assms l [of "take n d"]
      by (simp add: Let_def list_update_append take_Suc_conv_app_nth) (simp add: hex_def)
  qed (simp add: hex_def)
  from this [of 16] have "fold ?step [0..<16] (replicate 32 c) = hex d" for c using assms by (simp del: upt_rec_numeral)
  then show ?thesis unfolding MD5DigestToBase16_def Let_def nibbles(1) unfolding nibbles(2) by blast
qed

text \<open>
  C28: MD5.  However a message is cut into calls of \<open>MD5Update\<close>, the digest is the MD5 of the whole message as RFC 1321
  defines it, with the number of bits appended least significant byte first; \<open>MD5IntermediateFinal\<close> gives the digest of what has been
  added so far without changing the context, and \<open>MD5String\<close> prints the digest in hexadecimal.
\<close>

theorem md5_is_rfc1321:
  assumes "length (md5_in raw) = 64"
  shows "fst (MD5Final (fold MD5Update datas (MD5Init raw))) = md5_digest (concat datas) \<and>
         MD5IntermediateFinal (fold MD5Update datas (MD5Init raw)) = md5_digest (concat datas) \<and>
         MD5String raw (concat datas) = hex (md5_digest (concat datas))"
proof -
  have "length (md5_digest (concat datas)) = 16" by (simp add: md5_digest_def split: prod.splits)
  then show ?thesis
    using MD5Final_ok [OF MD5Updates_ok [OF MD5Init_ok [OF assms], of datas]]
      MD5Final_ok [OF MD5Updates_ok [OF MD5Init_ok [OF assms], of "[concat datas]"]]
    by (simp add: MD5IntermediateFinal_def MD5String_def MD5Sum_def MD5DigestToBase16_hex)
qed

theorem md5_is_rfc1321_witness:
  "MD5String \<lparr>md5_buf = [], md5_bits0 = 3, md5_bits1 = 4, md5_in = replicate 64 5\<rparr> [0x61, 0x62, 0x63] =
   hex (md5_digest [0x61, 0x62, 0x63])"
  using md5_is_rfc1321 [of "\<lparr>md5_buf = [], md5_bits0 = 3, md5_bits1 = 4, md5_in = replicate 64 5\<rparr>" "[[0x61, 0x62, 0x63]]"] by simp

end
