(* ===== verification/Icu_Utf.thy ===== *)
theory Icu_Utf
  imports Libchrome_Prelude
begin

unbundle bit_operations_syntax

text \<open>
  The UTF-8 and UTF-16 primitives of ICU that \<open>base\<close> uses (\<open>base/third_party/icu/icu_utf.h\<close> and
  \<open>icu_utf.cc\<close>): reading the next code point of a string and appending a code point to a buffer.

  \<open>UChar32\<close> is an \<open>int\<close>, with \<open>-1\<close> as \<open>CBU_SENTINEL\<close>; code units are words.  A macro that reads
  from \<open>s\<close> at \<open>i\<close> and advances \<open>i\<close> returns the code point and the new index; a macro that writes returns
  the code units it writes.

  The lemmas give what \<open>CBU8_NEXT\<close> does for a lead byte of two, three and four bytes, in arithmetic.
\<close>

section \<open>Code points\<close>

type_synonym UChar32 = int
type_synonym char16 = "16 word"

definition CBU_SENTINEL :: UChar32 where
  "CBU_SENTINEL = - 1"

definition CBU_IS_UNICODE_NONCHAR :: "UChar32 \<Rightarrow> bool" where
  "CBU_IS_UNICODE_NONCHAR c \<longleftrightarrow> 0xfdd0 \<le> c \<and> (c \<le> 0xfdef \<or> c AND 0xfffe = 0xfffe) \<and> c \<le> 0x10ffff"

definition CBU_IS_SURROGATE :: "UChar32 \<Rightarrow> bool" where
  "CBU_IS_SURROGATE c \<longleftrightarrow> c AND 0xfffff800 = 0xd800"

section \<open>UTF-8\<close>

definition CBU8_LEAD3_T1_BITS :: "int list" where
  "CBU8_LEAD3_T1_BITS = [0x20, 0x30, 0x30, 0x30, 0x30, 0x30, 0x30, 0x30, 0x30, 0x30, 0x30, 0x30, 0x30, 0x10, 0x30, 0x30]"

definition CBU8_IS_VALID_LEAD3_AND_T1 :: "UChar32 \<Rightarrow> byte \<Rightarrow> bool" where
  "CBU8_IS_VALID_LEAD3_AND_T1 lead t1 \<longleftrightarrow>
     CBU8_LEAD3_T1_BITS ! nat (lead AND 0xf) AND push_bit (unat (drop_bit 5 t1)) 1 \<noteq> 0"

definition CBU8_LEAD4_T1_BITS :: "int list" where
  "CBU8_LEAD4_T1_BITS = [0x00, 0x00, 0x00, 0x00, 0x00, 0x00, 0x00, 0x00, 0x1E, 0x0F, 0x0F, 0x0F, 0x00, 0x00, 0x00, 0x00]"

definition CBU8_IS_VALID_LEAD4_AND_T1 :: "UChar32 \<Rightarrow> byte \<Rightarrow> bool" where
  "CBU8_IS_VALID_LEAD4_AND_T1 lead t1 \<longleftrightarrow>
     CBU8_LEAD4_T1_BITS ! unat (drop_bit 4 t1) AND push_bit (nat (lead AND 7)) 1 \<noteq> 0"

definition CBU8_IS_SINGLE :: "UChar32 \<Rightarrow> bool" where
  "CBU8_IS_SINGLE c \<longleftrightarrow> c AND 0x80 = 0"

definition utf8_errorValue :: "UChar32 list" where
  "utf8_errorValue = [0x15, 0x9f, 0xffff, 0x10ffff, 0, 0]"

definition errorValue :: "nat \<Rightarrow> int \<Rightarrow> UChar32" where
  "errorValue cnt strict =
     (if 0 \<le> strict then utf8_errorValue ! cnt else if strict = - 3 then 0xfffd else CBU_SENTINEL)"

text \<open>\<open>s\<close> is at least as long as \<open>len\<close>, or ends with a NUL if \<open>len\<close> is negative.\<close>

definition utf8_nextCharSafeBody :: "byte list \<Rightarrow> nat \<Rightarrow> int \<Rightarrow> UChar32 \<Rightarrow> int \<Rightarrow> UChar32 \<times> nat" where
  "utf8_nextCharSafeBody s pi len c strict =
     (let i = pi;
          fail = (\<lambda>i. (errorValue (i - pi) strict, i))
      in if int i = len \<or> 0xf4 < c then fail i
         else if 0xf0 \<le> c then
           (let t1 = s ! i; c = c AND 7
            in if \<not> CBU8_IS_VALID_LEAD4_AND_T1 c t1 then fail i
               else (let i = i + 1; t2 = s ! i - 0x80
                     in if int i = len \<or> \<not> t2 \<le> 0x3f then fail i
                        else (let i = i + 1; t3 = s ! i - 0x80
                              in if int i = len \<or> \<not> t3 \<le> 0x3f then fail i
                                 else (let i = i + 1;
                                           c = push_bit 18 c OR push_bit 12 (uint (t1 AND 0x3f)) OR push_bit 6 (uint t2) OR uint t3
                                       in if strict \<le> 0 \<or> \<not> CBU_IS_UNICODE_NONCHAR c then (c, i) else fail i))))
         else if 0xe0 \<le> c then
           (let c = c AND 0xf
            in if strict \<noteq> - 2 then
                 (let t1 = s ! i
                  in if \<not> CBU8_IS_VALID_LEAD3_AND_T1 c t1 then fail i
                     else (let i = i + 1; t2 = s ! i - 0x80
                           in if int i = len \<or> \<not> t2 \<le> 0x3f then fail i
                              else (let i = i + 1;
                                        c = push_bit 12 c OR push_bit 6 (uint (t1 AND 0x3f)) OR uint t2
                                    in if strict \<le> 0 \<or> \<not> CBU_IS_UNICODE_NONCHAR c then (c, i) else fail i)))
               else
                 (let t1 = s ! i - 0x80
                  in if \<not> (t1 \<le> 0x3f \<and> (0 < c \<or> 0x20 \<le> t1)) then fail i
                     else (let i = i + 1; t2 = s ! i - 0x80
                           in if int i = len \<or> \<not> t2 \<le> 0x3f then fail i
                              else (push_bit 12 c OR push_bit 6 (uint t1) OR uint t2, i + 1))))
         else if 0xc2 \<le> c then
           (let t1 = s ! i - 0x80
            in if t1 \<le> 0x3f then (push_bit 6 (c - 0xc0) OR uint t1, i + 1) else fail i)
         else fail i)"

definition CBU8_NEXT :: "byte list \<Rightarrow> nat \<Rightarrow> int \<Rightarrow> UChar32 \<times> nat" where
  "CBU8_NEXT s i len =
     (let c = uint (s ! i); i = i + 1
      in if CBU8_IS_SINGLE c then (c, i)
         else if 0xe0 \<le> c \<and> c < 0xf0 \<and> (int i + 1 < len \<or> len < 0) \<and>
                 CBU8_IS_VALID_LEAD3_AND_T1 c (s ! i) \<and> s ! (i + 1) - 0x80 \<le> 0x3f
         then (push_bit 12 (c AND 0xf) OR push_bit 6 (uint (s ! i AND 0x3f)) OR uint (s ! (i + 1) - 0x80), i + 2)
         else if c < 0xe0 \<and> 0xc2 \<le> c \<and> int i \<noteq> len \<and> s ! i - 0x80 \<le> 0x3f
         then (push_bit 6 (c AND 0x1f) OR uint (s ! i - 0x80), i + 1)
         else utf8_nextCharSafeBody s i len c (- 1))"

definition CBU8_APPEND_UNSAFE :: "UChar32 \<Rightarrow> byte list" where
  "CBU8_APPEND_UNSAFE c =
     (if c \<le> 0x7f then [word_of_int c]
      else (if c \<le> 0x7ff then [word_of_int (drop_bit 6 c OR 0xc0)]
            else (if c \<le> 0xffff then [word_of_int (drop_bit 12 c OR 0xe0)]
                  else [word_of_int (drop_bit 18 c OR 0xf0), word_of_int ((drop_bit 12 c AND 0x3f) OR 0x80)]) @
                 [word_of_int ((drop_bit 6 c AND 0x3f) OR 0x80)]) @
           [word_of_int ((c AND 0x3f) OR 0x80)])"

section \<open>UTF-16\<close>

definition CBU16_IS_SINGLE :: "UChar32 \<Rightarrow> bool" where
  "CBU16_IS_SINGLE c \<longleftrightarrow> \<not> CBU_IS_SURROGATE c"

definition CBU16_IS_LEAD :: "UChar32 \<Rightarrow> bool" where
  "CBU16_IS_LEAD c \<longleftrightarrow> c AND 0xfffffc00 = 0xd800"

definition CBU16_IS_TRAIL :: "UChar32 \<Rightarrow> bool" where
  "CBU16_IS_TRAIL c \<longleftrightarrow> c AND 0xfffffc00 = 0xdc00"

definition CBU16_IS_SURROGATE_LEAD :: "UChar32 \<Rightarrow> bool" where
  "CBU16_IS_SURROGATE_LEAD c \<longleftrightarrow> c AND 0x400 = 0"

definition CBU16_SURROGATE_OFFSET :: int where
  "CBU16_SURROGATE_OFFSET = push_bit 10 0xd800 + 0xdc00 - 0x10000"

definition CBU16_GET_SUPPLEMENTARY :: "UChar32 \<Rightarrow> UChar32 \<Rightarrow> UChar32" where
  "CBU16_GET_SUPPLEMENTARY lead trail = push_bit 10 lead + trail - CBU16_SURROGATE_OFFSET"

definition CBU16_LENGTH :: "UChar32 \<Rightarrow> nat" where
  "CBU16_LENGTH c = (if c \<le> 0xffff then 1 else 2)"

definition CBU16_NEXT :: "char16 list \<Rightarrow> nat \<Rightarrow> int \<Rightarrow> UChar32 \<times> nat" where
  "CBU16_NEXT s i len =
     (let c = uint (s ! i); i = i + 1
      in if CBU16_IS_LEAD c \<and> int i \<noteq> len \<and> CBU16_IS_TRAIL (uint (s ! i))
         then (CBU16_GET_SUPPLEMENTARY c (uint (s ! i)), i + 1)
         else (c, i))"

definition CBU16_APPEND_UNSAFE :: "UChar32 \<Rightarrow> char16 list" where
  "CBU16_APPEND_UNSAFE c =
     (if c \<le> 0xffff then [word_of_int c]
      else [word_of_int (drop_bit 10 c + 0xd7c0), word_of_int ((c AND 0x3ff) OR 0xdc00)])"

section \<open>Bits and digits\<close>

lemma or_add: "0 \<le> y \<Longrightarrow> y < 2 ^ n \<Longrightarrow> push_bit n x OR y = 2 ^ n * x + y" for x y :: int
proof -
  assume "0 \<le> y" "y < 2 ^ n"
  then have "take_bit n y = y" by (simp add: take_bit_int_eq_self)
  then have "\<not> bit y m" if "n \<le> m" for m using that by (metis bit_take_bit_iff not_le)
  then have "push_bit n x + y = push_bit n x OR y"
    by (intro disjunctive_add) (auto simp: bit_push_bit_iff not_le)
  then show ?thesis by (simp add: push_bit_eq_mult mult.commute)
qed

lemma and_masks:
  "x AND 7 = x mod 8" "x AND 0xf = x mod 16" "x AND 0x1f = x mod 32" "x AND 0x3f = x mod 64" "x AND 0x3ff = x mod 1024"
  for x :: int
proof -
  have "x AND mask n = x mod 2 ^ n" for n by (simp add: take_bit_eq_mask [symmetric] take_bit_eq_mod)
  from this [of 3] this [of 4] this [of 5] this [of 6] this [of 10]
  show "x AND 7 = x mod 8" "x AND 0xf = x mod 16" "x AND 0x1f = x mod 32" "x AND 0x3f = x mod 64" "x AND 0x3ff = x mod 1024"
    by (simp_all add: mask_numeral)
qed

lemma byte_bounds: "0 \<le> uint b" "uint b < 256" for b :: byte
  using unsigned_less [of b, where ?'a = int] by simp_all

lemma unit_bounds: "0 \<le> uint b" "uint b < 65536" for b :: char16
  using unsigned_less [of b, where ?'a = int] by simp_all

text \<open>The test \<open>(t = b - 0x80) <= 0x3f\<close> on bytes.\<close>

lemma wrap_sub: "0 \<le> u \<Longrightarrow> u < 256 \<Longrightarrow> (u - 0x80) mod 256 = (if 0x80 \<le> u then u - 0x80 else u + 0x80)" for u :: int
  using mod_add_self2 [of "u - 0x80" 256] by (auto simp: mod_pos_pos_trivial)

lemma trail_sub: "uint (b - 0x80) = (if 0x80 \<le> uint b then uint b - 0x80 else uint b + 0x80)" for b :: byte
proof -
  have "uint (b - 0x80) = (uint b - 0x80) mod 256" using uint_word_ariths(2) [of b "0x80"] by simp
  then show ?thesis unfolding wrap_sub [OF byte_bounds] .
qed

lemma trail_range: "0 \<le> u \<Longrightarrow> (if 0x80 \<le> u then u - 0x80 else u + 0x80) \<le> 0x3f \<longleftrightarrow> 0x80 \<le> u \<and> u \<le> 0xbf" for u :: int
  by auto

lemma trail_test: "b - 0x80 \<le> 0x3f \<longleftrightarrow> 0x80 \<le> uint b \<and> uint b \<le> 0xbf" for b :: byte
proof -
  have "b - 0x80 \<le> 0x3f \<longleftrightarrow> uint (b - 0x80) \<le> 0x3f" by (simp add: word_le_def)
  then show ?thesis unfolding trail_sub trail_range [OF byte_bounds(1)] .
qed

lemma trail_value: "0x80 \<le> uint b \<Longrightarrow> uint (b - 0x80) = uint b - 0x80" for b :: byte
  by (simp only: trail_sub if_True)

lemma and_3f: "uint (b AND 0x3f) = uint b mod 64" for b :: byte
  by (simp add: unsigned_and_eq and_masks)

text \<open>The tables of second bytes, as in the table of well-formed sequences of the standard.\<close>

definition ok3 :: "int \<Rightarrow> int \<Rightarrow> bool" where
  "ok3 lead u \<longleftrightarrow> (if lead = 0xe0 then 0xa0 else 0x80) \<le> u \<and> u \<le> (if lead = 0xed then 0x9f else 0xbf)"

definition ok4 :: "int \<Rightarrow> int \<Rightarrow> bool" where
  "ok4 lead u \<longleftrightarrow> (if lead = 0xf0 then 0x90 else 0x80) \<le> u \<and> u \<le> (if lead = 0xf4 then 0x8f else 0xbf)"

lemma less_8_cases: "k < (8 :: nat) \<Longrightarrow> k = 0 \<or> k = 1 \<or> k = 2 \<or> k = 3 \<or> k = 4 \<or> k = 5 \<or> k = 6 \<or> k = 7"
  by arith

lemma drop_bit_byte: "unat (drop_bit n b) = nat (uint b div 2 ^ n)" for b :: byte
  by (subst unat_drop_bit_eq) (simp add: drop_bit_eq_div nat_div_distrib nat_power_eq)

lemma and_push: "x AND push_bit k 1 \<noteq> 0 \<longleftrightarrow> bit x k" for x :: int
  using bit_iff_and_push_bit_not_eq_0 [of x k] by simp

lemma lead3_iff:
  assumes l: "0xe0 \<le> c" "c < 0xf0"
  shows "CBU8_IS_VALID_LEAD3_AND_T1 c b \<longleftrightarrow> ok3 c (uint b)" and "CBU8_IS_VALID_LEAD3_AND_T1 (c mod 16) b \<longleftrightarrow> ok3 c (uint b)"
proof -
  let ?u = "uint b" and ?k = "nat (uint b div 32)"
  have k: "?k < 8" "?k = 4 \<longleftrightarrow> 0x80 \<le> ?u \<and> ?u \<le> 0x9f" "?k = 5 \<longleftrightarrow> 0xa0 \<le> ?u \<and> ?u \<le> 0xbf"
    using byte_bounds [of b] by arith+
  have b: "bit (0x20 :: int) ?k \<longleftrightarrow> ?k = 5" "bit (0x30 :: int) ?k \<longleftrightarrow> ?k = 4 \<or> ?k = 5" "bit (0x10 :: int) ?k \<longleftrightarrow> ?k = 4"
    using less_8_cases [OF k(1)] by (elim disjE; simp)+
  have "c = 0xe0 \<or> c = 0xe1 \<or> c = 0xe2 \<or> c = 0xe3 \<or> c = 0xe4 \<or> c = 0xe5 \<or> c = 0xe6 \<or> c = 0xe7 \<or>
      c = 0xe8 \<or> c = 0xe9 \<or> c = 0xea \<or> c = 0xeb \<or> c = 0xec \<or> c = 0xed \<or> c = 0xee \<or> c = 0xef" using l by arith
  then show "CBU8_IS_VALID_LEAD3_AND_T1 c b \<longleftrightarrow> ok3 c ?u"
    unfolding CBU8_IS_VALID_LEAD3_AND_T1_def drop_bit_byte and_push and_masks
    using b k(2,3) by (elim disjE) (auto simp: CBU8_LEAD3_T1_BITS_def ok3_def)
  then show "CBU8_IS_VALID_LEAD3_AND_T1 (c mod 16) b \<longleftrightarrow> ok3 c (uint b)"
    by (simp add: CBU8_IS_VALID_LEAD3_AND_T1_def and_masks)
qed

lemma lead4_iff:
  assumes l: "0xf0 \<le> c" "c \<le> 0xf4"
  shows "CBU8_IS_VALID_LEAD4_AND_T1 (c mod 8) b \<longleftrightarrow> ok4 c (uint b)"
proof -
  let ?u = "uint b" and ?k = "nat (uint b div 16)"
  have "?k < 16" using byte_bounds [of b] by arith
  then have k: "?k < 8 \<or> ?k = 8 \<or> ?k = 9 \<or> ?k = 10 \<or> ?k = 11 \<or> ?k = 12 \<or> ?k = 13 \<or> ?k = 14 \<or> ?k = 15" by arith
  have t: "CBU8_LEAD4_T1_BITS ! ?k = (if ?k = 8 then 0x1E else if 9 \<le> ?k \<and> ?k \<le> 11 then 0x0F else 0)"
  proof (cases "?k < 8")
    case True
    from less_8_cases [OF this] show ?thesis by (elim disjE) (simp_all add: CBU8_LEAD4_T1_BITS_def)
  next
    case False
    with k show ?thesis by (elim disjE) (simp_all add: CBU8_LEAD4_T1_BITS_def)
  qed
  have r: "?k = 8 \<longleftrightarrow> 0x80 \<le> ?u \<and> ?u \<le> 0x8f" "9 \<le> ?k \<and> ?k \<le> 11 \<longleftrightarrow> 0x90 \<le> ?u \<and> ?u \<le> 0xbf"
    using byte_bounds [of b] by arith+
  have c: "c = 0xf0 \<or> c = 0xf1 \<or> c = 0xf2 \<or> c = 0xf3 \<or> c = 0xf4" using l by arith
  then have "bit (0x1E :: int) (nat (c mod 8)) \<longleftrightarrow> c \<noteq> 0xf0" "bit (0x0F :: int) (nat (c mod 8)) \<longleftrightarrow> c \<noteq> 0xf4" by auto
  then have "CBU8_IS_VALID_LEAD4_AND_T1 (c mod 8) b \<longleftrightarrow>
      (?k = 8 \<and> c \<noteq> 0xf0) \<or> (9 \<le> ?k \<and> ?k \<le> 11 \<and> c \<noteq> 0xf4)"
    unfolding CBU8_IS_VALID_LEAD4_AND_T1_def drop_bit_byte and_push and_masks by (auto simp: t)
  then show ?thesis unfolding r using c by (auto simp: ok4_def)
qed

section \<open>Reading a sequence of each length\<close>

definition trail :: "int \<Rightarrow> bool" where
  "trail u \<longleftrightarrow> 0x80 \<le> u \<and> u \<le> 0xbf"

lemma single_iff: "CBU8_IS_SINGLE (uint b) \<longleftrightarrow> uint b < 0x80" for b :: byte
proof -
  have "uint b AND 0x80 \<noteq> 0 \<longleftrightarrow> bit (uint b) 7" using and_push [of "uint b" 7] by simp
  also have "\<dots> \<longleftrightarrow> odd (uint b div 128)" by (simp add: bit_iff_odd)
  also have "\<dots> \<longleftrightarrow> \<not> uint b < 0x80" using byte_bounds [of b] by arith
  finally show ?thesis by (auto simp: CBU8_IS_SINGLE_def)
qed

lemma or_two: "0 \<le> x \<Longrightarrow> x < 64 \<Longrightarrow> push_bit 6 a OR x = 64 * a + x" for a x :: int
  using or_add [of x 6 a] by simp

lemma or_three:
  "0 \<le> x \<Longrightarrow> x < 64 \<Longrightarrow> 0 \<le> y \<Longrightarrow> y < 64 \<Longrightarrow> push_bit 12 a OR push_bit 6 y OR x = 4096 * a + 64 * y + x" for a x y :: int
  using or_add [of "64 * y + x" 12 a] or_two [of x y] by simp

lemma or_four:
  "0 \<le> x \<Longrightarrow> x < 64 \<Longrightarrow> 0 \<le> y \<Longrightarrow> y < 64 \<Longrightarrow> 0 \<le> z \<Longrightarrow> z < 64 \<Longrightarrow>
   push_bit 18 a OR push_bit 12 z OR push_bit 6 y OR x = 262144 * a + 4096 * z + 64 * y + x" for a x y z :: int
  using or_add [of "4096 * z + 64 * y + x" 18 a] or_three [of x y z] by simp

lemma trail_bits: "trail (uint b) \<Longrightarrow> uint b mod 64 = uint b - 0x80" for b :: byte
  unfolding trail_def by arith

lemmas safe_body_simps = utf8_nextCharSafeBody_def Let_def errorValue_def CBU_SENTINEL_def

lemma next_two:
  assumes i: "i < length s" and c: "0xc2 \<le> uint (s ! i)" "uint (s ! i) \<le> 0xdf"
  shows "CBU8_NEXT s i (int (length s)) =
    (if i + 1 < length s \<and> trail (uint (s ! (i + 1)))
     then (64 * (uint (s ! i) - 0xc0) + (uint (s ! (i + 1)) - 0x80), i + 2) else (- 1, i + 1))"
proof (cases "i + 1 < length s \<and> trail (uint (s ! (i + 1)))")
  case True
  have "uint (s ! i) mod 32 = uint (s ! i) - 0xc0" using c by arith
  then show ?thesis using True c
    by (simp add: CBU8_NEXT_def Let_def single_iff trail_test and_masks trail_value or_two trail_def)
next
  case False
  then show ?thesis using i c
    by (auto simp: CBU8_NEXT_def Let_def single_iff trail_test trail_def safe_body_simps)
qed

lemma next_three:
  assumes i: "i < length s" and c: "0xe0 \<le> uint (s ! i)" "uint (s ! i) \<le> 0xef"
  shows "CBU8_NEXT s i (int (length s)) =
    (if i + 1 < length s \<and> ok3 (uint (s ! i)) (uint (s ! (i + 1))) then
       (if i + 2 < length s \<and> trail (uint (s ! (i + 2)))
        then (4096 * (uint (s ! i) - 0xe0) + 64 * (uint (s ! (i + 1)) - 0x80) + (uint (s ! (i + 2)) - 0x80), i + 3)
        else (- 1, i + 2))
     else (- 1, i + 1))"
proof -
  have l: "CBU8_IS_VALID_LEAD3_AND_T1 (uint (s ! i)) b \<longleftrightarrow> ok3 (uint (s ! i)) (uint b)"
    "CBU8_IS_VALID_LEAD3_AND_T1 (uint (s ! i) mod 16) b \<longleftrightarrow> ok3 (uint (s ! i)) (uint b)" for b
    using lead3_iff c by simp_all
  have t: "trail (uint b)" if "ok3 (uint (s ! i)) (uint b)" for b
    using that by (auto simp: ok3_def trail_def split: if_splits)
  have m: "uint (s ! i) mod 16 = uint (s ! i) - 0xe0" using c by arith
  show ?thesis
  proof (cases "i + 2 < length s \<and> ok3 (uint (s ! i)) (uint (s ! (i + 1))) \<and> trail (uint (s ! (i + 2)))")
    case True
    then show ?thesis using c m t [of "s ! (i + 1)"] trail_bits [of "s ! (i + 1)"]
      by (simp add: CBU8_NEXT_def Let_def single_iff trail_test and_masks l and_3f trail_value or_three trail_def)
  next
    case False
    then show ?thesis using i c
      by (auto simp: CBU8_NEXT_def Let_def single_iff trail_test and_masks l safe_body_simps trail_def)
  qed
qed

lemma next_four:
  assumes i: "i < length s" and c: "0xf0 \<le> uint (s ! i)" "uint (s ! i) \<le> 0xf4"
  shows "CBU8_NEXT s i (int (length s)) =
    (if i + 1 < length s \<and> ok4 (uint (s ! i)) (uint (s ! (i + 1))) then
       (if i + 2 < length s \<and> trail (uint (s ! (i + 2))) then
          (if i + 3 < length s \<and> trail (uint (s ! (i + 3)))
           then (262144 * (uint (s ! i) - 0xf0) + 4096 * (uint (s ! (i + 1)) - 0x80) + 64 * (uint (s ! (i + 2)) - 0x80) +
                 (uint (s ! (i + 3)) - 0x80), i + 4)
           else (- 1, i + 3))
        else (- 1, i + 2))
     else (- 1, i + 1))"
proof -
  have l: "CBU8_IS_VALID_LEAD4_AND_T1 (uint (s ! i) mod 8) b \<longleftrightarrow> ok4 (uint (s ! i)) (uint b)" for b
    using lead4_iff c by simp
  have t: "trail (uint b)" if "ok4 (uint (s ! i)) (uint b)" for b
    using that by (auto simp: ok4_def trail_def split: if_splits)
  have m: "uint (s ! i) mod 8 = uint (s ! i) - 0xf0" using c by arith
  have next': "CBU8_NEXT s i (int (length s)) = utf8_nextCharSafeBody s (i + 1) (int (length s)) (uint (s ! i)) (- 1)"
    using c by (simp add: CBU8_NEXT_def Let_def single_iff)
  show ?thesis
  proof (cases "i + 3 < length s \<and> ok4 (uint (s ! i)) (uint (s ! (i + 1))) \<and> trail (uint (s ! (i + 2))) \<and> trail (uint (s ! (i + 3)))")
    case True
    then have "trail (uint (s ! (i + 1)))" using t [of "s ! (i + 1)"] by simp
    with True have "push_bit 18 (uint (s ! i) - 0xf0) OR push_bit 12 (uint (s ! (i + 1)) - 0x80) OR push_bit 6 (uint (s ! (i + 2)) - 0x80) OR
        (uint (s ! (i + 3)) - 0x80) =
        262144 * (uint (s ! i) - 0xf0) + 4096 * (uint (s ! (i + 1)) - 0x80) + 64 * (uint (s ! (i + 2)) - 0x80) + (uint (s ! (i + 3)) - 0x80)"
      by (intro or_four) (simp_all add: trail_def)
    then show ?thesis unfolding next' using True c l [unfolded m] m \<open>trail (uint (s ! (i + 1)))\<close> trail_bits [of "s ! (i + 1)"]
      by (simp add: safe_body_simps trail_test and_masks and_3f trail_value trail_def numeral_eq_Suc)
  next
    case False
    then show ?thesis unfolding next' using i c
      by (auto simp: safe_body_simps trail_test and_masks l trail_def numeral_eq_Suc)
  qed
qed

end
