(* ===== verification/Utf_Encoding.thy ===== *)
theory Utf_Encoding
  imports Icu_Utf "HOL-Library.Sublist"
begin

unbundle bit_operations_syntax

text \<open>
  The encoding forms of the Unicode standard, and that the primitives of \<open>icu_utf.h\<close> implement them: \<open>CBU8_NEXT\<close>
  and \<open>CBU16_NEXT\<close> read exactly the well-formed sequences, an ill-formed UTF-8 sequence is skipped by maximal
  subparts, and the append macros write the encoding of a code point.
\<close>

section \<open>The encodings of the Unicode standard\<close>

definition scalar :: "int \<Rightarrow> bool" where
  "scalar c \<longleftrightarrow> 0 \<le> c \<and> c < 0xD800 \<or> 0xE000 \<le> c \<and> c \<le> 0x10FFFF"

definition utf8 :: "int \<Rightarrow> int list" where
  "utf8 c =
     (if c < 0x80 then [c]
      else if c < 0x800 then [0xC0 + c div 64, 0x80 + c mod 64]
      else if c < 0x10000 then [0xE0 + c div 4096, 0x80 + c div 64 mod 64, 0x80 + c mod 64]
      else [0xF0 + c div 262144, 0x80 + c div 4096 mod 64, 0x80 + c div 64 mod 64, 0x80 + c mod 64])"

definition utf16 :: "int \<Rightarrow> int list" where
  "utf16 c = (if c < 0x10000 then [c] else [0xD800 + (c - 0x10000) div 1024, 0xDC00 + (c - 0x10000) mod 1024])"

section \<open>UTF-8\<close>

text \<open>What \<open>CBU8_NEXT\<close> computes, on the bytes that remain: the code point and the number of bytes taken.\<close>

definition table_next :: "int list \<Rightarrow> int option \<times> nat" where
  "table_next us = (case us of [] \<Rightarrow> (None, 0) | a # us \<Rightarrow>
     if a < 0x80 then (Some a, 1)
     else if 0xc2 \<le> a \<and> a \<le> 0xdf then
       (case us of b # _ \<Rightarrow> if trail b then (Some (64 * (a - 0xc0) + (b - 0x80)), 2) else (None, 1) | [] \<Rightarrow> (None, 1))
     else if 0xe0 \<le> a \<and> a \<le> 0xef then
       (case us of b # us \<Rightarrow> if ok3 a b then
          (case us of c # _ \<Rightarrow> if trail c then (Some (4096 * (a - 0xe0) + 64 * (b - 0x80) + (c - 0x80)), 3) else (None, 2) | [] \<Rightarrow> (None, 2))
        else (None, 1) | [] \<Rightarrow> (None, 1))
     else if 0xf0 \<le> a \<and> a \<le> 0xf4 then
       (case us of b # us \<Rightarrow> if ok4 a b then
          (case us of c # us \<Rightarrow> if trail c then
             (case us of d # _ \<Rightarrow> if trail d
                then (Some (262144 * (a - 0xf0) + 4096 * (b - 0x80) + 64 * (c - 0x80) + (d - 0x80)), 4) else (None, 3) | [] \<Rightarrow> (None, 3))
           else (None, 2) | [] \<Rightarrow> (None, 2))
        else (None, 1) | [] \<Rightarrow> (None, 1))
     else (None, 1))"

lemma next_table:
  assumes i: "i < length s"
  shows "CBU8_NEXT s i (int (length s)) = (case table_next (map uint (drop i s)) of (r, n) \<Rightarrow> (case r of None \<Rightarrow> - 1 | Some c \<Rightarrow> c, i + n))"
proof -
  let ?a = "uint (s ! i)"
  have a: "0 \<le> ?a" "?a < 256" by (rule byte_bounds)+
  have d: "drop j s = s ! j # drop (j + 1) s" if "j < length s" for j using that by (simp add: Cons_nth_drop_Suc)
  have d1: "drop (i + 1) s = (if i + 1 < length s then s ! (i + 1) # drop (i + 2) s else [])"
    and d2: "drop (i + 2) s = (if i + 2 < length s then s ! (i + 2) # drop (i + 3) s else [])"
    and d3: "drop (i + 3) s = (if i + 3 < length s then s ! (i + 3) # drop (i + 4) s else [])"
    using d [of "i + 1"] d [of "i + 2"] d [of "i + 3"] by (simp_all add: numeral_eq_Suc)
  consider "?a < 0x80" | "0x80 \<le> ?a" "?a < 0xc2" | "0xf4 < ?a" | "0xc2 \<le> ?a" "?a \<le> 0xdf" | "0xe0 \<le> ?a" "?a \<le> 0xef" | "0xf0 \<le> ?a" "?a \<le> 0xf4"
    by linarith
  then show ?thesis
  proof cases
    case 1
    then show ?thesis by (simp add: d [OF i] table_next_def CBU8_NEXT_def Let_def single_iff)
  next
    case 2
    then show ?thesis by (simp add: d [OF i] table_next_def CBU8_NEXT_def Let_def single_iff safe_body_simps)
  next
    case 3
    then show ?thesis by (simp add: d [OF i] table_next_def CBU8_NEXT_def Let_def single_iff safe_body_simps)
  next
    case 4
    then show ?thesis unfolding next_two [OF i 4] d [OF i] d1 by (simp add: table_next_def)
  next
    case 5
    then show ?thesis unfolding next_three [OF i 5] d [OF i] d1 d2 by (simp add: table_next_def)
  next
    case 6
    then show ?thesis unfolding next_four [OF i 6] d [OF i] d1 d2 d3 by (simp add: table_next_def)
  qed
qed

lemma base64_split: "\<exists>x y z. c = 4096 * x + 64 * y + z \<and> 0 \<le> y \<and> y < 64 \<and> 0 \<le> z \<and> z < 64" for c :: int
proof (intro exI conjI)
  have "c = 64 * (c div 64) + c mod 64" "c div 64 = 64 * (c div 64 div 64) + c div 64 mod 64" by simp_all
  then show "c = 4096 * (c div 64 div 64) + 64 * (c div 64 mod 64) + c mod 64" by linarith
qed simp_all

lemma base64_three:
  fixes x y z :: int
  assumes "0 \<le> y" "y < 64" "0 \<le> z" "z < 64"
  shows "(4096 * x + 64 * y + z) div 4096 = x" "(4096 * x + 64 * y + z) div 64 mod 64 = y" "(4096 * x + 64 * y + z) mod 64 = z"
    "(4096 * x + 64 * y + z) div 262144 = x div 64"
proof -
  show d: "(4096 * x + 64 * y + z) div 4096 = x" using assms by (intro int_div_pos_eq [where r = "64 * y + z"]) auto
  have "(4096 * x + 64 * y + z) div 64 = 64 * x + y" using assms by (intro int_div_pos_eq [where r = z]) auto
  then show "(4096 * x + 64 * y + z) div 64 mod 64 = y" using assms by simp
  show "(4096 * x + 64 * y + z) mod 64 = z" using assms by (intro int_mod_pos_eq [where q = "64 * x + y"]) auto
  show "(4096 * x + 64 * y + z) div 262144 = x div 64"
    using zdiv_zmult2_eq [of 64 "4096 * x + 64 * y + z" 4096] d by simp
qed

lemma utf8_three:
  assumes "0x800 \<le> 4096 * x + 64 * y + z" "4096 * x + 64 * y + z < 0x10000" "0 \<le> y" "y < 64" "0 \<le> z" "z < 64"
  shows "utf8 (4096 * x + 64 * y + z) = [0xE0 + x, 0x80 + y, 0x80 + z]"
  using assms(1,2) by (simp add: utf8_def base64_three [OF assms(3-6)])

lemma utf8_four:
  assumes "0x10000 \<le> 262144 * p + 4096 * q + 64 * y + z" "0 \<le> q" "q < 64" "0 \<le> y" "y < 64" "0 \<le> z" "z < 64"
  shows "utf8 (262144 * p + 4096 * q + 64 * y + z) = [0xF0 + p, 0x80 + q, 0x80 + y, 0x80 + z]"
proof -
  let ?c = "262144 * p + 4096 * q + 64 * y + z" and ?x = "64 * p + q"
  have c: "?c = 4096 * ?x + 64 * y + z" by simp
  note v = base64_three [OF assms(4-7), of ?x, folded c]
  have x: "?x div 64 = p" "?x mod 64 = q" using assms(2,3) by simp_all
  have "\<not> ?c < 0x80" "\<not> ?c < 0x800" "\<not> ?c < 0x10000" using assms(1) by linarith+
  then show ?thesis by (simp only: utf8_def v x if_False)
qed

lemma table_next_utf8:
  assumes c: "scalar c"
  shows "table_next (utf8 c @ r) = (Some c, length (utf8 c))"
proof -
  obtain x y z where d: "c = 4096 * x + 64 * y + z" "0 \<le> y" "y < 64" "0 \<le> z" "z < 64" using base64_split by blast
  consider "0 \<le> c" "c < 0x80" | "0x80 \<le> c" "c < 0x800" | "0x800 \<le> c" "c < 0x10000" | "0x10000 \<le> c" "c \<le> 0x10FFFF"
    using c unfolding scalar_def by linarith
  then show ?thesis
  proof cases
    case 1
    then show ?thesis by (simp add: utf8_def table_next_def)
  next
    case 2
    have "0xC0 + c div 64 \<ge> 0xc2" "0xC0 + c div 64 \<le> 0xdf" "c = 64 * (c div 64) + c mod 64" using 2 by arith+
    then show ?thesis using 2 by (simp add: utf8_def table_next_def trail_def)
  next
    case 3
    have "utf8 c = [0xE0 + x, 0x80 + y, 0x80 + z]" using 3 d utf8_three by simp
    moreover have "0 \<le> x" "x < 16" using 3 d by linarith+
    moreover have "ok3 (0xE0 + x) (0x80 + y)" using 3 c d unfolding scalar_def ok3_def by auto
    ultimately show ?thesis using d by (simp add: table_next_def trail_def)
  next
    case 4
    define p q where "p = x div 64" "q = x mod 64"
    have x: "x = 64 * p + q" "0 \<le> q" "q < 64" by (simp_all add: p_q_def)
    have c4: "c = 262144 * p + 4096 * q + 64 * y + z" using x d by simp
    have "utf8 c = [0xF0 + p, 0x80 + q, 0x80 + y, 0x80 + z]" using 4 d x c4 utf8_four by simp
    moreover have "0 \<le> p" "p \<le> 4" using 4 d x by linarith+
    moreover have "ok4 (0xF0 + p) (0x80 + q)" using 4 c4 d x unfolding ok4_def by auto
    ultimately show ?thesis using d c4 by (simp add: table_next_def trail_def)
  qed
qed

lemma utf8_of_two:
  assumes "0xc2 \<le> a" "a \<le> 0xdf" "trail b"
  shows "scalar (64 * (a - 0xc0) + (b - 0x80)) \<and> utf8 (64 * (a - 0xc0) + (b - 0x80)) = [a, b]"
proof -
  have "(64 * (a - 0xc0) + (b - 0x80)) div 64 = a - 0xc0"
    using assms by (intro int_div_pos_eq [where r = "b - 0x80"]) (auto simp: trail_def)
  moreover have "(64 * (a - 0xc0) + (b - 0x80)) mod 64 = b - 0x80"
    using assms by (intro int_mod_pos_eq [where q = "a - 0xc0"]) (auto simp: trail_def)
  moreover have "0x80 \<le> 64 * (a - 0xc0) + (b - 0x80)" "64 * (a - 0xc0) + (b - 0x80) < 0x800"
    using assms by (auto simp: trail_def)
  ultimately show ?thesis unfolding scalar_def utf8_def by (simp only: if_True if_False) auto
qed

lemma utf8_of_three:
  assumes "0xe0 \<le> a" "a \<le> 0xef" "ok3 a b" "trail c"
  shows "scalar (4096 * (a - 0xe0) + 64 * (b - 0x80) + (c - 0x80)) \<and>
    utf8 (4096 * (a - 0xe0) + 64 * (b - 0x80) + (c - 0x80)) = [a, b, c]"
proof -
  have b: "0x80 \<le> b" "b \<le> 0xbf" "a = 0xe0 \<Longrightarrow> 0xa0 \<le> b" "a = 0xed \<Longrightarrow> b \<le> 0x9f"
    using assms(3) by (auto simp: ok3_def split: if_splits)
  have "scalar (4096 * (a - 0xe0) + 64 * (b - 0x80) + (c - 0x80))"
    unfolding scalar_def using assms b unfolding trail_def by (cases "a = 0xed"; cases "a < 0xed") auto
  moreover have "0x800 \<le> 4096 * (a - 0xe0) + 64 * (b - 0x80) + (c - 0x80)"
    using assms b unfolding trail_def by (cases "a = 0xe0") auto
  ultimately show ?thesis using utf8_three [of "a - 0xe0" "b - 0x80" "c - 0x80"] assms b unfolding trail_def by auto
qed

lemma utf8_of_four:
  assumes "0xf0 \<le> a" "a \<le> 0xf4" "ok4 a b" "trail c" "trail d"
  shows "scalar (262144 * (a - 0xf0) + 4096 * (b - 0x80) + 64 * (c - 0x80) + (d - 0x80)) \<and>
    utf8 (262144 * (a - 0xf0) + 4096 * (b - 0x80) + 64 * (c - 0x80) + (d - 0x80)) = [a, b, c, d]"
proof -
  have b: "0x80 \<le> b" "b \<le> 0xbf" "a = 0xf0 \<Longrightarrow> 0x90 \<le> b" "a = 0xf4 \<Longrightarrow> b \<le> 0x8f"
    using assms(3) by (auto simp: ok4_def split: if_splits)
  have "0x10000 \<le> 262144 * (a - 0xf0) + 4096 * (b - 0x80) + 64 * (c - 0x80) + (d - 0x80)"
    using assms b unfolding trail_def by (cases "a = 0xf0") auto
  moreover have "262144 * (a - 0xf0) + 4096 * (b - 0x80) + 64 * (c - 0x80) + (d - 0x80) \<le> 0x10FFFF"
    using assms b unfolding trail_def by (cases "a = 0xf4") auto
  ultimately show ?thesis using utf8_four [of "a - 0xf0" "b - 0x80" "c - 0x80" "d - 0x80"] assms b
    unfolding trail_def scalar_def by auto
qed

lemma utf8_of_one: "0 \<le> a \<Longrightarrow> a < 0x80 \<Longrightarrow> scalar a \<and> utf8 a = [a]"
  by (simp add: scalar_def utf8_def)

lemmas utf8_of = utf8_of_one utf8_of_two utf8_of_three utf8_of_four

lemma trail_80: "trail 0x80"
  by (simp add: trail_def)

lemma table_next_sound:
  assumes "table_next us = (Some c, n)" and "\<forall>u \<in> set us. 0 \<le> u"
  shows "scalar c \<and> take n us = utf8 c"
  using assms utf8_of
  by (auto simp: table_next_def split: list.splits if_splits)

lemma table_next_bound: "us \<noteq> [] \<Longrightarrow> table_next us = (r, n) \<Longrightarrow> 0 < n \<and> n \<le> length us"
  by (auto simp: table_next_def split: list.splits if_splits)

lemma partial_sequences:
  "0xe0 \<le> a \<Longrightarrow> a \<le> 0xef \<Longrightarrow> ok3 a b \<Longrightarrow> \<exists>c. scalar c \<and> strict_prefix [a, b] (utf8 c)"
  "0xf0 \<le> a \<Longrightarrow> a \<le> 0xf4 \<Longrightarrow> ok4 a b \<Longrightarrow> \<exists>c. scalar c \<and> strict_prefix [a, b] (utf8 c)"
  "0xf0 \<le> a \<Longrightarrow> a \<le> 0xf4 \<Longrightarrow> ok4 a b \<Longrightarrow> trail d \<Longrightarrow> \<exists>c. scalar c \<and> strict_prefix [a, b, d] (utf8 c)"
  using utf8_of_three [OF _ _ _ trail_80] utf8_of_four [OF _ _ _ _ trail_80] trail_80
  by (metis strict_prefixI' append_Cons append_Nil)+

lemma table_next_partial:
  assumes "table_next us = (None, n)" and "n \<noteq> 1" and "us \<noteq> []"
  shows "\<exists>c. scalar c \<and> strict_prefix (take n us) (utf8 c)"
  using assms partial_sequences
  by (auto simp: table_next_def split: list.splits if_splits)

lemma table_next_stuck:
  assumes "table_next us = (None, n)" and "n < length us"
  shows "fst (table_next (take (n + 1) us @ t)) = None"
  using assms by (auto simp: table_next_def split: list.splits if_splits)

text \<open>
  Reading UTF-8.  From any byte of any string, \<open>CBU8_NEXT\<close> either returns a Unicode scalar value and advances over
  exactly its encoding, or returns the sentinel when no well-formed sequence starts there; it then advances over one byte,
  or over the longest run of bytes that starts some well-formed sequence (a maximal subpart).
  It never reads or moves past the end.
\<close>

lemma CBU8_NEXT_maximal_subparts:
  assumes "i < length s"
  shows "case CBU8_NEXT s i (int (length s)) of (c, j) \<Rightarrow> i < j \<and> j \<le> length s \<and>
    (let us = map uint (drop i s); n = j - i
     in if c \<noteq> CBU_SENTINEL then scalar c \<and> take n us = utf8 c
        else (\<nexists>c. scalar c \<and> prefix (utf8 c) us) \<and>
             (n = 1 \<or> (\<exists>c. scalar c \<and> strict_prefix (take n us) (utf8 c))) \<and>
             (n = length us \<or> (\<nexists>c. scalar c \<and> prefix (take (n + 1) us) (utf8 c))))"
proof -
  let ?us = "map uint (drop i s) :: int list"
  obtain r n where t: "table_next ?us = (r, n)" by fastforce
  have ne: "?us \<noteq> []" and pos: "\<forall>u \<in> set ?us. 0 \<le> u" using assms by auto
  have n: "0 < n" "n \<le> length ?us" using table_next_bound [OF ne t] by auto
  show ?thesis
  proof (cases r)
    case None
    have "\<not> prefix (utf8 c) ?us" if "scalar c" for c
      using table_next_utf8 [OF that] t None by (auto simp: prefix_def)
    moreover have "n = 1 \<or> (\<exists>c. scalar c \<and> strict_prefix (take n ?us) (utf8 c))"
      using table_next_partial [of ?us n] t None ne by auto
    moreover have "\<not> prefix (take (n + 1) ?us) (utf8 c)" if "scalar c" "n < length ?us" for c
    proof
      assume "prefix (take (n + 1) ?us) (utf8 c)"
      then obtain u where "utf8 c = take (n + 1) ?us @ u" by (auto simp: prefix_def)
      then show False using table_next_stuck [of ?us n u] t None that table_next_utf8 [OF that(1), of "[]"] by simp
    qed
    moreover have "i + n \<le> length s" using n(2) assms by simp
    ultimately show ?thesis using n unfolding next_table [OF assms] t None
      by (auto simp: CBU_SENTINEL_def Let_def)
  next
    case (Some c)
    then have "scalar c \<and> take n ?us = utf8 c" using table_next_sound [of ?us c n] t pos by simp
    moreover from this have "c \<noteq> CBU_SENTINEL" by (auto simp: scalar_def CBU_SENTINEL_def)
    moreover have "i + n \<le> length s" using n(2) assms by simp
    ultimately show ?thesis using n unfolding next_table [OF assms] t Some by (simp add: Let_def)
  qed
qed

lemma CBU8_NEXT_maximal_subparts_example:
  "CBU8_NEXT [0x41, 0xe2, 0x82, 0x41] 1 4 = (- 1, 3) \<and> (\<nexists>c. scalar c \<and> prefix (utf8 c) [0xe2, 0x82, 0x41])"
proof -
  have "CBU8_NEXT [0x41, 0xe2, 0x82, 0x41] 1 4 = (- 1, 3)"
    by (simp add: CBU8_NEXT_def CBU8_IS_SINGLE_def CBU8_IS_VALID_LEAD3_AND_T1_def CBU8_LEAD3_T1_BITS_def safe_body_simps)
  then show ?thesis
    using CBU8_NEXT_maximal_subparts [of 1 "[0x41, 0xe2, 0x82, 0x41]"] by (simp add: CBU_SENTINEL_def Let_def)
qed

section \<open>Appending\<close>

lemma or_high:
  "0 \<le> x \<Longrightarrow> x < 64 \<Longrightarrow> x OR 0x80 = 0x80 + x" "0 \<le> x \<Longrightarrow> x < 64 \<Longrightarrow> x OR 0xc0 = 0xc0 + x"
  "0 \<le> x \<Longrightarrow> x < 32 \<Longrightarrow> x OR 0xe0 = 0xe0 + x" "0 \<le> x \<Longrightarrow> x < 16 \<Longrightarrow> x OR 0xf0 = 0xf0 + x"
  "0 \<le> x \<Longrightarrow> x < 1024 \<Longrightarrow> x OR 0xdc00 = 0xdc00 + x" for x :: int
  using or_add [of x 6 2] or_add [of x 6 3] or_add [of x 5 7] or_add [of x 4 15] or_add [of x 10 55]
  by (simp_all add: or.commute)

lemma uint_byte_of: "0 \<le> x \<Longrightarrow> x < 256 \<Longrightarrow> uint (word_of_int x :: byte) = x"
  by (simp add: unsigned_of_int take_bit_int_eq_self)

lemma uint_char16_of: "0 \<le> x \<Longrightarrow> x < 65536 \<Longrightarrow> uint (word_of_int x :: char16) = x"
  by (simp add: unsigned_of_int take_bit_int_eq_self)

lemma div_range: "0 < k \<Longrightarrow> k * (u div k) \<le> u \<and> u < k * (u div k) + k" for u k :: int
  using mult_div_mod_eq [of k u] pos_mod_bound [of k u] pos_mod_sign [of k u] by linarith

lemma div_eq_range: "0 < k \<Longrightarrow> u div k = q \<longleftrightarrow> k * q \<le> u \<and> u < k * q + k" for u k q :: int
  using div_range [of k u] int_div_pos_eq [of u k q "u - k * q"] by auto

lemma append_utf8:
  assumes "0 \<le> c" "c \<le> 0x10FFFF"
  shows "map uint (CBU8_APPEND_UNSAFE c) = utf8 c"
proof -
  have d: "drop_bit 6 c = c div 64" "drop_bit 12 c = c div 4096" "drop_bit 18 c = c div 262144" by (simp_all add: drop_bit_eq_div)
  consider "c < 0x80" | "0x80 \<le> c" "c < 0x800" | "0x800 \<le> c" "c < 0x10000" | "0x10000 \<le> c" by linarith
  then show ?thesis
  proof cases
    case 1
    then show ?thesis using assms by (simp add: CBU8_APPEND_UNSAFE_def utf8_def uint_byte_of)
  next
    case 2
    have "0 \<le> c div 64" "c div 64 < 32" using 2 div_range [of 64 c] by simp_all
    then show ?thesis using 2 by (simp add: CBU8_APPEND_UNSAFE_def utf8_def d and_masks or_high uint_byte_of del: of_int_add)
  next
    case 3
    have "0 \<le> c div 4096" "c div 4096 < 16" using 3 div_range [of 4096 c] by simp_all
    then show ?thesis using 3 by (simp add: CBU8_APPEND_UNSAFE_def utf8_def d and_masks or_high uint_byte_of del: of_int_add)
  next
    case 4
    have "0 \<le> c div 262144" "c div 262144 < 5" using 4 assms div_range [of 262144 c] by simp_all
    then show ?thesis using 4 by (simp add: CBU8_APPEND_UNSAFE_def utf8_def d and_masks or_high uint_byte_of del: of_int_add)
  qed
qed

lemma append_utf16:
  assumes "0 \<le> c" "c \<le> 0x10FFFF"
  shows "map uint (CBU16_APPEND_UNSAFE c) = utf16 c"
proof (cases "c < 0x10000")
  case True
  then show ?thesis using assms by (simp add: CBU16_APPEND_UNSAFE_def utf16_def uint_char16_of)
next
  case False
  have c: "0xd7c0 + c div 1024 = 0xD800 + (c - 0x10000) div 1024" "c mod 1024 = (c - 0x10000) mod 1024"
    using div_mult_self1 [of 1024 "c - 0x10000" 64] mod_mult_self1 [of "c - 0x10000" 64 1024] by simp_all
  moreover have "0 \<le> c div 1024" "c div 1024 < 0x440" using assms False div_range [of 1024 c] by simp_all
  ultimately show ?thesis using False
    by (simp add: CBU16_APPEND_UNSAFE_def utf16_def drop_bit_eq_div and_masks or_high uint_char16_of del: of_int_add)
qed

section \<open>UTF-16\<close>

lemma and_high: "0 \<le> u \<Longrightarrow> u < 2 ^ (m + n) \<Longrightarrow> u AND push_bit n (mask m) = 2 ^ n * (u div 2 ^ n)" for u :: int
proof -
  assume u: "0 \<le> u" "u < 2 ^ (m + n)"
  have "u AND push_bit n (mask m) = push_bit n (drop_bit n (take_bit (m + n) u))"
    by (rule bit_eqI) (auto simp: bit_simps)
  then show ?thesis using u by (simp add: take_bit_int_eq_self push_bit_eq_mult drop_bit_eq_div mult.commute)
qed

lemma surrogate_tests:
  assumes "0 \<le> u" "u < 0x10000"
  shows "CBU16_IS_LEAD u \<longleftrightarrow> 0xD800 \<le> u \<and> u < 0xDC00" and "CBU16_IS_TRAIL u \<longleftrightarrow> 0xDC00 \<le> u \<and> u < 0xE000"
    and "CBU_IS_SURROGATE u \<longleftrightarrow> 0xD800 \<le> u \<and> u < 0xE000"
    and "CBU_IS_SURROGATE u \<Longrightarrow> CBU16_IS_SURROGATE_LEAD u \<longleftrightarrow> u < 0xDC00"
proof -
  have a: "u AND 0xfffffc00 = 1024 * (u div 1024)" "u AND 0xfffff800 = 2048 * (u div 2048)"
    using and_high [of u 22 10] and_high [of u 21 11] assms by (simp_all add: mask_numeral)
  show "CBU16_IS_LEAD u \<longleftrightarrow> 0xD800 \<le> u \<and> u < 0xDC00" "CBU16_IS_TRAIL u \<longleftrightarrow> 0xDC00 \<le> u \<and> u < 0xE000"
    unfolding CBU16_IS_LEAD_def CBU16_IS_TRAIL_def a
    using div_eq_range [of 1024 u 54] div_eq_range [of 1024 u 55] by auto
  show s: "CBU_IS_SURROGATE u \<longleftrightarrow> 0xD800 \<le> u \<and> u < 0xE000"
    unfolding CBU_IS_SURROGATE_def a using div_eq_range [of 2048 u 27] by auto
  have "u AND 0x400 \<noteq> 0 \<longleftrightarrow> odd (u div 1024)" using and_push [of u 10] by (simp add: bit_iff_odd)
  then show "CBU_IS_SURROGATE u \<Longrightarrow> CBU16_IS_SURROGATE_LEAD u \<longleftrightarrow> u < 0xDC00"
    using s div_eq_range [of 1024 u 54] div_eq_range [of 1024 u 55] unfolding CBU16_IS_SURROGATE_LEAD_def
    by (cases "u < 0xDC00") auto
qed

lemma supplementary: "CBU16_GET_SUPPLEMENTARY u v = 0x10000 + 1024 * (u - 0xD800) + (v - 0xDC00)"
  by (simp add: CBU16_GET_SUPPLEMENTARY_def CBU16_SURROGATE_OFFSET_def push_bit_eq_mult)

end
