(* ===== verification/String_Ascii.thy ===== *)
theory String_Ascii
  imports Libchrome_Prelude
begin

unbundle bit_operations_syntax

text \<open>
  \<open>IsStringASCII\<close> (\<open>base/strings/string_util.cc\<close>): the characters are or-ed together, a machine word at a time
  where the address allows it, and the high bits are tested once at the end.

  The template is a definition over the size of a character, its conversion to a machine word, its bytes in
  memory and the mask; pointers are integers.  A machine word that is not wholly inside the string is not read:
  the result would be \<open>None\<close>.  The locale \<open>char_type\<close> is what the template needs of a character type;
  \<open>char\<close>, \<open>char16\<close> and \<open>wchar_t\<close> interpret it.
\<close>

section \<open>The template\<close>

definition IsAlignedToMachineWord :: "int \<Rightarrow> bool" where
  "IsAlignedToMachineWord pointer \<longleftrightarrow> pointer AND 7 = 0"

definition AlignToMachineWord :: "int \<Rightarrow> int" where
  "AlignToMachineWord pointer = pointer AND NOT 7"

primrec ascii_prologue :: "nat \<Rightarrow> ('c \<Rightarrow> u64) \<Rightarrow> 'c list \<Rightarrow> int \<Rightarrow> u64 \<Rightarrow> 'c list \<times> int \<times> u64" where
  "ascii_prologue sz val [] p bits = ([], p, bits)"
| "ascii_prologue sz val (c # cs) p bits =
     (if \<not> IsAlignedToMachineWord p then ascii_prologue sz val cs (p + int sz) (bits OR val c) else (c # cs, p, bits))"

function ascii_words ::
  "nat \<Rightarrow> ('c \<Rightarrow> byte list) \<Rightarrow> int \<Rightarrow> 'c list \<Rightarrow> int \<Rightarrow> u64 \<Rightarrow> ('c list \<times> u64) option" where
  "ascii_words sz enc word_end cs p bits =
     (let loop_increment = 8 div sz
      in if p < word_end then
           (if loop_increment = 0 \<or> length cs < loop_increment then None
            else ascii_words sz enc word_end (drop loop_increment cs) (p + int (sz * loop_increment))
                   (bits OR dec_u64 (concat (map enc (take loop_increment cs)))))
         else Some (cs, bits))"
  by pat_completeness auto
termination by (relation "measure (\<lambda>(sz, enc, word_end, cs, p, bits). length cs)") auto

declare ascii_words.simps [simp del]

definition DoIsStringASCII ::
  "nat \<Rightarrow> ('c \<Rightarrow> u64) \<Rightarrow> ('c \<Rightarrow> byte list) \<Rightarrow> u64 \<Rightarrow> int \<Rightarrow> 'c list \<Rightarrow> bool option" where
  "DoIsStringASCII sz val enc non_ascii_bit_mask characters cs =
     (let word_end = AlignToMachineWord (characters + int (sz * length cs))
      in case ascii_prologue sz val cs characters 0 of (cs1, p, bits1) \<Rightarrow>
         (case ascii_words sz enc word_end cs1 p bits1 of None \<Rightarrow> None | Some (cs2, bits2) \<Rightarrow>
            Some (fold (\<lambda>c bits. bits OR val c) cs2 bits2 AND non_ascii_bit_mask = 0)))"

text \<open>The instances: a \<open>char\<close> and a \<open>wchar_t\<close> are signed when they are converted to a machine word.\<close>

definition IsStringASCII_char :: "int \<Rightarrow> byte list \<Rightarrow> bool option" where
  "IsStringASCII_char = DoIsStringASCII 1 scast (\<lambda>c. [c]) 0x8080808080808080"

definition IsStringASCII_char16 :: "int \<Rightarrow> 16 word list \<Rightarrow> bool option" where
  "IsStringASCII_char16 = DoIsStringASCII 2 ucast (\<lambda>c. le_enc 2 (unat c)) 0xFF80FF80FF80FF80"

definition IsStringASCII_wchar :: "int \<Rightarrow> u32 list \<Rightarrow> bool option" where
  "IsStringASCII_wchar = DoIsStringASCII 4 scast enc_u32 0xFFFFFF80FFFFFF80"

section \<open>A character type\<close>

locale char_type =
  fixes sz :: nat and val :: "'c \<Rightarrow> u64" and enc :: "'c \<Rightarrow> byte list" and msk :: u64 and ascii :: "'c \<Rightarrow> bool"
  assumes sz: "0 < sz" "sz dvd 8"
    and val: "val c AND msk = 0 \<longleftrightarrow> ascii c"
    and word: "length cs = 8 div sz \<Longrightarrow> dec_u64 (concat (map enc cs)) AND msk = 0 \<longleftrightarrow> (\<forall>c \<in> set cs. ascii c)"
begin

lemma or_mask: "(x OR y) AND msk = 0 \<longleftrightarrow> x AND msk = 0 \<and> y AND msk = 0"
  by (auto simp: bit_eq_iff bit_simps)

lemma rest: "fold (\<lambda>c bits. bits OR val c) cs bits AND msk = 0 \<longleftrightarrow> bits AND msk = 0 \<and> (\<forall>c \<in> set cs. ascii c)"
  by (induction cs arbitrary: bits) (auto simp: or_mask val)

lemma prologue:
  "ascii_prologue sz val cs p bits = (cs', p', bits') \<Longrightarrow>
   \<exists>pre. cs = pre @ cs' \<and> p' = p + int (sz * length pre) \<and> (cs' = [] \<or> p' AND 7 = 0) \<and>
     (bits' AND msk = 0 \<longleftrightarrow> bits AND msk = 0 \<and> (\<forall>c \<in> set pre. ascii c))"
proof (induction cs arbitrary: p bits)
  case (Cons c cs)
  show ?case
  proof (cases "IsAlignedToMachineWord p")
    case True
    then show ?thesis using Cons.prems by (auto simp: IsAlignedToMachineWord_def)
  next
    case False
    then obtain pre where "cs = pre @ cs'" "p' = p + int sz + int (sz * length pre)" "cs' = [] \<or> p' AND 7 = 0"
      "bits' AND msk = 0 \<longleftrightarrow> (bits OR val c) AND msk = 0 \<and> (\<forall>c \<in> set pre. ascii c)"
      using Cons.IH [of "p + int sz" "bits OR val c"] Cons.prems by auto
    then show ?thesis by (intro exI [of _ "c # pre"]) (auto simp: or_mask val algebra_simps)
  qed
qed simp

lemma words:
  "8 dvd p \<Longrightarrow> 8 dvd word_end \<Longrightarrow> word_end \<le> p + int (sz * length cs) \<Longrightarrow>
   \<exists>cs' bits'. ascii_words sz enc word_end cs p bits = Some (cs', bits') \<and>
     (bits' AND msk = 0 \<and> (\<forall>c \<in> set cs'. ascii c) \<longleftrightarrow> bits AND msk = 0 \<and> (\<forall>c \<in> set cs. ascii c))"
proof (induction cs arbitrary: p bits rule: measure_induct_rule [of length])
  case (less cs)
  let ?k = "8 div sz"
  have k: "sz * ?k = 8" "0 < ?k" using sz by (auto simp: div_greater_zero_iff dest: dvd_imp_le)
  show ?case
  proof (cases "p < word_end")
    case True
    then have "p + 8 \<le> word_end" using less.prems by (auto simp: dvd_def)
    then have "8 \<le> sz * length cs" using less.prems by linarith
    then have l: "?k \<le> length cs" using k by (metis mult_le_cancel1 sz(1))
    let ?cs = "drop ?k cs" and ?b = "bits OR dec_u64 (concat (map enc (take ?k cs)))"
    have "sz * length cs = 8 + sz * length ?cs" using \<open>8 \<le> sz * length cs\<close> k by (simp add: diff_mult_distrib2)
    then have "word_end \<le> p + 8 + int (sz * length ?cs)" "8 dvd p + 8" "length ?cs < length cs"
      using less.prems k(2) l by auto
    then obtain cs' bits' where r: "ascii_words sz enc word_end ?cs (p + 8) ?b = Some (cs', bits')"
      "bits' AND msk = 0 \<and> (\<forall>c \<in> set cs'. ascii c) \<longleftrightarrow> ?b AND msk = 0 \<and> (\<forall>c \<in> set ?cs. ascii c)"
      using less.IH [of ?cs "p + 8" ?b] less.prems(2) by blast
    have "set cs = set (take ?k cs) \<union> set ?cs" by (metis append_take_drop_id set_append)
    then have "?b AND msk = 0 \<and> (\<forall>c \<in> set ?cs. ascii c) \<longleftrightarrow> bits AND msk = 0 \<and> (\<forall>c \<in> set cs. ascii c)"
      using word [of "take ?k cs"] l by (auto simp: or_mask)
    moreover have "ascii_words sz enc word_end cs p bits = ascii_words sz enc word_end ?cs (p + 8) ?b"
      using True l k by (subst ascii_words.simps) (simp add: Let_def flip: of_nat_mult)
    ultimately show ?thesis using r by auto
  next
    case False
    then show ?thesis by (subst ascii_words.simps) simp
  qed
qed

lemma align: "8 dvd AlignToMachineWord p \<and> AlignToMachineWord p \<le> p" and aligned: "p AND 7 = 0 \<longleftrightarrow> 8 dvd p"
proof -
  have m: "(7 :: int) = mask 3" by (simp add: mask_numeral)
  have "p AND 7 = p mod 8" unfolding m by (simp add: take_bit_eq_mask [symmetric] take_bit_eq_mod)
  then show "p AND 7 = 0 \<longleftrightarrow> 8 dvd p" by (simp add: dvd_eq_mod_eq_0)
  have "p AND NOT 7 = push_bit 3 (drop_bit 3 p)" unfolding m by (rule bit_eqI) (auto simp: bit_simps)
  then have "AlignToMachineWord p = 8 * (p div 8)"
    by (simp add: AlignToMachineWord_def push_bit_eq_mult drop_bit_eq_div mult.commute)
  then show "8 dvd AlignToMachineWord p \<and> AlignToMachineWord p \<le> p"
    using mult_div_mod_eq [of 8 p] pos_mod_sign [of 8 p] by simp
qed

lemma DoIsStringASCII_iff:
  "DoIsStringASCII sz val enc msk p cs = Some (\<forall>c \<in> set cs. ascii c)"
proof -
  let ?e = "p + int (sz * length cs)"
  obtain cs1 p1 b1 where pro: "ascii_prologue sz val cs p 0 = (cs1, p1, b1)" by (metis prod_cases3)
  obtain pre where pre: "cs = pre @ cs1" "p1 = p + int (sz * length pre)" "cs1 = [] \<or> p1 AND 7 = 0"
    "b1 AND msk = 0 \<longleftrightarrow> (\<forall>c \<in> set pre. ascii c)"
    using prologue [OF pro] by auto
  have e: "?e = p1 + int (sz * length cs1)" using pre by (simp add: algebra_simps)
  obtain cs2 b2 where w: "ascii_words sz enc (AlignToMachineWord ?e) cs1 p1 b1 = Some (cs2, b2)"
    "b2 AND msk = 0 \<and> (\<forall>c \<in> set cs2. ascii c) \<longleftrightarrow> b1 AND msk = 0 \<and> (\<forall>c \<in> set cs1. ascii c)"
  proof (cases "8 dvd p1")
    case True
    then show ?thesis using words [OF True, of "AlignToMachineWord ?e" cs1 b1] align [of ?e] e that by auto
  next
    case False
    then have "cs1 = []" using pre(3) aligned by auto
    then have "ascii_words sz enc (AlignToMachineWord ?e) cs1 p1 b1 = Some (cs1, b1)"
      using align [of ?e] e by (subst ascii_words.simps) simp
    then show ?thesis using that by blast
  qed
  show ?thesis unfolding DoIsStringASCII_def Let_def pro prod.case w(1) option.case rest w(2) using pre by auto
qed

end

section \<open>Machine words and their bytes\<close>

lemma bit_le_dec: "bit (le_dec bs) n \<longleftrightarrow> n < 8 * length bs \<and> bit (bs ! (n div 8)) (n mod 8)"
proof (induction bs arbitrary: n)
  case (Cons b bs)
  have b: "take_bit 8 (unat b) = unat b" using unsigned_less [of b, where ?'a = nat] by (simp add: take_bit_nat_eq_self)
  have "unat b + push_bit 8 (le_dec bs) = unat b OR push_bit 8 (le_dec bs)"
    by (rule disjunctive_add) (use b in \<open>metis bit_push_bit_iff bit_take_bit_iff not_le\<close>)
  then have d: "le_dec (b # bs) = unat b OR push_bit 8 (le_dec bs)" by (simp add: push_bit_eq_mult mult.commute)
  show ?case
  proof (cases "n < 8")
    case True
    then show ?thesis unfolding d by (simp add: bit_simps)
  next
    case False
    then obtain m where n: "n = m + 8" by (metis add.commute le_Suc_ex not_le)
    have "\<not> bit (unat b) n" using b False by (metis bit_take_bit_iff)
    moreover have "(m + 8) div 8 = Suc (m div 8)" by simp
    ultimately show ?thesis unfolding d n using Cons.IH [of m] by (simp add: bit_simps del: div_add_self2)
  qed
qed simp

lemma bit_dec_u64: "length bs = 8 \<Longrightarrow> bit (dec_u64 bs) n \<longleftrightarrow> n < 64 \<and> bit (bs ! (n div 8)) (n mod 8)"
  by (simp add: dec_u64_def bit_simps bit_le_dec)

lemma and_dec_u64:
  assumes "length bs = 8" "length ms = 8"
  shows "dec_u64 bs AND dec_u64 ms = 0 \<longleftrightarrow> (\<forall>j < 8. bs ! j AND ms ! j = 0)"
proof -
  have "dec_u64 bs AND dec_u64 ms = 0 \<longleftrightarrow> (\<forall>n < 64. \<not> (bit (bs ! (n div 8)) (n mod 8) \<and> bit (ms ! (n div 8)) (n mod 8)))"
    using assms by (auto simp: bit_eq_iff bit_simps bit_dec_u64)
  also have "\<dots> \<longleftrightarrow> (\<forall>j < 8. \<forall>k < 8. \<not> (bit (bs ! j) k \<and> bit (ms ! j) k))"
  proof (intro iffI allI impI)
    fix j k :: nat assume *: "\<forall>n < 64. \<not> (bit (bs ! (n div 8)) (n mod 8) \<and> bit (ms ! (n div 8)) (n mod 8))" "j < 8" "k < 8"
    then show "\<not> (bit (bs ! j) k \<and> bit (ms ! j) k)" using spec [OF *(1), of "8 * j + k"] by simp
  qed simp
  also have "\<dots> \<longleftrightarrow> (\<forall>j < 8. bs ! j AND ms ! j = 0)" by (auto simp: bit_eq_iff bit_simps)
  finally show ?thesis .
qed

lemma all_less_8: "(\<forall>j < 8. P j) \<longleftrightarrow> P 0 \<and> P 1 \<and> P 2 \<and> P 3 \<and> P 4 \<and> P 5 \<and> P 6 \<and> P (7 :: nat)"
proof -
  have "j < 8 \<longleftrightarrow> j = 0 \<or> j = 1 \<or> j = 2 \<or> j = 3 \<or> j = 4 \<or> j = 5 \<or> j = 6 \<or> j = 7" for j :: nat by arith
  then show ?thesis by (simp only:) blast
qed

lemma high_bits: "c AND NOT (mask 7) = 0 \<longleftrightarrow> unat c < 128" for c :: "'a::len word"
proof -
  have "c AND NOT (mask 7) = 0 \<longleftrightarrow> take_bit 7 c = c" by (auto simp: bit_eq_iff bit_simps)
  also have "\<dots> \<longleftrightarrow> take_bit 7 (unat c) = unat c" by (simp add: word_unat_eq_iff unsigned_take_bit_eq)
  also have "\<dots> \<longleftrightarrow> unat c < 128" by (simp add: take_bit_nat_eq_self_iff)
  finally show ?thesis .
qed

lemma high_masks: "NOT (mask 7) = (0x80 :: byte)" "NOT (mask 7) = (0xFF80 :: 16 word)" "NOT (mask 7) = (0xFFFFFF80 :: u32)"
  by (simp_all add: mask_numeral word_eq_iff_unsigned)

lemmas high_bit8 = high_bits [where ?'a = 8, unfolded high_masks]
lemmas high_bit16 = high_bits [where ?'a = 16, unfolded high_masks]
lemmas high_bit32 = high_bits [where ?'a = 32, unfolded high_masks]

lemma ucast_and: "ucast c AND m = (0 :: u64) \<longleftrightarrow> c AND ucast m = 0" if "LENGTH('a) \<le> 64" for c :: "'a::len word"
  using that by (auto simp: bit_eq_iff bit_simps dest: bit_imp_le_length)

lemma scast_and:
  fixes c :: "'a::len word"
  assumes l: "7 < LENGTH('a)" "LENGTH('a) \<le> 64" and m: "(ucast m :: 'a word) = NOT (mask 7)"
  shows "scast c AND m = (0 :: u64) \<longleftrightarrow> c AND ucast m = 0"
proof
  assume "scast c AND m = (0 :: u64)"
  then have "\<not> (bit (scast c :: u64) n \<and> bit m n)" for n by (metis bit_and_iff bit_0_eq bot_apply bot_bool_def)
  moreover have "bit (scast c :: u64) n = bit c n" if "n < LENGTH('a)" for n
    using that l by (cases "n = LENGTH('a) - 1") (auto simp: bit_simps min_def)
  ultimately have "\<not> (bit c n \<and> bit m n)" if "n < LENGTH('a)" for n using that by metis
  then show "c AND ucast m = 0" by (auto simp: bit_eq_iff bit_simps)
next
  assume z: "c AND ucast m = 0"
  then have "\<not> bit c n" if "7 \<le> n" for n
    using that unfolding m by (auto simp: bit_eq_iff bit_simps dest: bit_imp_le_length)
  then have "scast c = (ucast c :: u64)"
    using l by (intro bit_word_eqI) (auto simp: bit_simps min_def)
  then show "scast c AND m = (0 :: u64)" using z l by (simp add: ucast_and)
qed

lemma list_of_eight: "length xs = 8 \<Longrightarrow> \<exists>a b c d e f g h. xs = [a, b, c, d, e, f, g, h]"
  by (auto simp: numeral_eq_Suc length_Suc_conv)

lemma four_elements: "length xs = 4 \<Longrightarrow> \<exists>a b c d. xs = [a, b, c, d]"
  by (auto simp: numeral_eq_Suc length_Suc_conv)

lemma list_of_two: "length xs = 2 \<Longrightarrow> \<exists>a b. xs = [a, b]"
  by (auto simp: numeral_eq_Suc length_Suc_conv)

section \<open>The character types\<close>

lemma dec_masks:
  "dec_u64 [0x80, 0x80, 0x80, 0x80, 0x80, 0x80, 0x80, 0x80] = 0x8080808080808080"
  "dec_u64 [0x80, 0xFF, 0x80, 0xFF, 0x80, 0xFF, 0x80, 0xFF] = 0xFF80FF80FF80FF80"
  "dec_u64 [0x80, 0xFF, 0xFF, 0xFF, 0x80, 0xFF, 0xFF, 0xFF] = 0xFFFFFF80FFFFFF80"
  by (simp_all add: dec_u64_def)


lemma casts_of_masks:
  "ucast (0x8080808080808080 :: u64) = (0x80 :: byte)" "ucast (0xFF80FF80FF80FF80 :: u64) = (0xFF80 :: 16 word)"
  "ucast (0xFFFFFF80FFFFFF80 :: u64) = (0xFFFFFF80 :: u32)"
  by simp_all

lemma byte_tests:
  "word_of_nat n AND 0x80 = (0 :: byte) \<longleftrightarrow> n mod 256 < 128" "word_of_nat n AND 0xFF = (0 :: byte) \<longleftrightarrow> n mod 256 = 0"
proof -
  have "(0xFF :: byte) = mask 8" by (simp add: mask_numeral)
  then have "x AND 0xFF = x" for x :: byte
    using take_bit_length_eq [of x] by (simp add: take_bit_eq_mask)
  then show "word_of_nat n AND 0xFF = (0 :: byte) \<longleftrightarrow> n mod 256 = 0" by (simp add: word_unat_eq_iff unat_of_nat)
  show "word_of_nat n AND 0x80 = (0 :: byte) \<longleftrightarrow> n mod 256 < 128" by (simp add: high_bit8 unat_of_nat)
qed

lemma ascii_bytes16: "n < 65536 \<Longrightarrow> n mod 256 < 128 \<and> n div 256 mod 256 = 0 \<longleftrightarrow> n < 128" for n :: nat
  by (auto simp: div_eq_0_iff)

interpretation ct8: char_type 1 scast "\<lambda>c. [c]" "0x8080808080808080" "\<lambda>c :: byte. unat c < 128"
proof
  fix c :: byte
  show "(scast c AND (0x8080808080808080 :: u64) = 0) = (unat c < 128)"
    by (subst scast_and) (simp_all only: casts_of_masks high_masks high_bit8, simp_all)
next
  fix cs :: "byte list"
  assume "length cs = 8 div 1"
  then obtain a b c d e f g h where cs: "cs = [a, b, c, d, e, f, g, h]" using list_of_eight [of cs] by auto
  show "(dec_u64 (concat (map (\<lambda>c. [c]) cs)) AND 0x8080808080808080 = 0) = (\<forall>c \<in> set cs. unat c < 128)"
    unfolding dec_masks [symmetric] cs by (subst and_dec_u64) (simp_all add: all_less_8 high_bit8)
qed simp_all

interpretation ct16: char_type 2 ucast "\<lambda>c. le_enc 2 (unat c)" "0xFF80FF80FF80FF80" "\<lambda>c :: 16 word. unat c < 128"
proof
  fix c :: "16 word"
  show "(ucast c AND (0xFF80FF80FF80FF80 :: u64) = 0) = (unat c < 128)"
    by (subst ucast_and) (simp_all only: casts_of_masks high_bit16, simp_all)
next
  fix cs :: "16 word list"
  assume "length cs = 8 div 2"
  then obtain a b c d where cs: "cs = [a, b, c, d]" using four_elements [of cs] by auto
  have t: "unat w mod 256 < 128 \<and> unat w div 256 mod 256 = 0 \<longleftrightarrow> unat w < 128" for w :: "16 word"
    using ascii_bytes16 [of "unat w"] unsigned_less [of w, where ?'a = nat] by simp
  show "(dec_u64 (concat (map (\<lambda>c. le_enc 2 (unat c)) cs)) AND 0xFF80FF80FF80FF80 = 0) = (\<forall>c \<in> set cs. unat c < 128)"
    unfolding dec_masks [symmetric] cs
    by (subst and_dec_u64) (use t [of a] t [of b] t [of c] t [of d] in \<open>auto simp: all_less_8 byte_tests numeral_2_eq_2\<close>)
qed (simp_all add: dvd_def)

lemma ascii_bytes32:
  "n < 2 ^ 32 \<Longrightarrow> n mod 256 < 128 \<and> n div 256 mod 256 = 0 \<and> n div 256 div 256 mod 256 = 0 \<and>
     n div 256 div 256 div 256 mod 256 = 0 \<longleftrightarrow> n < 128" for n :: nat
proof -
  assume n: "n < 2 ^ 32"
  let ?a = "n div 256" and ?b = "n div 256 div 256" and ?c = "n div 256 div 256 div 256"
  have "?c = n div (256 * 256 * 256)" by (simp only: div_mult2_eq)
  then have c: "?c mod 256 = ?c" using n by (simp add: less_mult_imp_div_less)
  have "n = 256 * ?a + n mod 256" "?a = 256 * ?b + ?a mod 256" "?b = 256 * ?c + ?b mod 256" by simp_all
  then have "n < 128" if "n mod 256 < 128" "?a mod 256 = 0" "?b mod 256 = 0" "?c = 0" using that by linarith
  moreover have "?a = 0" "n mod 256 = n" if "n < 128" using that by simp_all
  ultimately show ?thesis unfolding c by (metis div_0 mod_0)
qed

lemma le_enc_4: "le_enc 4 n = [word_of_nat (n mod 256), word_of_nat (n div 256 mod 256),
    word_of_nat (n div 256 div 256 mod 256), word_of_nat (n div 256 div 256 div 256 mod 256)]"
proof -
  have "4 = Suc (Suc (Suc (Suc 0)))" by simp
  then show ?thesis by (simp only: le_enc.simps)
qed

interpretation ct32: char_type 4 scast enc_u32 "0xFFFFFF80FFFFFF80" "\<lambda>c :: u32. unat c < 128"
proof
  fix c :: u32
  show "(scast c AND (0xFFFFFF80FFFFFF80 :: u64) = 0) = (unat c < 128)"
    by (subst scast_and) (simp_all only: casts_of_masks high_masks high_bit32, simp_all)
next
  fix cs :: "u32 list"
  assume "length cs = 8 div 4"
  then obtain a b where cs: "cs = [a, b]" using list_of_two [of cs] by auto
  have t: "unat w mod 256 < 128 \<and> unat w div 256 mod 256 = 0 \<and> unat w div 256 div 256 mod 256 = 0 \<and>
      unat w div 256 div 256 div 256 mod 256 = 0 \<longleftrightarrow> unat w < 128" for w :: u32
    using ascii_bytes32 [of "unat w"] unsigned_less [of w, where ?'a = nat] by simp
  show "(dec_u64 (concat (map enc_u32 cs)) AND 0xFFFFFF80FFFFFF80 = 0) = (\<forall>c \<in> set cs. unat c < 128)"
    unfolding dec_masks [symmetric] cs
    by (subst and_dec_u64) (use t [of a] t [of b] in \<open>auto simp: all_less_8 byte_tests enc_u32_def le_enc_4\<close>)
qed (simp_all add: dvd_def)

text \<open>
  C31: \<open>IsStringASCII\<close> for each character type, at any address: it reads no machine word that is not inside the
  string, and the word-at-a-time test gives the same answer as testing every character.
\<close>

theorem IsStringASCII_tests_every_character:
  "IsStringASCII_char p s = Some (list_all (\<lambda>c. unat c < 128) s) \<and>
   IsStringASCII_char16 p s' = Some (list_all (\<lambda>c. unat c < 128) s') \<and>
   IsStringASCII_wchar p s'' = Some (list_all (\<lambda>c. unat c < 128) s'')"
  unfolding IsStringASCII_char_def IsStringASCII_char16_def IsStringASCII_wchar_def list_all_iff
  by (intro conjI ct8.DoIsStringASCII_iff ct16.DoIsStringASCII_iff ct32.DoIsStringASCII_iff)

end
