(* ===== verification/Utf_Conversions.thy ===== *)
theory Utf_Conversions
  imports Utf_Encoding String_Ascii
begin

unbundle bit_operations_syntax

text \<open>
  Conversions between UTF-8, UTF-16 and UTF-32 strings (\<open>base/strings/utf_string_conversions.cc\<close> and
  \<open>utf_string_conversion_utils.h\<close> and \<open>.cc\<close>), for a \<open>wchar_t\<close> of 32 bits.

  A destination is a buffer with the number of code units written; writing behind its end, or counting past the
  largest \<open>int32_t\<close>, gives \<open>None\<close>.  The overloads of \<open>UnicodeAppendUnsafe\<close> are arguments of the loops.
  The locale \<open>utf_writer\<close> is what the loops need of an overload; the three overloads interpret it.
\<close>

section \<open>utf\_string\_conversion\_utils\<close>

definition IsValidCodepoint :: "u32 \<Rightarrow> bool" where
  "IsValidCodepoint code_point \<longleftrightarrow> code_point < 0xD800 \<or> (0xE000 \<le> code_point \<and> code_point \<le> 0x10FFFF)"

definition IsValidCharacter :: "u32 \<Rightarrow> bool" where
  "IsValidCharacter code_point \<longleftrightarrow>
     code_point < 0xD800 \<or> (0xE000 \<le> code_point \<and> code_point < 0xFDD0) \<or>
     (0xFDEF < code_point \<and> code_point \<le> 0x10FFFF \<and> code_point AND 0xFFFE \<noteq> 0xFFFE)"

text \<open>The readers return the result, the index of the last code unit read and the code point.\<close>

definition ReadUnicodeCharacter_char :: "byte list \<Rightarrow> int \<Rightarrow> nat \<Rightarrow> bool \<times> nat \<times> u32" where
  "ReadUnicodeCharacter_char src src_len char_index =
     (case CBU8_NEXT src char_index src_len of (code_point, i) \<Rightarrow>
        (IsValidCodepoint (word_of_int code_point), i - 1, word_of_int code_point))"

definition ReadUnicodeCharacter_char16 :: "char16 list \<Rightarrow> int \<Rightarrow> nat \<Rightarrow> u32 \<Rightarrow> bool \<times> nat \<times> u32" where
  "ReadUnicodeCharacter_char16 src src_len char_index code_point =
     (let u = uint (src ! char_index)
      in if CBU_IS_SURROGATE u then
           (if \<not> CBU16_IS_SURROGATE_LEAD u \<or> src_len \<le> int char_index + 1 \<or> \<not> CBU16_IS_TRAIL (uint (src ! (char_index + 1)))
            then (False, char_index, code_point)
            else (let cp = word_of_int (CBU16_GET_SUPPLEMENTARY u (uint (src ! (char_index + 1))))
                  in (IsValidCodepoint cp, char_index + 1, cp)))
         else (IsValidCodepoint (word_of_int u), char_index, word_of_int u))"

definition ReadUnicodeCharacter_wchar :: "u32 list \<Rightarrow> nat \<Rightarrow> bool \<times> nat \<times> u32" where
  "ReadUnicodeCharacter_wchar src char_index = (IsValidCodepoint (src ! char_index), char_index, src ! char_index)"

text \<open>The writers return the number of code units and the new string.\<close>

definition put :: "'d list \<Rightarrow> 'd list \<times> nat \<Rightarrow> ('d list \<times> nat) option" where
  "put us dest = (case dest of (out, n) \<Rightarrow>
     if n + length us \<le> length out \<and> n + length us < 2 ^ 31
     then Some (take n out @ us @ drop (n + length us) out, n + length us) else None)"

definition string_resize :: "nat \<Rightarrow> 'w::len word list \<Rightarrow> 'w word list" where
  "string_resize n s = take n s @ replicate (n - length s) 0"

definition WriteUnicodeCharacter_char :: "u32 \<Rightarrow> byte list \<Rightarrow> (nat \<times> byte list) option" where
  "WriteUnicodeCharacter_char code_point output =
     (if code_point \<le> 0x7f then Some (1, output @ [ucast code_point])
      else (case put (CBU8_APPEND_UNSAFE (uint code_point)) (string_resize (length output + 4) output, length output) of
              None \<Rightarrow> None
            | Some (out, char_offset) \<Rightarrow> Some (char_offset - length output, string_resize char_offset out)))"

definition WriteUnicodeCharacter_char16 :: "u32 \<Rightarrow> char16 list \<Rightarrow> (nat \<times> char16 list) option" where
  "WriteUnicodeCharacter_char16 code_point output =
     (if CBU16_LENGTH (uint code_point) = 1 then Some (1, output @ [ucast code_point])
      else (case put (CBU16_APPEND_UNSAFE (uint code_point)) (string_resize (length output + 2) output, length output) of
              None \<Rightarrow> None
            | Some (out, char_offset) \<Rightarrow> Some (2, out)))"

definition WriteUnicodeCharacter_wchar :: "u32 \<Rightarrow> u32 list \<Rightarrow> nat \<times> u32 list" where
  "WriteUnicodeCharacter_wchar code_point output = (1, output @ [code_point])"

section \<open>utf\_string\_conversions\<close>

definition kErrorCodePoint :: u32 where
  "kErrorCodePoint = 0xFFFD"

definition SizeCoefficient_char16_char :: nat where
  "SizeCoefficient_char16_char = 3"

definition SizeCoefficient_wchar_char :: nat where
  "SizeCoefficient_wchar_char = 4"

definition SizeCoefficient_wchar_char16 :: nat where
  "SizeCoefficient_wchar_char16 = 2"

definition SizeCoefficient_default :: nat where
  "SizeCoefficient_default = 1"

definition UnicodeAppendUnsafe_char :: "u32 \<Rightarrow> byte list \<times> nat \<Rightarrow> (byte list \<times> nat) option" where
  "UnicodeAppendUnsafe_char code_point = put (CBU8_APPEND_UNSAFE (uint code_point))"

definition UnicodeAppendUnsafe_char16 :: "u32 \<Rightarrow> char16 list \<times> nat \<Rightarrow> (char16 list \<times> nat) option" where
  "UnicodeAppendUnsafe_char16 code_point = put (CBU16_APPEND_UNSAFE (uint code_point))"

definition UnicodeAppendUnsafe_wchar :: "u32 \<Rightarrow> u32 list \<times> nat \<Rightarrow> (u32 list \<times> nat) option" where
  "UnicodeAppendUnsafe_wchar code_point = put [code_point]"

lemma CBU8_NEXT_progress: "CBU8_NEXT s i len = (c, j) \<Longrightarrow> i < j"
  unfolding CBU8_NEXT_def safe_body_simps by (auto split: if_splits)

text \<open>The loops of \<open>DoUTFConversion\<close>, from index \<open>i\<close> with the result so far.\<close>

type_synonym 'd writer = "u32 \<Rightarrow> 'd list \<times> nat \<Rightarrow> ('d list \<times> nat) option"

function DoUTFConversion_char ::
  "'d writer \<Rightarrow> byte list \<Rightarrow> int \<Rightarrow> nat \<Rightarrow> bool \<Rightarrow> 'd list \<times> nat \<Rightarrow> (bool \<times> 'd list \<times> nat) option" where
  "DoUTFConversion_char app src src_len i success dest =
     (if int i < src_len then
        (case CBU8_NEXT src i src_len of (code_point, j) \<Rightarrow>
           let ok = IsValidCodepoint (word_of_int code_point)
           in (case app (if ok then word_of_int code_point else kErrorCodePoint) dest of
                 None \<Rightarrow> None
               | Some dest \<Rightarrow> DoUTFConversion_char app src src_len j (success \<and> ok) dest))
      else Some (success, dest))"
  by pat_completeness auto
termination
  by (relation "measure (\<lambda>(app, src, src_len, i, success, dest). nat (src_len - int i))")
     (auto dest!: CBU8_NEXT_progress [OF sym])

declare DoUTFConversion_char.simps [simp del]

definition ConvertSingleChar :: "char16 \<Rightarrow> u32 \<times> bool" where
  "ConvertSingleChar u =
     (if \<not> CBU16_IS_SINGLE (uint u) \<or> \<not> IsValidCodepoint (ucast u) then (kErrorCodePoint, False) else (ucast u, True))"

definition utf16_step :: "char16 list \<Rightarrow> nat \<Rightarrow> (u32 \<times> bool) \<times> nat" where
  "utf16_step src i =
     (if CBU16_IS_LEAD (uint (src ! i)) \<and> CBU16_IS_TRAIL (uint (src ! (i + 1))) then
        (let code_point = word_of_int (CBU16_GET_SUPPLEMENTARY (uint (src ! i)) (uint (src ! (i + 1))))
         in ((if IsValidCodepoint code_point then (code_point, True) else (kErrorCodePoint, False)), i + 2))
      else (ConvertSingleChar (src ! i), i + 1))"

lemma utf16_step_progress: "i < snd (utf16_step src i)"
  by (simp add: utf16_step_def Let_def)

function DoUTFConversion_char16 ::
  "'d writer \<Rightarrow> char16 list \<Rightarrow> int \<Rightarrow> nat \<Rightarrow> bool \<Rightarrow> 'd list \<times> nat \<Rightarrow> (bool \<times> 'd list \<times> nat) option" where
  "DoUTFConversion_char16 app src src_len i success dest =
     (if int i < src_len - 1 then
        (case app (fst (fst (utf16_step src i))) dest of
           None \<Rightarrow> None
         | Some dest \<Rightarrow> DoUTFConversion_char16 app src src_len (snd (utf16_step src i)) (success \<and> snd (fst (utf16_step src i))) dest)
      else if int i < src_len then
        (case app (fst (ConvertSingleChar (src ! i))) dest of
           None \<Rightarrow> None
         | Some dest \<Rightarrow> Some (success \<and> snd (ConvertSingleChar (src ! i)), dest))
      else Some (success, dest))"
  by pat_completeness auto
termination
proof (relation "measure (\<lambda>(app, src, src_len, i, success, dest). nat (src_len - int i))")
  fix src :: "char16 list" and src_len :: int and i :: nat and app :: "'d writer" and success dest dest'
  assume "int i < src_len - 1"
  then show "((app, src, src_len, snd (utf16_step src i), success \<and> snd (fst (utf16_step src i)), dest'),
      app, src, src_len, i, success, dest) \<in> measure (\<lambda>(app, src, src_len, i, success, dest). nat (src_len - int i))"
    using utf16_step_progress [of i src] by simp
qed simp

declare DoUTFConversion_char16.simps [simp del]

function DoUTFConversion_wchar ::
  "'d writer \<Rightarrow> u32 list \<Rightarrow> int \<Rightarrow> nat \<Rightarrow> bool \<Rightarrow> 'd list \<times> nat \<Rightarrow> (bool \<times> 'd list \<times> nat) option" where
  "DoUTFConversion_wchar app src src_len i success dest =
     (if int i < src_len then
        (let ok = IsValidCodepoint (src ! i)
         in (case app (if ok then src ! i else kErrorCodePoint) dest of
               None \<Rightarrow> None
             | Some dest \<Rightarrow> DoUTFConversion_wchar app src src_len (i + 1) (success \<and> ok) dest))
      else Some (success, dest))"
  by pat_completeness auto
termination
  by (relation "measure (\<lambda>(app, src, src_len, i, success, dest). nat (src_len - int i))") auto

declare DoUTFConversion_wchar.simps [simp del]

definition UTFConversion ::
  "bool option \<Rightarrow> ('s list \<Rightarrow> int \<Rightarrow> nat \<Rightarrow> bool \<Rightarrow> 'd::len word list \<times> nat \<Rightarrow> (bool \<times> 'd word list \<times> nat) option) \<Rightarrow>
   nat \<Rightarrow> ('s \<Rightarrow> 'd word) \<Rightarrow> 's list \<Rightarrow> (bool \<times> 'd word list) option" where
  "UTFConversion ascii DoUTFConversion coefficient assign src_str =
     (case ascii of None \<Rightarrow> None | Some True \<Rightarrow> Some (True, map assign src_str)
      | Some False \<Rightarrow>
          (let dest = replicate (length src_str * coefficient) 0;
               src_len32 = sint (of_nat (length src_str) :: u32)
           in (case DoUTFConversion src_str src_len32 0 True (dest, 0) of
                 None \<Rightarrow> None
               | Some (res, dest, dest_len32) \<Rightarrow> Some (res, string_resize dest_len32 dest))))"

text \<open>The functions of the header; \<open>p\<close> is the address of the source.\<close>

definition UTF8ToUTF16 :: "int \<Rightarrow> byte list \<Rightarrow> (bool \<times> char16 list) option" where
  "UTF8ToUTF16 p src = UTFConversion (IsStringASCII_char p src) (DoUTFConversion_char UnicodeAppendUnsafe_char16)
     SizeCoefficient_default ucast src"

definition UTF16ToUTF8 :: "int \<Rightarrow> char16 list \<Rightarrow> (bool \<times> byte list) option" where
  "UTF16ToUTF8 p src = UTFConversion (IsStringASCII_char16 p src) (DoUTFConversion_char16 UnicodeAppendUnsafe_char)
     SizeCoefficient_char16_char ucast src"

definition WideToUTF16 :: "int \<Rightarrow> u32 list \<Rightarrow> (bool \<times> char16 list) option" where
  "WideToUTF16 p src = UTFConversion (IsStringASCII_wchar p src) (DoUTFConversion_wchar UnicodeAppendUnsafe_char16)
     SizeCoefficient_wchar_char16 ucast src"

definition UTF16ToWide :: "int \<Rightarrow> char16 list \<Rightarrow> (bool \<times> u32 list) option" where
  "UTF16ToWide p src = UTFConversion (IsStringASCII_char16 p src) (DoUTFConversion_char16 UnicodeAppendUnsafe_wchar)
     SizeCoefficient_default ucast src"

definition UTF8ToWide :: "int \<Rightarrow> byte list \<Rightarrow> (bool \<times> u32 list) option" where
  "UTF8ToWide p src = UTFConversion (IsStringASCII_char p src) (DoUTFConversion_char UnicodeAppendUnsafe_wchar)
     SizeCoefficient_default ucast src"

definition WideToUTF8 :: "int \<Rightarrow> u32 list \<Rightarrow> (bool \<times> byte list) option" where
  "WideToUTF8 p src = UTFConversion (IsStringASCII_wchar p src) (DoUTFConversion_wchar UnicodeAppendUnsafe_char)
     SizeCoefficient_wchar_char ucast src"

section \<open>Decoding, as the standard has it\<close>

text \<open>The code points of a sequence of code units; \<open>None\<close> stands for an ill-formed part.\<close>

function decode8 :: "int list \<Rightarrow> int option list" where
  "decode8 us = (if us = [] then [] else fst (table_next us) # decode8 (drop (snd (table_next us)) us))"
  by pat_completeness auto
termination
proof (relation "measure length")
  fix us :: "int list"
  assume "us \<noteq> []"
  moreover obtain r n where "table_next us = (r, n)" by fastforce
  ultimately show "(drop (snd (table_next us)) us, us) \<in> measure length" using table_next_bound [of us r n] by auto
qed simp

declare decode8.simps [simp del]

definition single16 :: "int \<Rightarrow> int option" where
  "single16 u = (if 0xD800 \<le> u \<and> u < 0xE000 then None else Some u)"

fun decode16 :: "int list \<Rightarrow> int option list" where
  "decode16 [] = []"
| "decode16 [u] = [single16 u]"
| "decode16 (u # v # us) =
     (if 0xD800 \<le> u \<and> u < 0xDC00 \<and> 0xDC00 \<le> v \<and> v < 0xE000
      then Some (0x10000 + 1024 * (u - 0xD800) + (v - 0xDC00)) # decode16 us
      else single16 u # decode16 (v # us))"

definition decode32 :: "int list \<Rightarrow> int option list" where
  "decode32 us = map (\<lambda>u. if scalar u then Some u else None) us"

definition replaced :: "int option \<Rightarrow> int" where
  "replaced r = (case r of None \<Rightarrow> 0xFFFD | Some c \<Rightarrow> c)"

definition encode :: "(int \<Rightarrow> int list) \<Rightarrow> int option list \<Rightarrow> int list" where
  "encode enc ds = concat (map (enc \<circ> replaced) ds)"

definition scalars :: "int option list \<Rightarrow> bool" where
  "scalars ds \<longleftrightarrow> (\<forall>c. Some c \<in> set ds \<longrightarrow> scalar c)"

lemma encode_simps [simp]: "encode enc [] = []" "encode enc (d # ds) = enc (replaced d) @ encode enc ds"
  by (simp_all add: encode_def)

section \<open>The loops\<close>

lemma not_valid_minus_1: "\<not> IsValidCodepoint (- 1)"
  by (simp add: IsValidCodepoint_def word_le_def word_less_def unsigned_minus_1_eq_mask mask_eq_exp_minus_1)

lemma valid_codepoint: "- 1 \<le> c \<Longrightarrow> c < 2 ^ 31 \<Longrightarrow> IsValidCodepoint (word_of_int c) \<longleftrightarrow> scalar c"
proof -
  assume c: "- 1 \<le> c" "c < 2 ^ 31"
  show ?thesis
  proof (cases "c = - 1")
    case True
    then show ?thesis by (simp add: not_valid_minus_1 scalar_def)
  next
    case False
    then have "uint (word_of_int c :: u32) = c" using c by (simp add: unsigned_of_int take_bit_int_eq_self)
    then show ?thesis using c False by (auto simp: IsValidCodepoint_def scalar_def word_less_def word_le_def)
  qed
qed

lemma scalar_error: "scalar 0xFFFD"
  by (simp add: scalar_def)

lemma scalar_bounds: "scalar c \<Longrightarrow> 0 \<le> c \<and> c \<le> 0x10FFFF"
  by (auto simp: scalar_def)

lemma kError: "kErrorCodePoint = word_of_int 0xFFFD"
  by (simp add: kErrorCodePoint_def)

lemma ConvertSingleChar_single:
  "ConvertSingleChar u = (word_of_int (replaced (single16 (uint u))), single16 (uint u) \<noteq> None)" "scalar (replaced (single16 (uint u)))"
proof -
  have u: "CBU16_IS_SINGLE (uint u) \<longleftrightarrow> \<not> (0xD800 \<le> uint u \<and> uint u < 0xE000)"
    using surrogate_tests(3) [OF unit_bounds, of u] by (simp add: CBU16_IS_SINGLE_def)
  have sc: "scalar (uint u)" if "\<not> (0xD800 \<le> uint u \<and> uint u < 0xE000)" using that unit_bounds [of u] by (auto simp: scalar_def)
  have "ucast u = (word_of_int (uint u) :: u32)" by simp
  then have v: "IsValidCodepoint (ucast u) \<longleftrightarrow> scalar (uint u)"
    using valid_codepoint [of "uint u"] unit_bounds [of u] by simp
  show "ConvertSingleChar u = (word_of_int (replaced (single16 (uint u))), single16 (uint u) \<noteq> None)"
    using sc by (auto simp: ConvertSingleChar_def u v single16_def replaced_def kError)
  show "scalar (replaced (single16 (uint u)))" using sc scalar_error by (auto simp: single16_def replaced_def)
qed

lemma utf16_step_decode:
  assumes i: "i + 1 < length s"
  shows "\<exists>d. decode16 (map uint (drop i s)) = d # decode16 (map uint (drop (snd (utf16_step s i)) s)) \<and>
    fst (utf16_step s i) = (word_of_int (replaced d), d \<noteq> None) \<and> scalar (replaced d) \<and> snd (utf16_step s i) \<le> length s"
proof -
  let ?u = "uint (s ! i)" and ?v = "uint (s ! (i + 1))"
  have d: "drop i s = s ! i # s ! (i + 1) # drop (i + 2) s" "drop (i + 1) s = s ! (i + 1) # drop (i + 2) s"
    using i by (simp_all add: Cons_nth_drop_Suc)
  let ?p = "0xD800 \<le> ?u \<and> ?u < 0xDC00 \<and> 0xDC00 \<le> ?v \<and> ?v < 0xE000"
  have t: "CBU16_IS_LEAD ?u \<and> CBU16_IS_TRAIL ?v \<longleftrightarrow> ?p"
    using surrogate_tests(1) [OF unit_bounds, of "s ! i"] surrogate_tests(2) [OF unit_bounds, of "s ! (i + 1)"] by auto
  show ?thesis
  proof (cases ?p)
    case True
    let ?c = "0x10000 + 1024 * (?u - 0xD800) + (?v - 0xDC00)"
    have "scalar ?c" "?c < 2 ^ 31" using True by (auto simp: scalar_def)
    then have "IsValidCodepoint (word_of_int ?c)" using valid_codepoint [of ?c] scalar_bounds [of ?c] by simp
    moreover have "decode16 (map uint (drop i s)) = Some ?c # decode16 (map uint (drop (i + 2) s))" using True by (simp add: d)
    ultimately show ?thesis using True t i \<open>scalar ?c\<close>
      by (intro exI [of _ "Some ?c"]) (simp only: utf16_step_def supplementary Let_def replaced_def if_True option.case fst_conv snd_conv, simp)
  next
    case False
    have "decode16 (map uint (drop i s)) = single16 ?u # decode16 (map uint (drop (i + 1) s))" using False unfolding d by auto
    moreover have "utf16_step s i = (ConvertSingleChar (s ! i), i + 1)"
      unfolding utf16_step_def t using False by (simp only: if_False)
    ultimately show ?thesis using i ConvertSingleChar_single [of "s ! i"]
      by (intro exI [of _ "single16 ?u"]) simp
  qed
qed

locale utf_writer =
  fixes app :: "'d::len word writer" and enc :: "int \<Rightarrow> int list"
  assumes app: "scalar c \<Longrightarrow> length (enc c) \<le> length r \<Longrightarrow> length w + length (enc c) < 2 ^ 31 \<Longrightarrow>
    \<exists>u. app (word_of_int c) (w @ r, length w) = Some (w @ u @ drop (length u) r, length w + length u) \<and> map uint u = enc c"
begin

definition writes :: "bool \<Rightarrow> int option list \<Rightarrow> 'd word list \<Rightarrow> 'd word list \<Rightarrow> (bool \<times> 'd word list \<times> nat) option \<Rightarrow> bool" where
  "writes success ds w r res \<longleftrightarrow>
     (\<exists>u. res = Some (success \<and> None \<notin> set ds, w @ u @ drop (length u) r, length w + length u) \<and> map uint u = encode enc ds)"

lemma writes_Nil: "writes success [] w r (Some (success, w @ r, length w))"
  unfolding writes_def by (intro exI [of _ "[]"]) simp

lemma writes_Cons:
  assumes c: "scalar (replaced d)" and len: "length (encode enc (d # ds)) \<le> length r" "length w + length (encode enc (d # ds)) < 2 ^ 31"
    and step: "\<And>u. map uint u = enc (replaced d) \<Longrightarrow> writes (success \<and> d \<noteq> None) ds (w @ u) (drop (length u) r) (k (w @ u @ drop (length u) r, length w + length u))"
  shows "writes success (d # ds) w r (case app (word_of_int (replaced d)) (w @ r, length w) of None \<Rightarrow> None | Some dest \<Rightarrow> k dest)"
proof -
  obtain u where u: "app (word_of_int (replaced d)) (w @ r, length w) = Some (w @ u @ drop (length u) r, length w + length u)"
    "map uint u = enc (replaced d)"
    using app [OF c, of r w] len by auto
  from step [OF u(2)] obtain u' where "k (w @ u @ drop (length u) r, length w + length u) =
      Some ((success \<and> d \<noteq> None) \<and> None \<notin> set ds, (w @ u) @ u' @ drop (length u') (drop (length u) r), length (w @ u) + length u')"
    "map uint u' = encode enc ds"
    unfolding writes_def by auto
  then show ?thesis unfolding writes_def u(1) option.case using u(2)
    by (intro exI [of _ "u @ u'"]) (cases d; auto simp: add.commute)
qed

lemma encode_fits:
  "map uint u = enc (replaced d) \<Longrightarrow> length (encode enc (d # ds)) \<le> length r \<Longrightarrow> length w + length (encode enc (d # ds)) < 2 ^ 31 \<Longrightarrow>
   length (encode enc ds) \<le> length (drop (length (u :: 'd word list)) r) \<and> length (w @ u) + length (encode enc ds) < 2 ^ 31"
  using length_map [of uint u] by simp

lemma DoUTFConversion_char_writes:
  "i \<le> length s \<Longrightarrow> ds = decode8 (map uint (drop i s)) \<Longrightarrow>
   length (encode enc ds) \<le> length r \<Longrightarrow> length w + length (encode enc ds) < 2 ^ 31 \<Longrightarrow>
   writes success ds w r (DoUTFConversion_char app s (int (length s)) i success (w @ r, length w))"
proof (induction "length s - i" arbitrary: i ds success w r rule: less_induct)
  case less
  show ?case
  proof (cases "i < length s")
    case False
    then have "ds = []" using less.prems by (simp add: decode8.simps)
    then show ?thesis using False writes_Nil by (simp add: DoUTFConversion_char.simps)
  next
    case True
    let ?us = "map uint (drop i s) :: int list"
    obtain d n where t: "table_next ?us = (d, n)" by fastforce
    have ne: "?us \<noteq> []" and pos: "\<forall>u \<in> set ?us. 0 \<le> u" using True by auto
    have n: "0 < n" "n \<le> length ?us" using table_next_bound [OF ne t] by auto
    have ds: "ds = d # decode8 (map uint (drop (i + n) s))"
      unfolding less.prems(2) using ne t by (subst decode8.simps) (simp add: drop_map add.commute)
    have sc: "scalar c" if "d = Some c" for c using table_next_sound [of ?us c n] t pos that by simp
    have ok: "IsValidCodepoint (word_of_int (case d of None \<Rightarrow> - 1 | Some c \<Rightarrow> c)) \<longleftrightarrow> d \<noteq> None"
    proof (cases d)
      case None
      then show ?thesis by (simp add: not_valid_minus_1)
    next
      case (Some c)
      then show ?thesis using valid_codepoint [of c] sc [OF Some] scalar_bounds [OF sc [OF Some]] by simp
    qed
    have "DoUTFConversion_char app s (int (length s)) i success (w @ r, length w) =
        (case app (word_of_int (replaced d)) (w @ r, length w) of None \<Rightarrow> None
         | Some dest \<Rightarrow> DoUTFConversion_char app s (int (length s)) (i + n) (success \<and> d \<noteq> None) dest)"
      using True ok by (subst DoUTFConversion_char.simps)
        (cases d; simp add: next_table [OF True] t Let_def replaced_def kError cong: option.case_cong)
    moreover have "scalar (replaced d)" using sc scalar_error by (cases d) (simp_all add: replaced_def)
    moreover have "writes (success \<and> d \<noteq> None) (decode8 (map uint (drop (i + n) s))) (w @ u) (drop (length u) r)
        (DoUTFConversion_char app s (int (length s)) (i + n) (success \<and> d \<noteq> None) ((w @ u) @ drop (length u) r, length (w @ u)))"
      if "map uint u = enc (replaced d)" for u
      using n True encode_fits [OF that less.prems(3,4) [unfolded ds]] by (intro less.hyps [OF _ _ refl]) auto
    ultimately show ?thesis using writes_Cons [of d "decode8 (map uint (drop (i + n) s))" r w] less.prems(3,4) unfolding ds by simp
  qed
qed

lemma DoUTFConversion_wchar_writes:
  "i \<le> length s \<Longrightarrow> ds = decode32 (map uint (drop i s)) \<Longrightarrow>
   length (encode enc ds) \<le> length r \<Longrightarrow> length w + length (encode enc ds) < 2 ^ 31 \<Longrightarrow>
   writes success ds w r (DoUTFConversion_wchar app s (int (length s)) i success (w @ r, length w))"
proof (induction "length s - i" arbitrary: i ds success w r)
  case 0
  then show ?case using writes_Nil by (simp add: DoUTFConversion_wchar.simps decode32_def)
next
  case (Suc m)
  then have i: "i < length s" by simp
  let ?d = "if scalar (uint (s ! i)) then Some (uint (s ! i)) else None"
  have ds: "ds = ?d # decode32 (map uint (drop (i + 1) s))"
    unfolding Suc.prems(2) using i by (simp add: decode32_def flip: Cons_nth_drop_Suc)
  have "uint (s ! i) < 2 ^ 32" using unsigned_less [of "s ! i", where ?'a = int] by simp
  then have ok: "IsValidCodepoint (s ! i) \<longleftrightarrow> scalar (uint (s ! i))"
    by (auto simp: IsValidCodepoint_def scalar_def word_less_def word_le_def)
  have "DoUTFConversion_wchar app s (int (length s)) i success (w @ r, length w) =
      (case app (word_of_int (replaced ?d)) (w @ r, length w) of None \<Rightarrow> None
       | Some dest \<Rightarrow> DoUTFConversion_wchar app s (int (length s)) (i + 1) (success \<and> ?d \<noteq> None) dest)"
    using i ok by (subst DoUTFConversion_wchar.simps) (simp add: Let_def replaced_def kError cong: option.case_cong)
  moreover have "scalar (replaced ?d)" using scalar_error by (simp add: replaced_def)
  moreover have "writes (success \<and> ?d \<noteq> None) (decode32 (map uint (drop (i + 1) s))) (w @ u) (drop (length u) r)
      (DoUTFConversion_wchar app s (int (length s)) (i + 1) (success \<and> ?d \<noteq> None) ((w @ u) @ drop (length u) r, length (w @ u)))"
    if "map uint u = enc (replaced ?d)" for u
    using Suc.hyps(2) i encode_fits [OF that Suc.prems(3,4) [unfolded ds]] by (intro Suc.hyps(1) [OF _ _ refl]) auto
  ultimately show ?case using writes_Cons [of ?d "decode32 (map uint (drop (i + 1) s))" r w] Suc.prems(3,4) unfolding ds by simp
qed

lemma DoUTFConversion_char16_writes:
  "i \<le> length s \<Longrightarrow> ds = decode16 (map uint (drop i s)) \<Longrightarrow>
   length (encode enc ds) \<le> length r \<Longrightarrow> length w + length (encode enc ds) < 2 ^ 31 \<Longrightarrow>
   writes success ds w r (DoUTFConversion_char16 app s (int (length s)) i success (w @ r, length w))"
proof (induction "length s - i" arbitrary: i ds success w r rule: less_induct)
  case less
  consider "i = length s" | "i + 1 = length s" | "i + 1 < length s" using less.prems(1) by linarith
  then show ?case
  proof cases
    case 1
    then show ?thesis using writes_Nil less.prems by (simp add: DoUTFConversion_char16.simps)
  next
    case 2
    let ?d = "single16 (uint (s ! i))"
    have ds: "ds = [?d]" unfolding less.prems(2) using 2 Cons_nth_drop_Suc [of i s, symmetric] by simp
    have "DoUTFConversion_char16 app s (int (length s)) i success (w @ r, length w) =
        (case app (word_of_int (replaced ?d)) (w @ r, length w) of None \<Rightarrow> None | Some dest \<Rightarrow> Some (success \<and> ?d \<noteq> None, dest))"
      using 2 ConvertSingleChar_single(1) [of "s ! i"] by (subst DoUTFConversion_char16.simps) (simp cong: option.case_cong)
    then show ?thesis
      using writes_Cons [OF ConvertSingleChar_single(2) [of "s ! i"], of "[]" r w success "\<lambda>dest. Some (success \<and> ?d \<noteq> None, dest)"]
        writes_Nil [of "success \<and> ?d \<noteq> None" "w @ _" "drop _ r"] less.prems(3,4) unfolding ds by simp
  next
    case 3
    obtain d where d: "decode16 (map uint (drop i s)) = d # decode16 (map uint (drop (snd (utf16_step s i)) s))"
      "fst (utf16_step s i) = (word_of_int (replaced d), d \<noteq> None)" "scalar (replaced d)" "snd (utf16_step s i) \<le> length s"
      using utf16_step_decode [OF 3] by blast
    let ?j = "snd (utf16_step s i)" and ?ds = "decode16 (map uint (drop (snd (utf16_step s i)) s))"
    have ds: "ds = d # ?ds" using less.prems(2) d(1) by simp
    have "DoUTFConversion_char16 app s (int (length s)) i success (w @ r, length w) =
        (case app (word_of_int (replaced d)) (w @ r, length w) of None \<Rightarrow> None
         | Some dest \<Rightarrow> DoUTFConversion_char16 app s (int (length s)) ?j (success \<and> d \<noteq> None) dest)"
      using 3 d(2) by (subst DoUTFConversion_char16.simps) (simp cong: option.case_cong)
    moreover have "writes (success \<and> d \<noteq> None) ?ds (w @ u) (drop (length u) r)
        (DoUTFConversion_char16 app s (int (length s)) ?j (success \<and> d \<noteq> None) ((w @ u) @ drop (length u) r, length (w @ u)))"
      if "map uint u = enc (replaced d)" for u
      using utf16_step_progress [of i s] d(4) 3 encode_fits [OF that less.prems(3,4) [unfolded ds]]
      by (intro less.hyps [OF _ _ refl]) auto
    ultimately show ?thesis using writes_Cons [OF d(3), of ?ds r w] less.prems(3,4) unfolding ds by simp
  qed
qed

end

section \<open>The three overloads\<close>

lemma put_append:
  "length us \<le> length r \<Longrightarrow> length w + length us < 2 ^ 31 \<Longrightarrow>
   put us (w @ r, length w) = Some (w @ us @ drop (length us) r, length w + length us)"
  by (simp add: put_def)

lemma uint_scalar: "scalar c \<Longrightarrow> uint (word_of_int c :: u32) = c"
  using scalar_bounds [of c] by (simp add: unsigned_of_int take_bit_int_eq_self)

interpretation w8: utf_writer UnicodeAppendUnsafe_char utf8
proof
  fix c :: int and r w :: "byte list"
  assume *: "scalar c" "length (utf8 c) \<le> length r" "length w + length (utf8 c) < 2 ^ 31"
  have e: "map uint (CBU8_APPEND_UNSAFE c) = utf8 c" using append_utf8 scalar_bounds [OF *(1)] by simp
  then have "length (CBU8_APPEND_UNSAFE c) = length (utf8 c)" by (metis length_map)
  then show "\<exists>u. UnicodeAppendUnsafe_char (word_of_int c) (w @ r, length w) = Some (w @ u @ drop (length u) r, length w + length u) \<and>
      map uint u = utf8 c"
    using e * put_append [of "CBU8_APPEND_UNSAFE c" r w]
    by (intro exI [of _ "CBU8_APPEND_UNSAFE c"]) (simp add: UnicodeAppendUnsafe_char_def uint_scalar)
qed

interpretation w16: utf_writer UnicodeAppendUnsafe_char16 utf16
proof
  fix c :: int and r w :: "char16 list"
  assume *: "scalar c" "length (utf16 c) \<le> length r" "length w + length (utf16 c) < 2 ^ 31"
  have e: "map uint (CBU16_APPEND_UNSAFE c) = utf16 c" using append_utf16 scalar_bounds [OF *(1)] by simp
  then have "length (CBU16_APPEND_UNSAFE c) = length (utf16 c)" by (metis length_map)
  then show "\<exists>u. UnicodeAppendUnsafe_char16 (word_of_int c) (w @ r, length w) = Some (w @ u @ drop (length u) r, length w + length u) \<and>
      map uint u = utf16 c"
    using e * put_append [of "CBU16_APPEND_UNSAFE c" r w]
    by (intro exI [of _ "CBU16_APPEND_UNSAFE c"]) (simp add: UnicodeAppendUnsafe_char16_def uint_scalar)
qed

definition utf32 :: "int \<Rightarrow> int list" where
  "utf32 c = [c]"

interpretation w32: utf_writer UnicodeAppendUnsafe_wchar utf32
proof
  fix c :: int and r w :: "u32 list"
  assume "scalar c" "length (utf32 c) \<le> length r" "length w + length (utf32 c) < 2 ^ 31"
  then show "\<exists>u. UnicodeAppendUnsafe_wchar (word_of_int c) (w @ r, length w) = Some (w @ u @ drop (length u) r, length w + length u) \<and>
      map uint u = utf32 c"
    using put_append [of "[word_of_int c]" r w]
    by (intro exI [of _ "[word_of_int c]"]) (simp add: UnicodeAppendUnsafe_wchar_def utf32_def uint_scalar)
qed

section \<open>The size of the destination\<close>

lemma decode8_Cons:
  assumes "us \<noteq> []" and "\<forall>u \<in> set us. 0 \<le> u"
  obtains d n where "decode8 us = d # decode8 (drop n us)" "0 < n" "n \<le> length us" "\<And>c. d = Some c \<Longrightarrow> scalar c \<and> take n us = utf8 c"
proof -
  obtain d n where t: "table_next us = (d, n)" by fastforce
  show ?thesis
  proof (rule that)
    show "decode8 us = d # decode8 (drop n us)" using assms(1) t by (subst decode8.simps) simp
    show "0 < n" "n \<le> length us" using table_next_bound [OF assms(1) t] by auto
    show "scalar c \<and> take n us = utf8 c" if "d = Some c" for c using table_next_sound [of us c n] t assms(2) that by simp
  qed
qed

lemma length_encode8:
  assumes "\<And>c. scalar c \<Longrightarrow> length (enc c) \<le> length (utf8 c)" and "length (enc 0xFFFD) = 1"
  shows "\<forall>u \<in> set us. 0 \<le> u \<Longrightarrow> length (encode enc (decode8 us)) \<le> length us"
proof (induction us rule: measure_induct_rule [of length])
  case (less us)
  show ?case
  proof (cases "us = []")
    case True
    then show ?thesis by (simp add: decode8.simps)
  next
    case False
    from decode8_Cons [OF this less.prems] obtain d n where d: "decode8 us = d # decode8 (drop n us)" "0 < n" "n \<le> length us"
      "\<And>c. d = Some c \<Longrightarrow> scalar c \<and> take n us = utf8 c" by blast
    have "length (drop n us) < length us" "\<forall>u \<in> set (drop n us). 0 \<le> u"
      using d(2,3) less.prems set_drop_subset [of n us] by auto
    then have "length (encode enc (decode8 (drop n us))) \<le> length us - n" using less.IH [of "drop n us"] by simp
    moreover have "length (enc (replaced d)) \<le> n"
    proof (cases d)
      case None
      then show ?thesis using assms(2) d(2) by (simp add: replaced_def)
    next
      case (Some c)
      then have "length (utf8 c) = n" using d(3) d(4) [OF Some] by (metis length_take min.absorb2)
      then show ?thesis using assms(1) [of c] d(4) [OF Some] Some by (simp add: replaced_def)
    qed
    ultimately show ?thesis using d(1,3) by simp
  qed
qed

lemma length_encode16:
  assumes "\<And>c. 0 \<le> c \<Longrightarrow> c < 0x10000 \<Longrightarrow> length (enc c) \<le> k" "\<And>c. length (enc c) \<le> 2 * k"
  shows "\<forall>u \<in> set us. 0 \<le> u \<and> u < 0x10000 \<Longrightarrow> length (encode enc (decode16 us)) \<le> length us * k"
  using assms
proof (induction us rule: decode16.induct)
  case (2 u)
  then show ?case by (simp add: single16_def replaced_def)
next
  case (3 u v us)
  have s: "length (enc (replaced (single16 u))) \<le> k" using 3 by (simp add: single16_def replaced_def)
  have p: "length (enc (replaced (Some (0x10000 + 1024 * (u - 0xD800) + (v - 0xDC00))))) \<le> 2 * k" using 3(5) .
  show ?case
  proof (cases "0xD800 \<le> u \<and> u < 0xDC00 \<and> 0xDC00 \<le> v \<and> v < 0xE000")
    case True
    then show ?thesis using 3 add_mono [OF p 3(1) [OF True]] by simp
  next
    case False
    then show ?thesis unfolding decode16.simps(3) if_not_P [OF False] using 3 add_mono [OF s 3(2) [OF False]] by simp
  qed
qed simp

lemma length_encode32: "(\<And>c. length (enc c) \<le> k) \<Longrightarrow> length (encode enc (decode32 us)) \<le> length us * k"
  by (induction us) (auto simp: decode32_def add_mono)

lemma length_utf:
  "scalar c \<Longrightarrow> length (utf16 c) \<le> length (utf8 c)" "length (utf32 c) \<le> length (utf8 c)" "length (utf8 c) \<le> 4" "length (utf16 c) \<le> 2"
  "c < 0x10000 \<Longrightarrow> length (utf8 c) \<le> 3" "length (utf32 c) \<le> 1"
  "length (utf16 0xFFFD) = 1" "length (utf32 0xFFFD) = 1"
  by (simp_all add: utf8_def utf16_def utf32_def)

section \<open>Plain text\<close>

lemma decode_ascii:
  assumes "\<forall>u \<in> set us. 0 \<le> u \<and> u < 0x80"
  shows "decode8 us = map Some us" "decode16 us = map Some us" "decode32 us = map Some us"
  using assms
proof -
  show "decode8 us = map Some us" using assms
  proof (induction us)
    case (Cons u us)
    then show ?case by (subst decode8.simps) (simp add: table_next_def)
  qed (simp add: decode8.simps)
  show "decode16 us = map Some us" using assms
    by (induction us rule: decode16.induct) (auto simp: single16_def)
  show "decode32 us = map Some us" using assms by (auto simp: decode32_def scalar_def)
qed

lemma encode_ascii: "(\<And>c. c < 0x80 \<Longrightarrow> enc c = [c]) \<Longrightarrow> \<forall>u \<in> set us. u < 0x80 \<Longrightarrow> encode enc (map Some us) = us"
  by (induction us) (simp_all add: replaced_def)

lemma ascii_units: "c < 0x80 \<Longrightarrow> utf8 c = [c]" "c < 0x80 \<Longrightarrow> utf16 c = [c]" "utf32 c = [c]"
  by (simp_all add: utf8_def utf16_def utf32_def)

section \<open>The conversions\<close>

lemma uint_small: "uint c < 0x80 \<longleftrightarrow> unat c < 128" for c :: "'a::len word"
proof -
  have "uint c = int (unat c)" by simp
  then show ?thesis by linarith
qed

lemma sint_of_small: "n < 2 ^ 31 \<Longrightarrow> sint (of_nat n :: u32) = int n"
  by (simp add: signed_of_nat signed_take_bit_int_eq_self)

lemma UTFConversion_ok:
  fixes assign :: "'s::len word \<Rightarrow> 'd::len word"
  assumes len: "length s * k < 2 ^ 31" "0 < k"
    and asc: "\<And>us. \<forall>u \<in> set us. 0 \<le> u \<and> u < 0x80 \<Longrightarrow> decode us = map Some us" "\<And>c. c < 0x80 \<Longrightarrow> enc c = [c]"
    and assign: "\<And>c. unat c < 128 \<Longrightarrow> uint (assign c) = uint c"
    and loop: "\<And>w r. length (encode enc (decode (map uint s))) \<le> length r \<Longrightarrow> length w + length (encode enc (decode (map uint s))) < 2 ^ 31 \<Longrightarrow>
      utf_writer.writes enc True (decode (map uint s)) w r (conv s (int (length s)) 0 True (w @ r, length w))"
    and fits: "length (encode enc (decode (map uint s))) \<le> length s * k"
    and writer: "utf_writer (app :: 'd word writer) enc"
  shows "\<exists>t. UTFConversion (Some (list_all (\<lambda>c. unat c < 128) s)) conv k assign s = Some (None \<notin> set (decode (map uint s)), t) \<and>
    map uint t = encode enc (decode (map uint s))"
proof (cases "list_all (\<lambda>c. unat c < 128) s")
  case True
  then have a: "\<forall>u \<in> set (map uint s). 0 \<le> u \<and> (u :: int) < 0x80" by (auto simp: list_all_iff uint_small)
  moreover have "map uint (map assign s) = (map uint s :: int list)" using True assign by (auto simp: list_all_iff)
  ultimately show ?thesis using True asc encode_ascii [of enc "map uint s"] by (auto simp: UTFConversion_def)
next
  case False
  let ?r = "replicate (length s * k) (0 :: 'd word)"
  have "length s \<le> length s * k" using len(2) by simp
  then have n: "length s < 2 ^ 31" using len(1) by linarith
  have l: "sint (of_nat (length s) :: u32) = int (length s)" using sint_of_small [OF n] .
  obtain u where "conv s (int (length s)) 0 True (?r, 0) = Some (None \<notin> set (decode (map uint s)), u @ drop (length u) ?r, length u)"
    "map uint u = encode enc (decode (map uint s))"
    using loop [of ?r "[]"] fits len(1) unfolding utf_writer.writes_def [OF writer] by auto
  moreover have "string_resize (length u) (u @ drop (length u) ?r) = u" by (simp add: string_resize_def)
  moreover have "UTFConversion (Some (list_all (\<lambda>c. unat c < 128) s)) conv k assign s =
      (case conv s (int (length s)) 0 True (?r, 0) of None \<Rightarrow> None | Some (res, dest, n) \<Rightarrow> Some (res, string_resize n dest))"
    using False l by (simp add: UTFConversion_def Let_def)
  ultimately show ?thesis by (intro exI [of _ u]) simp
qed

lemma ucast_small:
  assumes "unat c < 128" and "7 \<le> LENGTH('d::len)"
  shows "uint (ucast c :: 'd word) = uint (c :: 'a::len word)"
proof -
  have "uint c < 2 ^ 7" using uint_small [of c] assms(1) by simp
  also have "(2 :: int) ^ 7 \<le> 2 ^ LENGTH('d)" using assms(2) by (rule power_increasing) simp
  finally show ?thesis by (simp add: unsigned_ucast_eq take_bit_int_eq_self)
qed

lemma is_ascii:
  "IsStringASCII_char p s = Some (list_all (\<lambda>c. unat c < 128) s)"
  "IsStringASCII_char16 p s' = Some (list_all (\<lambda>c. unat c < 128) s')"
  "IsStringASCII_wchar p s'' = Some (list_all (\<lambda>c. unat c < 128) s'')"
  unfolding IsStringASCII_char_def IsStringASCII_char16_def IsStringASCII_wchar_def list_all_iff
  by (rule ct8.DoIsStringASCII_iff ct16.DoIsStringASCII_iff ct32.DoIsStringASCII_iff)+

text \<open>The string \<open>t\<close> that a conversion returns holds the code points \<open>ds\<close>.\<close>

definition converts :: "(int \<Rightarrow> int list) \<Rightarrow> int option list \<Rightarrow> (bool \<times> 'd::len word list) option \<Rightarrow> bool" where
  "converts enc ds res \<longleftrightarrow> (\<exists>t. res = Some (None \<notin> set ds, t) \<and> map uint t = encode enc ds)"

lemma pos_units: "\<forall>u \<in> set (map uint s). 0 \<le> (u :: int)" "\<forall>u \<in> set (map uint s'). 0 \<le> u \<and> (u :: int) < 0x10000" for s' :: "char16 list"
  using unit_bounds by auto

lemma char_converts:
  fixes s :: "byte list"
  assumes "length s < 2 ^ 31"
  shows "converts utf16 (decode8 (map uint s)) (UTF8ToUTF16 p s)" and "converts utf32 (decode8 (map uint s)) (UTF8ToWide p s)"
proof -
  show "converts utf16 (decode8 (map uint s)) (UTF8ToUTF16 p s)"
    unfolding converts_def UTF8ToUTF16_def is_ascii SizeCoefficient_default_def
    using assms w16.DoUTFConversion_char_writes [of 0 s, OF _ refl] length_encode8 [OF length_utf(1) _ pos_units(1), of s]
    by (intro UTFConversion_ok [OF _ _ decode_ascii(1) ascii_units(2) _ _ _ w16.utf_writer_axioms]) (simp_all add: ucast_small length_utf)
  show "converts utf32 (decode8 (map uint s)) (UTF8ToWide p s)"
    unfolding converts_def UTF8ToWide_def is_ascii SizeCoefficient_default_def
    using assms w32.DoUTFConversion_char_writes [of 0 s, OF _ refl] length_encode8 [OF length_utf(2) _ pos_units(1), of s]
    by (intro UTFConversion_ok [OF _ _ decode_ascii(1) ascii_units(3) _ _ _ w32.utf_writer_axioms]) (simp_all add: ucast_small length_utf)
qed

lemma char16_converts:
  fixes s :: "char16 list"
  shows "length s * 3 < 2 ^ 31 \<Longrightarrow> converts utf8 (decode16 (map uint s)) (UTF16ToUTF8 p s)"
    and "length s < 2 ^ 31 \<Longrightarrow> converts utf32 (decode16 (map uint s)) (UTF16ToWide p s)"
proof -
  assume len: "length s * 3 < 2 ^ 31"
  have "length (encode utf8 (decode16 (map uint s))) \<le> length s * 3"
    using length_encode16 [of utf8 3 "map uint s"] pos_units(2) [of s] length_utf(5) le_trans [OF length_utf(3), of 6] by simp
  with len show "converts utf8 (decode16 (map uint s)) (UTF16ToUTF8 p s)"
    unfolding converts_def UTF16ToUTF8_def is_ascii SizeCoefficient_char16_char_def
    using w8.DoUTFConversion_char16_writes [of 0 s, OF _ refl]
    by (intro UTFConversion_ok [OF _ _ decode_ascii(2) ascii_units(1) _ _ _ w8.utf_writer_axioms]) (simp_all add: ucast_small)
next
  assume len: "length s < 2 ^ 31"
  have "length (encode utf32 (decode16 (map uint s))) \<le> length s * 1"
    using length_encode16 [of utf32 1 "map uint s"] pos_units(2) [of s] length_utf(6) le_trans [OF length_utf(6), of 2] by simp
  with len show "converts utf32 (decode16 (map uint s)) (UTF16ToWide p s)"
    unfolding converts_def UTF16ToWide_def is_ascii SizeCoefficient_default_def
    using w32.DoUTFConversion_char16_writes [of 0 s, OF _ refl]
    by (intro UTFConversion_ok [OF _ _ decode_ascii(2) ascii_units(3) _ _ _ w32.utf_writer_axioms]) (simp_all add: ucast_small)
qed

lemma wchar_converts:
  fixes s :: "u32 list"
  shows "length s * 4 < 2 ^ 31 \<Longrightarrow> converts utf8 (decode32 (map uint s)) (WideToUTF8 p s)"
    and "length s * 2 < 2 ^ 31 \<Longrightarrow> converts utf16 (decode32 (map uint s)) (WideToUTF16 p s)"
proof -
  assume len: "length s * 4 < 2 ^ 31"
  then show "converts utf8 (decode32 (map uint s)) (WideToUTF8 p s)"
    unfolding converts_def WideToUTF8_def is_ascii SizeCoefficient_wchar_char_def
    using w8.DoUTFConversion_wchar_writes [of 0 s, OF _ refl] length_encode32 [of utf8 4 "map uint s", OF length_utf(3)]
    by (intro UTFConversion_ok [OF _ _ decode_ascii(3) ascii_units(1) _ _ _ w8.utf_writer_axioms]) (simp_all add: ucast_small)
next
  assume len: "length s * 2 < 2 ^ 31"
  then show "converts utf16 (decode32 (map uint s)) (WideToUTF16 p s)"
    unfolding converts_def WideToUTF16_def is_ascii SizeCoefficient_wchar_char16_def
    using w16.DoUTFConversion_wchar_writes [of 0 s, OF _ refl] length_encode32 [of utf16 2 "map uint s", OF length_utf(4)]
    by (intro UTFConversion_ok [OF _ _ decode_ascii(3) ascii_units(2) _ _ _ w16.utf_writer_axioms]) (simp_all add: ucast_small)
qed

section \<open>Round trips\<close>





text \<open>
  C29: The conversions between UTF-8, UTF-16 and UTF-32.  Each of the six conversions stays inside the
  destination it has allocated, and returns the code points of the source, with U+FFFD for each ill-formed part, in the
  encoding of the destination; it reports success exactly when no part was ill-formed.  The lengths are those for which
  the number of code units fits an \<open>int32_t\<close>.
\<close>

theorem utf_conversions_correct:
  fixes s :: "byte list" and s' :: "char16 list" and s'' :: "u32 list"
  assumes "length s < 2 ^ 31" and "length s' * 3 < 2 ^ 31" and "length s'' * 4 < 2 ^ 31"
  shows "converts utf16 (decode8 (map uint s)) (UTF8ToUTF16 p s) \<and>
         converts utf32 (decode8 (map uint s)) (UTF8ToWide p s) \<and>
         converts utf8 (decode16 (map uint s')) (UTF16ToUTF8 p s') \<and>
         converts utf32 (decode16 (map uint s')) (UTF16ToWide p s') \<and>
         converts utf8 (decode32 (map uint s'')) (WideToUTF8 p s'') \<and>
         converts utf16 (decode32 (map uint s'')) (WideToUTF16 p s'')"
  using assms char_converts char16_converts wchar_converts by simp

theorem utf_conversions_correct_witness:
  "\<exists>t. UTF8ToUTF16 0 [0xe2, 0x82, 0xac, 0x80] = Some (False, t) \<and> map uint t = [0x20ac, 0xfffd :: int]"
proof -
  have "decode8 (map uint [0xe2 :: byte, 0x82, 0xac, 0x80]) = [Some 0x20ac, None]"
    by (simp add: decode8.simps table_next_def ok3_def trail_def)
  then show ?thesis
    using utf_conversions_correct [of "[0xe2, 0x82, 0xac, 0x80]" "[]" "[]" 0, THEN conjunct1]
    by (simp add: converts_def replaced_def utf16_def)
qed

text \<open>
  The length is cast to \<open>int32_t\<close>: a string of at least \<open>2^31\<close> bytes (and less than \<open>2^32\<close>) that is not ASCII is
  reported as converted, with an empty result.
\<close>

lemma utf8_of_2_31_bytes_vanishes:
  assumes "2 ^ 31 \<le> length s" "length s < 2 ^ 32" "\<not> list_all (\<lambda>c. unat c < 128) s"
  shows "UTF8ToUTF16 p s = Some (True, [])"
proof -
  have "sint (of_nat (length s) :: u32) = int (length s) - 2 ^ 32"
  proof -
    have "sint (of_nat (length s) :: u32) = signed_take_bit 31 (int (length s))" by (simp add: signed_of_nat)
    also have "\<dots> = int (length s) - 2 ^ 32"
      using assms(1,2) signed_take_bit_eq_take_bit_minus [of 31 "int (length s)"] div_eq_range [of "2 ^ 31" "int (length s)" 1]
      by (simp add: take_bit_int_eq_self bit_iff_odd)
    finally show ?thesis .
  qed
  then have "\<not> 0 < sint (of_nat (length s) :: u32)" using assms(2) by simp
  then show ?thesis using assms(3)
    by (simp add: UTF8ToUTF16_def UTFConversion_def is_ascii Let_def DoUTFConversion_char.simps string_resize_def)
qed




end
