(* ===== verification/Pattern.thy ===== *)
theory Pattern
  imports Utf_Conversions
begin

text \<open>
  Wildcard matching (\<open>base/strings/pattern.cc\<close>).

  A pointer into a string with its end is the rest of the string; reading at the end gives \<open>None\<close>, and so does a
  counter that leaves the range of \<open>int\<close>.  A code unit is compared with ASCII characters, for which it does not matter
  that \<open>char\<close> is signed.  The loops are partial functions, so that \<open>None\<close> also stands for a loop that does not end;
  the functor \<open>next\<close> is their argument.  \<open>end - *p\<close> becomes an \<open>int32_t\<close> in \<open>CBU8_NEXT\<close>, which is exact for
  strings shorter than \<open>2 ^ 31\<close>.

  The reference is \<open>glob\<close>, the matching that \<open>pattern.h\<close> describes, on sequences of code points.  The locale
  \<open>char_reader\<close> is what the loops need of a functor; \<open>NextCharUTF8\<close> and \<open>NextCharUTF16\<close> interpret it.
\<close>

section \<open>The program\<close>

type_synonym 'u reader = "'u list \<Rightarrow> (UChar32 \<times> 'u list) option"

definition IsWildcard :: "'w::len word \<Rightarrow> bool" where
  "IsWildcard character \<longleftrightarrow> character = 0x2A \<or> character = 0x3F"

definition within_int :: "int \<Rightarrow> bool" where
  "within_int x \<longleftrightarrow> - (2 ^ 31) \<le> x \<and> x < 2 ^ 31"

text \<open>
  The variables of the loop in \<open>SearchForChars\<close>: \<open>string_start\<close>, \<open>*pattern\<close>, \<open>*string\<close>, \<open>escape\<close> and
  \<open>maximum_distance\<close>.  One iteration returns the result with where \<open>*pattern\<close> and \<open>*string\<close> point (\<open>Inl\<close>), or
  continues (\<open>Inr\<close>).
\<close>

type_synonym 'u search = "'u list \<times> 'u list \<times> 'u list \<times> bool \<times> int"
type_synonym 'u found = "bool \<times> 'u list \<times> 'u list"

definition mismatch :: "'w::len word reader \<Rightarrow> 'w word list \<Rightarrow> 'w word search \<Rightarrow> ('w word found + 'w word search) option" where
  "mismatch next pattern_start = (\<lambda>(string_start, pattern, string, escape, maximum_distance).
     if maximum_distance = 0 then Some (Inl (False, pattern, string))
     else if \<not> within_int (maximum_distance - 1) then None
     else (case next string_start of None \<Rightarrow> None
           | Some (_, string_start) \<Rightarrow> Some (Inr (string_start, pattern_start, string_start, escape, maximum_distance - 1))))"

definition search_step :: "'w::len word reader \<Rightarrow> 'w word list \<Rightarrow> 'w word search \<Rightarrow> ('w word found + 'w word search) option" where
  "search_step next pattern_start = (\<lambda>(string_start, pattern, string, escape, maximum_distance).
     if pattern = [] then
       (if string = [] then Some (Inl (True, pattern, string))
        else mismatch next pattern_start (string_start, pattern, string, escape, maximum_distance))
     else if \<not> escape \<and> IsWildcard (hd pattern) then Some (Inl (True, pattern, string))
     else if \<not> escape \<and> hd pattern = 0x5C then
       (case next pattern of None \<Rightarrow> None
        | Some (_, pattern) \<Rightarrow> Some (Inr (string_start, pattern, string, True, maximum_distance)))
     else if string = [] then Some (Inl (False, pattern, string))
     else (case (next pattern, next string) of
             (Some (pattern_char, pattern_next), Some (string_char, string_next)) \<Rightarrow>
               if pattern_char = string_char \<and> pattern_char \<noteq> CBU_SENTINEL
               then Some (Inr (string_start, pattern_next, string_next, False, maximum_distance))
               else mismatch next pattern_start (string_start, pattern, string, False, maximum_distance)
           | _ \<Rightarrow> None))"

partial_function (option) search_loop ::
  "'w::len word reader \<Rightarrow> 'w word list \<Rightarrow> 'w word search \<Rightarrow> 'w word found option" where
  "search_loop next pattern_start st =
     (case search_step next pattern_start st of None \<Rightarrow> None
      | Some r \<Rightarrow> (case r of Inl res \<Rightarrow> Some res | Inr st \<Rightarrow> search_loop next pattern_start st))"

definition SearchForChars :: "'w::len word reader \<Rightarrow> 'w word list \<Rightarrow> 'w word list \<Rightarrow> int \<Rightarrow> 'w word found option" where
  "SearchForChars next pattern string maximum_distance =
     search_loop next pattern (string, pattern, string, False, maximum_distance)"

partial_function (option) eat_loop ::
  "'w::len word reader \<Rightarrow> 'w word list \<Rightarrow> int \<Rightarrow> bool \<Rightarrow> (int \<times> 'w word list) option" where
  "eat_loop next pattern num_question_marks has_asterisk =
     (if pattern = [] \<or> \<not> (hd pattern = 0x3F \<or> hd pattern = 0x2A)
      then Some (if has_asterisk then - 1 else num_question_marks, pattern)
      else if hd pattern = 0x3F \<and> \<not> within_int (num_question_marks + 1) then None
      else (case next pattern of None \<Rightarrow> None
            | Some (_, pattern') \<Rightarrow>
                if hd pattern = 0x3F then eat_loop next pattern' (num_question_marks + 1) has_asterisk
                else eat_loop next pattern' num_question_marks True))"

definition EatWildcards :: "'w::len word reader \<Rightarrow> 'w word list \<Rightarrow> (int \<times> 'w word list) option" where
  "EatWildcards next pattern = eat_loop next pattern 0 False"

partial_function (option) MatchPatternT :: "'w::len word reader \<Rightarrow> 'w word list \<Rightarrow> 'w word list \<Rightarrow> bool option" where
  "MatchPatternT next eval pattern =
     (case EatWildcards next pattern of None \<Rightarrow> None
      | Some (maximum_wildcard_length, pattern) \<Rightarrow>
          (case SearchForChars next pattern eval maximum_wildcard_length of None \<Rightarrow> None
           | Some (found, pattern, eval) \<Rightarrow>
               if \<not> found then Some False
               else if pattern \<noteq> [] then MatchPatternT next eval pattern
               else Some True))"

definition NextCharUTF8 :: "byte reader" where
  "NextCharUTF8 p = (if p = [] then None
     else (case CBU8_NEXT p 0 (int (length p)) of (c, offset) \<Rightarrow> Some (c, drop offset p)))"

definition NextCharUTF16 :: "char16 reader" where
  "NextCharUTF16 p = (if p = [] then None
     else (case CBU16_NEXT p 0 (int (length p)) of (c, offset) \<Rightarrow> Some (c, drop offset p)))"

definition MatchPattern :: "byte list \<Rightarrow> byte list \<Rightarrow> bool option" where
  "MatchPattern eval pattern = MatchPatternT NextCharUTF8 eval pattern"

definition MatchPattern16 :: "char16 list \<Rightarrow> char16 list \<Rightarrow> bool option" where
  "MatchPattern16 eval pattern = MatchPatternT NextCharUTF16 eval pattern"

section \<open>The reference\<close>

datatype token = Lit int | Question | Star

fun tokens :: "int list \<Rightarrow> token list" where
  "tokens [] = []"
| "tokens (c # cs) =
     (if c = 0x2A then Star # tokens cs
      else if c = 0x3F then Question # tokens cs
      else if c = 0x5C then (case cs of [] \<Rightarrow> [] | x # xs \<Rightarrow> Lit x # tokens xs)
      else Lit c # tokens cs)"

text \<open>The pattern ends in an escape character that escapes nothing.\<close>

fun dangling :: "int list \<Rightarrow> bool" where
  "dangling [] = False"
| "dangling (c # cs) = (if c = 0x5C then (case cs of [] \<Rightarrow> True | x # xs \<Rightarrow> dangling xs) else dangling cs)"

text \<open>An ill-formed part of a string, \<open>- 1\<close>, is one character for a wildcard and equals no character of a pattern.\<close>

fun glob :: "token list \<Rightarrow> int list \<Rightarrow> bool" where
  "glob [] s \<longleftrightarrow> s = []"
| "glob (Lit c # p) s \<longleftrightarrow> (case s of [] \<Rightarrow> False | x # s \<Rightarrow> x = c \<and> c \<noteq> - 1 \<and> glob p s)"
| "glob (Question # p) s \<longleftrightarrow> glob p s \<or> (case s of [] \<Rightarrow> False | _ # s \<Rightarrow> glob p s)"
| "glob (Star # p) s \<longleftrightarrow> (\<exists>k \<le> length s. glob p (drop k s))"

definition wild :: "token \<Rightarrow> bool" where
  "wild t \<longleftrightarrow> t = Question \<or> t = Star"

text \<open>Every run of wildcards contains a \<open>*\<close>.\<close>

function all_stars :: "token list \<Rightarrow> bool" where
  "all_stars [] = True"
| "all_stars (Lit c # p) = all_stars p"
| "all_stars (Question # p) = (Star \<in> set (takeWhile wild p) \<and> all_stars (dropWhile wild p))"
| "all_stars (Star # p) = all_stars (dropWhile wild p)"
  by pat_completeness auto
termination by (relation "measure length") (auto simp: length_dropWhile_le le_imp_less_Suc)

text \<open>Every run of wildcards but the first contains a \<open>*\<close>.\<close>

definition searchable :: "token list \<Rightarrow> bool" where
  "searchable p \<longleftrightarrow> all_stars (dropWhile wild (dropWhile (\<lambda>t. \<not> wild t) p))"

definition chars8 :: "byte list \<Rightarrow> int list" where
  "chars8 s = map (\<lambda>d. case d of None \<Rightarrow> - 1 | Some c \<Rightarrow> c) (decode8 (map uint s))"

text \<open>An unpaired surrogate is a character of its own.\<close>

fun chars16 :: "char16 list \<Rightarrow> int list" where
  "chars16 [] = []"
| "chars16 [u] = [uint u]"
| "chars16 (u # v # us) =
     (if 0xD800 \<le> uint u \<and> uint u < 0xDC00 \<and> 0xDC00 \<le> uint v \<and> uint v < 0xE000
      then (0x10000 + 1024 * (uint u - 0xD800) + (uint v - 0xDC00)) # chars16 us
      else uint u # chars16 (v # us))"

section \<open>Matching runs of wildcards and of literals\<close>

lemma wild_simps [simp]: "\<not> wild (Lit c)" "wild Question" "wild Star"
  by (simp_all add: wild_def)

text \<open>How many characters a run of wildcards can match, \<open>- 1\<close> if any number.\<close>

definition run_limit :: "token list \<Rightarrow> int" where
  "run_limit r = (if Star \<in> set r then - 1 else int (length r))"

definition allows :: "int \<Rightarrow> nat \<Rightarrow> bool" where
  "allows d k \<longleftrightarrow> d < 0 \<or> int k \<le> d"

lemma glob_drops:
  "(\<exists>k \<le> length s. P k \<and> (\<exists>j \<le> length s - k. Q j \<and> glob q (drop j (drop k s)))) \<longleftrightarrow>
   (\<exists>m \<le> length s. (\<exists>k j. m = k + j \<and> P k \<and> Q j) \<and> glob q (drop m s))"
proof
  assume "\<exists>k \<le> length s. P k \<and> (\<exists>j \<le> length s - k. Q j \<and> glob q (drop j (drop k s)))"
  then obtain k j where "k \<le> length s" "j \<le> length s - k" "P k" "Q j" "glob q (drop (k + j) s)" by (auto simp: add.commute)
  then show "\<exists>m \<le> length s. (\<exists>k j. m = k + j \<and> P k \<and> Q j) \<and> glob q (drop m s)" by (intro exI [of _ "k + j"]) auto
next
  assume "\<exists>m \<le> length s. (\<exists>k j. m = k + j \<and> P k \<and> Q j) \<and> glob q (drop m s)"
  then obtain k j where "k + j \<le> length s" "P k" "Q j" "glob q (drop (k + j) s)" by blast
  then show "\<exists>k \<le> length s. P k \<and> (\<exists>j \<le> length s - k. Q j \<and> glob q (drop j (drop k s)))"
    by (intro exI [of _ k] conjI exI [of _ j]) (auto simp: add.commute)
qed

lemma glob_run:
  "\<forall>t \<in> set r. wild t \<Longrightarrow> glob (r @ q) s \<longleftrightarrow> (\<exists>k \<le> length s. allows (run_limit r) k \<and> glob q (drop k s))"
proof (induction r arbitrary: s)
  case Nil
  then show ?case by (auto simp: allows_def run_limit_def intro: exI [of _ 0])
next
  case (Cons t r)
  then have IH: "glob (r @ q) s \<longleftrightarrow> (\<exists>k \<le> length s. allows (run_limit r) k \<and> glob q (drop k s))" for s by simp
  show ?case
  proof (cases "t = Star")
    case True
    have "(\<exists>k j. m = k + j \<and> True \<and> allows (run_limit r) j)" for m
      by (rule exI [of _ m], rule exI [of _ 0]) (simp add: allows_def run_limit_def)
    then show ?thesis using True glob_drops [of s "\<lambda>_. True" "allows (run_limit r)" q]
      by (simp add: IH) (simp add: allows_def run_limit_def)
  next
    case False
    then have t: "t = Question" using Cons.prems by (auto simp: wild_def)
    have a: "allows (run_limit (Question # r)) m \<longleftrightarrow> (\<exists>k j. m = k + j \<and> k \<le> 1 \<and> allows (run_limit r) j)" for m
    proof
      assume "allows (run_limit (Question # r)) m"
      then show "\<exists>k j. m = k + j \<and> k \<le> 1 \<and> allows (run_limit r) j"
        by (intro exI [of _ "min m 1"] exI [of _ "m - 1"]) (auto simp: allows_def run_limit_def min_def split: if_splits)
    qed (auto simp: allows_def run_limit_def split: if_splits)
    have "(\<exists>k \<le> length s. k \<le> 1 \<and> R (drop k s)) \<longleftrightarrow> R s \<or> (case s of [] \<Rightarrow> False | _ # s \<Rightarrow> R s)" for R
    proof (cases s)
      case (Cons x s')
      have "k \<le> 1 \<longleftrightarrow> k = 0 \<or> k = 1" for k :: nat by auto
      then show ?thesis using Cons by (auto simp: ex_disj_distrib conj_disj_distribL conj_disj_distribR)
    qed simp
    then have "glob (Question # r @ q) s \<longleftrightarrow> (\<exists>k \<le> length s. k \<le> 1 \<and> glob (r @ q) (drop k s))" by simp
    then show ?thesis using glob_drops [of s "\<lambda>k. k \<le> 1" "allows (run_limit r)" q] by (simp add: t IH a)
  qed
qed

lemma glob_literals:
  "glob (map Lit ls @ q) s \<longleftrightarrow> take (length ls) s = ls \<and> - 1 \<notin> set ls \<and> glob q (drop (length ls) s)"
  by (induction ls arbitrary: s) (auto split: list.splits)

lemma glob_starred:
  assumes "Star \<in> set (takeWhile wild q)" and "glob q (drop m s)"
  shows "glob q s"
proof -
  let ?r = "takeWhile wild q" and ?q = "dropWhile wild q"
  have r: "\<forall>t \<in> set ?r. wild t" by (auto dest: set_takeWhileD)
  have l: "run_limit ?r = - 1" using assms(1) by (simp add: run_limit_def)
  have "glob (?r @ ?q) (drop m s)" using assms(2) by simp
  then obtain k where "k \<le> length (drop m s)" "glob ?q (drop k (drop m s))" using glob_run [OF r] by blast
  then have "min (length s) (k + m) \<le> length s \<and> glob ?q (drop (min (length s) (k + m)) s)" by (auto simp: min_def)
  then have "glob (?r @ ?q) s" unfolding glob_run [OF r] l allows_def by (metis less_numeral_extra(1) neg_less_0_iff_less)
  then show ?thesis by simp
qed

section \<open>The search for a run of literals\<close>

text \<open>The literals up to the next wildcard, and the rest of the pattern.\<close>

fun lits :: "int list \<Rightarrow> int list \<times> int list" where
  "lits [] = ([], [])"
| "lits (c # cs) =
     (if c = 0x2A \<or> c = 0x3F then ([], c # cs)
      else if c = 0x5C then (case cs of [] \<Rightarrow> ([], []) | x # xs \<Rightarrow> apfst (Cons x) (lits xs))
      else apfst (Cons c) (lits cs))"

definition hit :: "int list \<times> int list \<Rightarrow> int list \<Rightarrow> bool" where
  "hit lr s \<longleftrightarrow> take (length (fst lr)) s = fst lr \<and> - 1 \<notin> set (fst lr) \<and> (snd lr = [] \<longrightarrow> length s = length (fst lr))"

lemma apfst_Cons: "apfst (Cons x) z = (ls, q) \<longleftrightarrow> (\<exists>ls'. z = (ls', q) \<and> ls = x # ls')"
  by (cases z) auto

lemma pattern_induct [case_names Nil Dangling Escape Char]:
  fixes p :: "int list"
  assumes "P []" and "P [0x5C]" and "\<And>x xs. P xs \<Longrightarrow> P (0x5C # x # xs)" and "\<And>c cs. c \<noteq> 0x5C \<Longrightarrow> P cs \<Longrightarrow> P (c # cs)"
  shows "P p"
proof (induction p rule: length_induct)
  case (1 p)
  then show ?case using assms by (cases p; cases "tl p"; cases "hd p = 0x5C") auto
qed

lemma lits_tokens: "lits p = (ls, q) \<Longrightarrow> tokens p = map Lit ls @ tokens q"
  by (induction p arbitrary: ls rule: pattern_induct) (auto simp: apfst_Cons split: if_splits)

lemma lits_rest: "lits p = (ls, q) \<Longrightarrow> q = [] \<or> hd q = 0x2A \<or> hd q = 0x3F"
  by (induction p arbitrary: ls rule: pattern_induct) (auto simp: apfst_Cons split: if_splits)

lemma lits_dangling: "lits p = (ls, q) \<Longrightarrow> \<not> dangling p \<Longrightarrow> \<not> dangling q"
  by (induction p arbitrary: ls rule: pattern_induct) (auto simp: apfst_Cons split: if_splits)

lemma lits_length: "lits p = (ls, q) \<Longrightarrow> length q \<le> length p"
  by (induction p arbitrary: ls rule: pattern_induct) (auto simp: apfst_Cons split: if_splits)

lemma hit_simps:
  "hit (c # ls, q) (x # s) \<longleftrightarrow> c = x \<and> c \<noteq> - 1 \<and> hit (ls, q) s"
  "\<not> hit (c # ls, q) []"
  "hit ([], q) s \<longleftrightarrow> (q = [] \<longrightarrow> s = [])"
  by (auto simp: hit_def)

lemma hit_length: "hit lr s \<Longrightarrow> length (fst lr) \<le> length s"
  unfolding hit_def by (metis length_take min.cobounded1)

text \<open>Where the first hit ends, within distance \<open>d\<close>.\<close>

fun first_hit :: "int list \<times> int list \<Rightarrow> int \<Rightarrow> int list \<Rightarrow> int list option" where
  "first_hit lr d [] = (if hit lr [] then Some [] else None)"
| "first_hit lr d (x # s) =
     (if hit lr (x # s) then Some (drop (length (fst lr)) (x # s)) else if d = 0 then None else first_hit lr (d - 1) s)"

lemma first_hit_short: "length s < length (fst lr) \<Longrightarrow> first_hit lr d s = None"
  by (induction s arbitrary: d) (auto dest: hit_length)

lemma first_hit_Some:
  assumes "first_hit lr d s = Some s'"
  shows "\<exists>k \<le> length s. allows d k \<and> hit lr (drop k s) \<and> s' = drop (length (fst lr)) (drop k s)"
  using assms
proof (induction s arbitrary: d)
  case Nil
  then show ?case by (auto simp: allows_def split: if_splits)
next
  case (Cons x s)
  show ?case
  proof (cases "hit lr (x # s)")
    case True
    then show ?thesis using Cons.prems by (intro exI [of _ 0]) (auto simp: allows_def)
  next
    case False
    then have d: "d \<noteq> 0" "first_hit lr (d - 1) s = Some s'" using Cons.prems by (auto split: if_splits)
    from Cons.IH [OF d(2)] obtain k where "k \<le> length s" "allows (d - 1) k" "hit lr (drop k s)"
      "s' = drop (length (fst lr)) (drop k s)" by blast
    then show ?thesis using d(1) by (intro exI [of _ "Suc k"]) (auto simp: allows_def)
  qed
qed

lemma first_hit_first:
  assumes "k \<le> length s" "allows d k" "hit lr (drop k s)"
  shows "\<exists>j \<le> k. first_hit lr d s = Some (drop (length (fst lr)) (drop j s))"
  using assms
proof (induction s arbitrary: d k)
  case (Cons x s)
  show ?case
  proof (cases "hit lr (x # s)")
    case False
    then obtain k' where k: "k = Suc k'" using Cons.prems by (cases k) auto
    then have "d \<noteq> 0" "allows (d - 1) k'" using Cons.prems by (auto simp: allows_def)
    then show ?thesis using Cons.IH [of k' "d - 1"] Cons.prems False unfolding k
      by (auto intro: exI [of _ "Suc _"])
  qed (auto intro: exI [of _ 0])
qed auto

lemma take_all_length: "take (length ls) s = ls \<Longrightarrow> length ls \<le> length s"
  by (metis length_take min.cobounded1)

text \<open>The step of a match: a run of wildcards, the literals behind it, and the rest of the pattern.\<close>

lemma glob_segment:
  assumes r: "\<forall>t \<in> set r. wild t" and l: "lits p = (ls, q)"
  shows "glob (r @ tokens p) s \<longleftrightarrow>
    (\<exists>k \<le> length s. allows (run_limit r) k \<and> hit (ls, q) (drop k s) \<and> glob (tokens q) (drop (length ls) (drop k s)))"
proof -
  have "hit (ls, q) s \<and> glob (tokens q) (drop (length ls) s) \<longleftrightarrow> glob (tokens p) s" for s
    unfolding lits_tokens [OF l] glob_literals hit_def
    by (cases "q = []") (auto simp: drop_eq_Nil2 intro: le_antisym dest: take_all_length)
  then show ?thesis unfolding glob_run [OF r] by (simp del: drop_drop)
qed

lemma all_stars_literals: "all_stars (map Lit ls @ q) = all_stars q"
  by (induction ls) auto

lemma all_stars_run: "all_stars q \<Longrightarrow> q \<noteq> [] \<Longrightarrow> wild (hd q) \<Longrightarrow> Star \<in> set (takeWhile wild q) \<and> all_stars (dropWhile wild q)"
  by (cases q rule: all_stars.cases) auto

lemma lits_shorter: "lits p = (ls, q) \<Longrightarrow> p \<noteq> [] \<Longrightarrow> hd p \<noteq> 0x2A \<Longrightarrow> hd p \<noteq> 0x3F \<Longrightarrow> length q < length p"
  by (cases p) (auto simp: apfst_Cons le_imp_less_Suc less_Suc_eq dest: lits_length split: if_splits list.splits)

lemma lits_some: "lits p = (ls, q) \<Longrightarrow> \<not> dangling p \<Longrightarrow> p \<noteq> [] \<Longrightarrow> hd p \<noteq> 0x2A \<Longrightarrow> hd p \<noteq> 0x3F \<Longrightarrow> ls \<noteq> []"
  by (cases p) (auto simp: apfst_Cons split: if_splits list.splits)

lemma wild_literals: "dropWhile (\<lambda>t. \<not> wild t) (map Lit ls @ q) = dropWhile (\<lambda>t. \<not> wild t) q"
  by (induction ls) auto

lemma wild_tokens: "p \<noteq> [] \<Longrightarrow> hd p = 0x2A \<or> hd p = 0x3F \<Longrightarrow> tokens p \<noteq> [] \<and> wild (hd (tokens p))"
  by (cases p) auto

text \<open>Going to the first place where the literals occur loses nothing if the next run of wildcards contains a \<open>*\<close>.\<close>

lemma first_hit_step:
  assumes r: "\<forall>t \<in> set r. wild t" and l: "lits p = (ls, q)" and ls: "ls \<noteq> []" and q: "q \<noteq> []"
    and s: "first_hit (ls, q) (run_limit r) t = Some s"
  shows "glob (tokens q) s \<Longrightarrow> glob (r @ tokens p) t"
    and "searchable (r @ tokens p) \<Longrightarrow> searchable (tokens q)"
    and "searchable (r @ tokens p) \<Longrightarrow> glob (r @ tokens p) t \<Longrightarrow> glob (tokens q) s"
proof -
  note g = glob_segment [OF r l]
  have w: "tokens q \<noteq> []" "wild (hd (tokens q))" using wild_tokens [OF q] lits_rest [OF l] q by auto
  then have d: "dropWhile (\<lambda>t. \<not> wild t) (tokens q) = tokens q" by (cases "tokens q") auto
  have run: "searchable (r @ tokens p) \<longleftrightarrow> all_stars (tokens q)" if "r \<noteq> []"
  proof -
    have "dropWhile (\<lambda>t. \<not> wild t) (r @ tokens p) = r @ tokens p" using r that by (cases r) auto
    moreover have "dropWhile wild (r @ tokens p) = tokens p"
      using ls by (simp add: dropWhile_append2 r lits_tokens [OF l]) (cases ls, auto)
    ultimately show ?thesis by (simp add: searchable_def lits_tokens [OF l] all_stars_literals)
  qed
  show "glob (tokens q) s \<Longrightarrow> glob (r @ tokens p) t"
    using first_hit_Some [OF s] unfolding g by (auto simp del: drop_drop)
  show "searchable (r @ tokens p) \<Longrightarrow> searchable (tokens q)"
    using run all_stars_run [OF _ w] d
    by (cases "r = []") (auto simp: searchable_def lits_tokens [OF l] wild_literals)
  assume S: "searchable (r @ tokens p)" and G: "glob (r @ tokens p) t"
  then obtain k where k: "k \<le> length t" "allows (run_limit r) k" "hit (ls, q) (drop k t)"
    "glob (tokens q) (drop (length ls) (drop k t))" unfolding g by blast
  from first_hit_first [OF k(1-3)] s obtain j where j: "j \<le> k" "s = drop (length ls) (drop j t)" by auto
  show "glob (tokens q) s"
  proof (cases "r = []")
    case True
    then have "k = 0" using k(2) by (simp add: allows_def run_limit_def)
    then show ?thesis using k(4) j by simp
  next
    case False
    then have "Star \<in> set (takeWhile wild (tokens q))" using run S all_stars_run [OF _ w] by blast
    moreover have "drop (length ls) (drop k t) = drop (k - j) s" using j by (simp add: add.commute)
    ultimately show ?thesis using glob_starred k(4) by metis
  qed
qed

section \<open>The loops\<close>

locale char_reader =
  fixes nextc :: "'w::len word reader" and chars :: "'w word list \<Rightarrow> int list"
  assumes chars_Nil: "chars [] = []"
    and next_char: "s \<noteq> [] \<Longrightarrow> \<exists>c s'. nextc s = Some (c, s') \<and> length s' < length s \<and> chars s = c # chars s' \<and>
      (hd s = 0x2A \<longleftrightarrow> c = 0x2A) \<and> (hd s = 0x3F \<longleftrightarrow> c = 0x3F) \<and> (hd s = 0x5C \<longleftrightarrow> c = 0x5C)"
begin

lemma chars_Nil_iff [simp]: "chars s = [] \<longleftrightarrow> s = []"
  using chars_Nil next_char [of s] by (cases "s = []") auto

lemma read:
  assumes "s \<noteq> []"
  obtains c s' where "nextc s = Some (c, s')" "length s' < length s" "chars s = c # chars s'"
    "hd s = 0x2A \<longleftrightarrow> c = 0x2A" "hd s = 0x3F \<longleftrightarrow> c = 0x3F" "hd s = 0x5C \<longleftrightarrow> c = 0x5C"
  using next_char [OF assms] by blast

lemma chars_length: "length (chars s) \<le> length s"
proof (induction "length s" arbitrary: s rule: less_induct)
  case less
  show ?case
  proof (cases "s = []")
    case False
    from read [OF False] obtain c s' where "length s' < length s" "chars s = c # chars s'" by metis
    then show ?thesis using less [of s'] by simp
  qed (simp add: chars_Nil)
qed

lemma EatWildcards_run:
  assumes "int (length (chars p)) + n < 2 ^ 31" "0 \<le> n"
  shows "\<exists>p' r. eat_loop nextc p n a = Some (if a \<or> Star \<in> set r then - 1 else n + int (length r), p') \<and>
    tokens (chars p) = r @ tokens (chars p') \<and> (\<forall>t \<in> set r. wild t) \<and> length r + length (chars p') = length (chars p) \<and>
    (dangling (chars p) \<longleftrightarrow> dangling (chars p')) \<and> (p' = [] \<or> hd (chars p') \<noteq> 0x2A \<and> hd (chars p') \<noteq> 0x3F)"
  using assms
proof (induction "length p" arbitrary: p n a rule: less_induct)
  case less
  show ?case
  proof (cases "p = []")
    case True
    then show ?thesis by (subst eat_loop.simps) (auto simp: chars_Nil)
  next
    case False
    from read [OF False] obtain c s where p: "nextc p = Some (c, s)" "length s < length p" "chars p = c # chars s"
      "hd p = 0x2A \<longleftrightarrow> c = 0x2A" "hd p = 0x3F \<longleftrightarrow> c = 0x3F" by metis
    consider "c = 0x2A" | "c = 0x3F" | "c \<noteq> 0x2A" "c \<noteq> 0x3F" by blast
    then show ?thesis
    proof cases
      case 1
      then have e: "eat_loop nextc p n a = eat_loop nextc s n True" using False p by (subst eat_loop.simps) auto
      from less.hyps [of s n True] less.prems p(2,3) obtain p' r where "eat_loop nextc s n True = Some (- 1, p')"
        "tokens (chars s) = r @ tokens (chars p')" "\<forall>t \<in> set r. wild t" "length r + length (chars p') = length (chars s)"
        "dangling (chars s) \<longleftrightarrow> dangling (chars p')" "p' = [] \<or> hd (chars p') \<noteq> 0x2A \<and> hd (chars p') \<noteq> 0x3F" by auto
      then show ?thesis using e p 1 by (intro exI [of _ p'] exI [of _ "Star # r"]) auto
    next
      case 2
      then have e: "eat_loop nextc p n a = eat_loop nextc s (n + 1) a"
        using False p less.prems by (subst eat_loop.simps) (auto simp: within_int_def)
      from less.hyps [of s "n + 1" a] less.prems p(2,3) obtain p' r where
        "eat_loop nextc s (n + 1) a = Some (if a \<or> Star \<in> set r then - 1 else n + 1 + int (length r), p')"
        "tokens (chars s) = r @ tokens (chars p')" "\<forall>t \<in> set r. wild t" "length r + length (chars p') = length (chars s)"
        "dangling (chars s) \<longleftrightarrow> dangling (chars p')" "p' = [] \<or> hd (chars p') \<noteq> 0x2A \<and> hd (chars p') \<noteq> 0x3F" by auto
      then show ?thesis using e p 2 by (intro exI [of _ p'] exI [of _ "Question # r"]) auto
    next
      case 3
      then have "eat_loop nextc p n a = Some (if a then - 1 else n, p)" using p by (subst eat_loop.simps) auto
      then show ?thesis using 3 p by (intro exI [of _ p] exI [of _ "[]"]) auto
    qed
  qed
qed

text \<open>One attempt to match the literals at \<open>t\<close>, begun at \<open>t0\<close>: it succeeds, finds the string too short, or restarts.\<close>

lemma attempt:
  assumes "lits (if e then 0x5C # chars p else chars p) = lr" "\<not> dangling (if e then 0x5C # chars p else chars p)"
  shows "if hit lr (chars t)
    then \<exists>p' t'. search_loop nextc p0 (t0, p, t, e, d) = Some (True, p', t') \<and> chars p' = snd lr \<and>
      chars t' = drop (length (fst lr)) (chars t)
    else (\<exists>p' t'. search_loop nextc p0 (t0, p, t, e, d) = Some (False, p', t')) \<and> length (chars t) < length (fst lr) \<or>
      t \<noteq> [] \<and> (\<exists>p' t'. search_loop nextc p0 (t0, p, t, e, d) =
        (case mismatch nextc p0 (t0, p', t', False, d) of None \<Rightarrow> None
         | Some r \<Rightarrow> (case r of Inl res \<Rightarrow> Some res | Inr st \<Rightarrow> search_loop nextc p0 st)))"
  using assms
proof (induction "length p" arbitrary: p t e lr rule: less_induct)
  case less
  note loop = search_loop.simps [of nextc p0 "(t0, p, t, e, d)"]
  show ?case
  proof (cases "p = []")
    case True
    then have e: "\<not> e" and lr: "lr = ([], [])" using less.prems by (auto simp: chars_Nil split: if_splits)
    show ?thesis
    proof (cases "t = []")
      case False
      then show ?thesis using True e lr
        by (subst loop) (auto simp: hit_simps search_step_def)
    qed (use True e lr in \<open>subst loop, auto simp: hit_simps search_step_def chars_Nil\<close>)
  next
    case False
    from read [OF False] obtain c q where p: "nextc p = Some (c, q)" "length q < length p" "chars p = c # chars q"
      "hd p = 0x2A \<longleftrightarrow> c = 0x2A" "hd p = 0x3F \<longleftrightarrow> c = 0x3F" "hd p = 0x5C \<longleftrightarrow> c = 0x5C" by metis
    consider "\<not> e" "c = 0x2A \<or> c = 0x3F" | "\<not> e" "c = 0x5C" | "e \<or> c \<noteq> 0x2A \<and> c \<noteq> 0x3F \<and> c \<noteq> 0x5C" by blast
    then show ?thesis
    proof cases
      case 1
      then have "lr = ([], c # chars q)" using less.prems p by auto
      then show ?thesis using 1 p False
        by (subst loop) (auto simp: hit_simps search_step_def IsWildcard_def)
    next
      case 2
      then have "search_loop nextc p0 (t0, p, t, e, d) = search_loop nextc p0 (t0, q, t, True, d)"
        using p False by (subst loop) (auto simp: search_step_def IsWildcard_def)
      moreover have "lits (0x5C # chars q) = lr" "\<not> dangling (0x5C # chars q)" using less.prems 2 p by auto
      ultimately show ?thesis using less.hyps [OF p(2), of True lr t] by simp
    next
      case 3
      then have lr: "lr = (c # fst (lits (chars q)), snd (lits (chars q)))" "\<not> dangling (chars q)"
        using less.prems p by (auto simp: apfst_def map_prod_def split: prod.splits if_splits)
      show ?thesis
      proof (cases "t = []")
        case True
        then have "search_loop nextc p0 (t0, p, t, e, d) = Some (False, p, t)"
          using 3 p False by (subst loop) (auto simp: search_step_def IsWildcard_def)
        then show ?thesis using True lr by (simp add: hit_simps chars_Nil)
      next
        case t: False
        from read [OF t] obtain x u where u: "nextc t = Some (x, u)" "length u < length t" "chars t = x # chars u" by metis
        have "search_step nextc p0 (t0, p, t, e, d) = (if c = x \<and> c \<noteq> CBU_SENTINEL then Some (Inr (t0, q, u, False, d))
            else mismatch nextc p0 (t0, p, t, False, d))"
          using 3 p u t False by (auto simp: search_step_def IsWildcard_def)
        then show ?thesis
          using less.hyps [OF p(2), of False "lits (chars q)" u] lr u t unfolding loop
          by (auto simp: hit_simps CBU_SENTINEL_def)
      qed
    qed
  qed
qed

lemma SearchForChars_first_hit:
  assumes "lits (chars p) = lr" "\<not> dangling (chars p)" "int (length (chars t)) - 2 ^ 31 \<le> d" "d < 2 ^ 31"
  shows "case first_hit lr d (chars t) of
    None \<Rightarrow> \<exists>p' t'. search_loop nextc p (t, p, t, False, d) = Some (False, p', t')
  | Some s \<Rightarrow> \<exists>p' t'. search_loop nextc p (t, p, t, False, d) = Some (True, p', t') \<and> chars p' = snd lr \<and> chars t' = s"
  using assms(3,4)
proof (induction "length t" arbitrary: t d rule: less_induct)
  case less
  note a = attempt [of False p lr t p t d, simplified, OF assms(1,2)]
  show ?case
  proof (cases "hit lr (chars t)")
    case True
    then show ?thesis using a by (cases "chars t") (auto simp: chars_Nil)
  next
    case False
    from a False consider p' t' where "search_loop nextc p (t, p, t, False, d) = Some (False, p', t')" "length (chars t) < length (fst lr)"
      | p' t' where "t \<noteq> []" "search_loop nextc p (t, p, t, False, d) =
          (case mismatch nextc p (t, p', t', False, d) of None \<Rightarrow> None
           | Some r \<Rightarrow> (case r of Inl res \<Rightarrow> Some res | Inr st \<Rightarrow> search_loop nextc p st))" by auto
    then show ?thesis
    proof cases
      case 1
      then show ?thesis by (simp add: first_hit_short)
    next
      case 2
      from read [OF 2(1)] obtain x u where u: "nextc t = Some (x, u)" "length u < length t" "chars t = x # chars u" by metis
      show ?thesis
      proof (cases "d = 0")
        case True
        then show ?thesis using 2(2) u(3) False by (simp add: mismatch_def)
      next
        case d: False
        then have "search_loop nextc p (t, p, t, False, d) = search_loop nextc p (u, p, u, False, d - 1)"
          using 2(2) u less.prems by (simp add: mismatch_def within_int_def)
        then show ?thesis using less.hyps [OF u(2), of "d - 1"] less.prems u d False by (simp cong: option.case_cong)
      qed
    qed
  qed
qed

lemma EatWildcards_segment:
  assumes "length (chars p) < 2 ^ 31"
  shows "\<exists>q r. EatWildcards nextc p = Some (run_limit r, q) \<and>
    tokens (chars p) = r @ tokens (chars q) \<and> (\<forall>t \<in> set r. wild t) \<and> length r + length (chars q) = length (chars p) \<and>
    (dangling (chars p) \<longleftrightarrow> dangling (chars q)) \<and> (q = [] \<or> hd (chars q) \<noteq> 0x2A \<and> hd (chars q) \<noteq> 0x3F)"
  using EatWildcards_run [of p 0 False] assms unfolding EatWildcards_def run_limit_def add_0 by auto

lemma MatchPatternT_glob:
  assumes "\<not> dangling (chars p)" "length (chars p) < 2 ^ 31" "length (chars t) < 2 ^ 31"
  shows "\<exists>r. MatchPatternT nextc t p = Some r \<and> (r \<longrightarrow> glob (tokens (chars p)) (chars t)) \<and>
    (searchable (tokens (chars p)) \<longrightarrow> r = glob (tokens (chars p)) (chars t))"
  using assms
proof (induction "length (chars p)" arbitrary: p t rule: less_induct)
  case less
  from EatWildcards_segment [OF less.prems(2)] obtain q r where
    e: "EatWildcards nextc p = Some (run_limit r, q)" and q: "tokens (chars p) = r @ tokens (chars q)" "\<forall>t \<in> set r. wild t"
      "length r + length (chars q) = length (chars p)" "dangling (chars p) \<longleftrightarrow> dangling (chars q)"
      "q = [] \<or> hd (chars q) \<noteq> 0x2A \<and> hd (chars q) \<noteq> 0x3F" by blast
  obtain ls rest where l: "lits (chars q) = (ls, rest)" by fastforce
  have d: "int (length (chars t)) - 2 ^ 31 \<le> run_limit r" "run_limit r < 2 ^ 31"
    using less.prems q(3) by (simp_all add: run_limit_def)
  have D: "\<not> dangling (chars q)" using less.prems q by simp
  note f = SearchForChars_first_hit [OF l D d] and g = glob_segment [OF q(2) l]
  show ?case
  proof (cases "first_hit (ls, rest) (run_limit r) (chars t)")
    case None
    then have "MatchPatternT nextc t p = Some False"
      using f e by (subst MatchPatternT.simps) (auto simp: SearchForChars_def)
    moreover have "\<not> glob (tokens (chars p)) (chars t)"
      unfolding q(1) g using first_hit_first [of _ "chars t" "run_limit r" "(ls, rest)"] None by fastforce
    ultimately show ?thesis by auto
  next
    case (Some s)
    then obtain p' t' where "SearchForChars nextc q t (run_limit r) = Some (True, p', t')" and p': "chars p' = rest" "chars t' = s"
      using f by (auto simp: SearchForChars_def)
    then have m: "MatchPatternT nextc t p = (if rest = [] then Some True else MatchPatternT nextc t' p')"
      using e by (subst MatchPatternT.simps) (auto simp: chars_Nil)
    show ?thesis
    proof (cases "rest = []")
      case True
      then have "glob (tokens (chars p)) (chars t)" unfolding q(1) g
        using first_hit_Some [OF Some] by (auto simp: hit_def simp del: drop_drop)
      then show ?thesis using m True by auto
    next
      case False
      then have "q \<noteq> []" using l by (auto simp: chars_Nil)
      then have short: "length rest < length (chars q)" and ls: "ls \<noteq> []"
        using lits_shorter [OF l] lits_some [OF l D] q(5) by auto
      have "length s \<le> length (chars t)" using first_hit_Some [OF Some] by auto
      then have "\<exists>r'. MatchPatternT nextc t' p' = Some r' \<and> (r' \<longrightarrow> glob (tokens rest) s) \<and>
          (searchable (tokens rest) \<longrightarrow> r' = glob (tokens rest) s)"
        using less.hyps [of p' t'] short q(3) lits_dangling [OF l D] less.prems(2,3) unfolding p' by simp
      then obtain r' where r': "MatchPatternT nextc t' p' = Some r'" "r' \<longrightarrow> glob (tokens rest) s"
          "searchable (tokens rest) \<longrightarrow> r' = glob (tokens rest) s" by blast
      have "MatchPatternT nextc t p = Some r'" using m False r'(1) by simp
      then show ?thesis unfolding q(1) using r'(2,3) first_hit_step [OF q(2) l ls False Some] by blast
    qed
  qed
qed

end

section \<open>UTF-8 and UTF-16\<close>

lemma table_next_ascii:
  assumes "\<forall>u \<in> set (a # us). 0 \<le> u" and "table_next (a # us) = (r, n)" and "0 \<le> x" "x < 0x80"
  shows "r = Some x \<longleftrightarrow> a = x"
proof
  assume "r = Some x"
  then have "take n (a # us) = utf8 x" using table_next_sound [of "a # us" x n] assms by simp
  then show "a = x" using assms by (cases n) (auto simp: utf8_def)
qed (use assms in \<open>auto simp: table_next_def\<close>)

interpretation next8: char_reader NextCharUTF8 chars8
proof
  show "chars8 [] = []" by (simp add: chars8_def decode8.simps)
next
  fix s :: "byte list"
  assume s: "s \<noteq> []"
  then obtain a us where a: "map uint s = a # us" and h: "a = uint (hd s)" by (cases s) auto
  obtain r n where t: "table_next (a # us) = (r, n)" by fastforce
  have pos: "\<forall>u \<in> set (a # us). 0 \<le> u" unfolding a [symmetric] by auto
  let ?c = "case r of None \<Rightarrow> - 1 | Some c \<Rightarrow> c"
  have "NextCharUTF8 s = Some (?c, drop n s)"
    using s next_table [of 0 s] by (simp add: NextCharUTF8_def a t)
  moreover have "length (drop n s) < length s" using s table_next_bound [OF _ t] by simp
  moreover have "chars8 s = ?c # chars8 (drop n s)"
    unfolding chars8_def by (subst decode8.simps) (simp add: a t flip: drop_map)
  moreover have "a = x \<longleftrightarrow> ?c = x" if "0 \<le> x" "x < 0x80" for x
    using table_next_ascii [OF pos t that] that by (auto split: option.splits)
  then have "a = 0x2A \<longleftrightarrow> ?c = 0x2A" "a = 0x3F \<longleftrightarrow> ?c = 0x3F" "a = 0x5C \<longleftrightarrow> ?c = 0x5C" by simp_all
  ultimately show "\<exists>c s'. NextCharUTF8 s = Some (c, s') \<and> length s' < length s \<and> chars8 s = c # chars8 s' \<and>
      (hd s = 0x2A \<longleftrightarrow> c = 0x2A) \<and> (hd s = 0x3F \<longleftrightarrow> c = 0x3F) \<and> (hd s = 0x5C \<longleftrightarrow> c = 0x5C)"
    unfolding h by (intro exI [of _ ?c] exI [of _ "drop n s"]) (simp add: word_uint_eq_iff)
qed

interpretation next16: char_reader NextCharUTF16 chars16
proof
  fix s :: "char16 list"
  assume s: "s \<noteq> []"
  let ?P = "\<lambda>c s'. NextCharUTF16 s = Some (c, s') \<and> length s' < length s \<and> chars16 s = c # chars16 s' \<and>
      (hd s = 0x2A \<longleftrightarrow> c = 0x2A) \<and> (hd s = 0x3F \<longleftrightarrow> c = 0x3F) \<and> (hd s = 0x5C \<longleftrightarrow> c = 0x5C)"
  have ascii: "(u = 0x2A \<longleftrightarrow> uint u = 0x2A) \<and> (u = 0x3F \<longleftrightarrow> uint u = 0x3F) \<and> (u = 0x5C \<longleftrightarrow> uint u = 0x5C)" for u :: char16
    by (simp add: word_uint_eq_iff)
  show "\<exists>c s'. ?P c s'"
  proof (cases s rule: chars16.cases)
    case (2 u)
    then have "?P (uint u) []" using ascii by (simp add: NextCharUTF16_def CBU16_NEXT_def)
    then show ?thesis by blast
  next
    case (3 u v us)
    let ?p = "0xD800 \<le> uint u \<and> uint u < 0xDC00 \<and> 0xDC00 \<le> uint v \<and> uint v < 0xE000"
    have p: "CBU16_IS_LEAD (uint u) \<and> CBU16_IS_TRAIL (uint v) \<longleftrightarrow> ?p"
      using surrogate_tests(1) [OF unit_bounds, of u] surrogate_tests(2) [OF unit_bounds, of v] by auto
    have "NextCharUTF16 s = Some (if ?p then (CBU16_GET_SUPPLEMENTARY (uint u) (uint v), us) else (uint u, v # us))"
      using 3 p by (auto simp: NextCharUTF16_def CBU16_NEXT_def Let_def)
    then have "if ?p then ?P (0x10000 + 1024 * (uint u - 0xD800) + (uint v - 0xDC00)) us else ?P (uint u) (v # us)"
      using 3 ascii [of u] by (auto simp: supplementary)
    then show ?thesis by (auto split: if_splits)
  qed (use s in simp)
qed simp

text \<open>Evaluation on ASCII strings.\<close>

lemma NextCharUTF8_ascii: "x < 0x80 \<Longrightarrow> NextCharUTF8 (x # s) = Some (uint x, s)"
  using next_table [of 0 "x # s"] by (simp add: NextCharUTF8_def table_next_def word_less_def)

lemma NextCharUTF16_ascii: "x < 0x80 \<Longrightarrow> NextCharUTF16 (x # s) = Some (uint x, s)"
  using surrogate_tests(1) [OF unit_bounds, of x] by (simp add: NextCharUTF16_def CBU16_NEXT_def word_less_def)

lemmas match_eval = MatchPattern_def MatchPattern16_def MatchPatternT.simps EatWildcards_def eat_loop.simps SearchForChars_def
  search_loop.simps search_step_def mismatch_def within_int_def IsWildcard_def NextCharUTF8_ascii NextCharUTF16_ascii CBU_SENTINEL_def

section \<open>Properties\<close>

text \<open>
  C32: Matching wildcards.  For a pattern with no dangling escape character, \<open>MatchPattern\<close> ends on every string without
  reading outside it; if it says that the string matches, it does, in the sense of \<open>pattern.h\<close>; and if every run of
  wildcards but the first contains a \<open>*\<close>, it says so exactly when the string matches.  Both widths.
\<close>

theorem MatchPattern_correct:
  fixes eval pattern :: "byte list" and eval16 pattern16 :: "char16 list"
  assumes "length eval < 2 ^ 31" "length pattern < 2 ^ 31" "\<not> dangling (chars8 pattern)"
    and "length eval16 < 2 ^ 31" "length pattern16 < 2 ^ 31" "\<not> dangling (chars16 pattern16)"
  shows "(\<exists>r. MatchPattern eval pattern = Some r \<and> (r \<longrightarrow> glob (tokens (chars8 pattern)) (chars8 eval)) \<and>
      (searchable (tokens (chars8 pattern)) \<longrightarrow> r = glob (tokens (chars8 pattern)) (chars8 eval))) \<and>
    (\<exists>r. MatchPattern16 eval16 pattern16 = Some r \<and> (r \<longrightarrow> glob (tokens (chars16 pattern16)) (chars16 eval16)) \<and>
      (searchable (tokens (chars16 pattern16)) \<longrightarrow> r = glob (tokens (chars16 pattern16)) (chars16 eval16)))"
  using next8.MatchPatternT_glob [of pattern eval] next16.MatchPatternT_glob [of pattern16 eval16] assms
    next8.chars_length [of pattern] next8.chars_length [of eval] next16.chars_length [of pattern16] next16.chars_length [of eval16]
  unfolding MatchPattern_def MatchPattern16_def by (intro conjI) auto

theorem MatchPattern_correct_witness:
  "MatchPattern [0x61, 0x62, 0x63] [0x61, 0x2A, 0x63] = Some True \<and> MatchPattern16 [0x61, 0x62] [0x5C, 0x3F, 0x2A] = Some False"
proof -
  have "tokens (chars8 [0x61, 0x2A, 0x63]) = [Lit 0x61, Star, Lit 0x63]" "\<not> dangling (chars8 [0x61, 0x2A, 0x63])"
    "chars8 [0x61, 0x62, 0x63] = [0x61, 0x62, 0x63]" by code_simp+
  moreover have "glob [Lit 0x61, Star, Lit 0x63] [0x61, 0x62, 0x63]" by code_simp
  moreover have "\<not> glob [Lit 0x3F, Star] [0x61, 0x62]" by code_simp
  moreover have "searchable [Lit 0x61, Star, Lit 0x63]" "searchable [Lit 0x3F, Star]" by (simp_all add: searchable_def)
  ultimately show ?thesis
    using MatchPattern_correct [of "[0x61, 0x62, 0x63]" "[0x61, 0x2A, 0x63]" "[0x61, 0x62]" "[0x5C, 0x3F, 0x2A]"] by auto
qed

text \<open>
  Where the search is not complete.  After a run of wildcards the search takes the first place where the literals occur
  and never another one: \<open>aaab\<close> matches \<open>*a?b\<close> and \<open>?a?b\<close> in the sense of \<open>pattern.h\<close>, but
  \<open>MatchPattern\<close> rejects both.  A dangling escape character turns the first character of the literals into an escaped one
  after a restart: \<open>x\<close> is rejected by a \<open>*\<close> with a backslash behind it.
\<close>

lemma MatchPattern_misses_matches:
  "MatchPattern [0x61, 0x61, 0x61, 0x62] [0x2A, 0x61, 0x3F, 0x62] = Some False \<and>
   glob (tokens (chars8 [0x2A, 0x61, 0x3F, 0x62])) (chars8 [0x61, 0x61, 0x61, 0x62]) \<and>
   MatchPattern [0x61, 0x61, 0x61, 0x62] [0x3F, 0x61, 0x3F, 0x62] = Some False \<and>
   glob (tokens (chars8 [0x3F, 0x61, 0x3F, 0x62])) (chars8 [0x61, 0x61, 0x61, 0x62]) \<and>
   MatchPattern [0x78] [0x2A, 0x5C] = Some False \<and> glob (tokens (chars8 [0x2A, 0x5C])) (chars8 [0x78])"
proof (intro conjI)
  show "MatchPattern [0x61, 0x61, 0x61, 0x62] [0x2A, 0x61, 0x3F, 0x62] = Some False" by (simp add: match_eval)
  show "MatchPattern [0x61, 0x61, 0x61, 0x62] [0x3F, 0x61, 0x3F, 0x62] = Some False" by (simp add: match_eval)
  show "MatchPattern [0x78] [0x2A, 0x5C] = Some False" by (simp add: match_eval)
qed code_simp+

end
