(* ===== verification/String_Replace.thy ===== *)
theory String_Replace
  imports Libchrome_Prelude
begin

text \<open>
  Replacing characters and substrings in place (\<open>DoReplaceMatchesAfterOffset\<close> in \<open>base/strings/string_util.cc\<close>).

  A string is the list of its code units; its capacity is an argument.  Offsets are natural numbers, \<open>npos\<close> is \<open>None\<close>;
  the two sums that can exceed a \<open>size_t\<close> wrap.  A copy or move outside the string, a position that \<open>std::string\<close>
  rejects, and a loop that does not end give \<open>None\<close>.  The replacement does not overlap the string.  The template
  parameter \<open>Matcher\<close> is the pair of its functions; \<open>matcher_class\<close> is what the routine needs of it, and both matchers
  of the source interpret it.

  The reference is \<open>replace_all\<close>, which reads the string from left to right.
\<close>

section \<open>std::string\<close>

definition match_here :: "'a list \<Rightarrow> 'a list \<Rightarrow> bool" where
  "match_here this t \<longleftrightarrow> take (length this) t = this"

text \<open>The first position from \<open>pos\<close> on where the rest of the string satisfies \<open>P\<close>.\<close>

definition first_from :: "('a list \<Rightarrow> bool) \<Rightarrow> 'a list \<Rightarrow> nat \<Rightarrow> nat option" where
  "first_from P s pos = find (\<lambda>i. P (drop i s)) [pos..<length s]"

definition copy_at :: "nat \<Rightarrow> 'a list \<Rightarrow> 'a list \<Rightarrow> 'a list option" where
  "copy_at off xs s = (if off + length xs \<le> length s then Some (take off s @ xs @ drop (off + length xs) s) else None)"

definition string_replace :: "nat \<Rightarrow> nat \<Rightarrow> 'a list \<Rightarrow> 'a list \<Rightarrow> 'a list option" where
  "string_replace pos len xs s = (if pos \<le> length s then Some (take pos s @ xs @ drop (pos + len) s) else None)"

definition resize_to :: "nat \<Rightarrow> 'w::len word list \<Rightarrow> 'w word list" where
  "resize_to n s = take n s @ replicate (n - length s) 0"

section \<open>The program\<close>

type_synonym 'u find = "'u list \<Rightarrow> nat \<Rightarrow> nat option"

definition SubstringMatcher_Find :: "'u list \<Rightarrow> 'u find" where
  "SubstringMatcher_Find find_this input pos = first_from (match_here find_this) input pos"

definition SubstringMatcher_MatchSize :: "'u list \<Rightarrow> nat" where
  "SubstringMatcher_MatchSize find_this = length find_this"

definition CharacterMatcher_Find :: "'u list \<Rightarrow> 'u find" where
  "CharacterMatcher_Find find_any_of_these input pos = first_from (\<lambda>t. t \<noteq> [] \<and> hd t \<in> set find_any_of_these) input pos"

definition CharacterMatcher_MatchSize :: nat where
  "CharacterMatcher_MatchSize = 1"

datatype ReplaceType = REPLACE_ALL | REPLACE_FIRST

partial_function (option) equal_length_loop :: "'u find \<Rightarrow> 'u list \<Rightarrow> nat \<Rightarrow> 'u list \<Rightarrow> 'u list option" where
  "equal_length_loop Find replace_with offset str =
     (case copy_at offset replace_with str of None \<Rightarrow> None
      | Some str \<Rightarrow> (case Find str (offset + length replace_with) of None \<Rightarrow> Some str
                     | Some offset \<Rightarrow> equal_length_loop Find replace_with offset str))"

partial_function (option) count_loop ::
  "'u find \<Rightarrow> nat \<Rightarrow> 'u list \<Rightarrow> nat \<Rightarrow> nat option \<Rightarrow> nat \<Rightarrow> nat \<Rightarrow> (nat \<times> nat) option" where
  "count_loop Find find_length str expansion_per_match match expansion num_matches =
     (case match of None \<Rightarrow> Some (expansion, num_matches)
      | Some match \<Rightarrow> count_loop Find find_length str expansion_per_match (Find str (match + find_length))
                       ((expansion + expansion_per_match) mod 2 ^ 64) (num_matches + 1))"

partial_function (option) append_loop ::
  "'u find \<Rightarrow> nat \<Rightarrow> 'u list \<Rightarrow> 'u list \<Rightarrow> nat option \<Rightarrow> nat \<Rightarrow> nat \<Rightarrow> 'u list \<Rightarrow> (nat \<times> 'u list) option" where
  "append_loop Find find_length replace_with src match num_matches pos str =
     (case match of None \<Rightarrow> None
      | Some match \<Rightarrow>
          let str = str @ take (match - pos) (drop pos src) @ replace_with; pos = match + find_length
          in if num_matches = 1 then Some (pos, str)
             else append_loop Find find_length replace_with src (Find src pos) (num_matches - 1) pos str)"

partial_function (option) move_loop ::
  "'u find \<Rightarrow> nat \<Rightarrow> 'u list \<Rightarrow> nat \<Rightarrow> nat \<Rightarrow> nat \<Rightarrow> 'u list \<Rightarrow> (nat \<times> 'u list) option" where
  "move_loop Find find_length replace_with str_length write_offset read_offset str =
     (case (if replace_with \<noteq> [] then copy_at write_offset replace_with str else Some str) of None \<Rightarrow> None
      | Some str \<Rightarrow>
          (let write_offset = write_offset + length replace_with; read_offset = read_offset + find_length;
               match = (case Find str read_offset of None \<Rightarrow> str_length | Some m \<Rightarrow> min m str_length);
               n = match - read_offset
           in if match < read_offset then None
              else (case (if n \<noteq> 0 then copy_at write_offset (take n (drop read_offset str)) str else Some str) of None \<Rightarrow> None
                    | Some str \<Rightarrow>
                        if read_offset + n < str_length
                        then move_loop Find find_length replace_with str_length (write_offset + n) (read_offset + n) str
                        else Some (write_offset + n, str))))"

text \<open>The string is expanded by shifting what follows the first match to its final place.\<close>

definition expand :: "nat \<Rightarrow> nat \<Rightarrow> nat \<Rightarrow> 'w::len word list \<Rightarrow> 'w word list option" where
  "expand first_match find_length expansion str =
     (let shift_src = first_match + find_length; shift_dst = shift_src + expansion; str_length = length str;
          str = (if str_length < shift_dst then resize_to shift_dst str else str)
      in string_replace shift_dst (str_length - shift_src) (take (str_length - shift_src) (drop shift_src str)) str)"

definition move_and_truncate ::
  "'w::len word find \<Rightarrow> nat \<Rightarrow> 'w word list \<Rightarrow> nat \<Rightarrow> nat \<Rightarrow> nat \<Rightarrow> 'w word list \<Rightarrow> (bool \<times> 'w word list) option" where
  "move_and_truncate Find find_length replace_with first_match expansion str_length str =
     (case move_loop Find find_length replace_with str_length first_match (first_match + expansion) str of None \<Rightarrow> None
      | Some (write_offset, str) \<Rightarrow> Some (True, resize_to write_offset str))"

definition DoReplaceMatchesAfterOffset ::
  "'w::len word find \<Rightarrow> nat \<Rightarrow> 'w word list \<Rightarrow> ReplaceType \<Rightarrow> nat \<Rightarrow> nat \<Rightarrow> 'w word list \<Rightarrow> (bool \<times> 'w word list) option" where
  "DoReplaceMatchesAfterOffset Find find_length replace_with replace_type capacity initial_offset str =
     (if find_length = 0 then Some (False, str)
      else (case Find str initial_offset of None \<Rightarrow> Some (False, str)
        | Some first_match \<Rightarrow>
            let replace_length = length replace_with; str_length = length str in
            if replace_type = REPLACE_FIRST
            then map_option (Pair True) (string_replace first_match find_length replace_with str)
            else if find_length = replace_length
            then map_option (Pair True) (equal_length_loop Find replace_with first_match str)
            else if find_length < replace_length then
              (case count_loop Find find_length str (replace_length - find_length) (Some first_match) 0 0 of None \<Rightarrow> None
               | Some (expansion, num_matches) \<Rightarrow>
                   let final_length = (str_length + expansion) mod 2 ^ 64 in
                   if capacity < final_length
                   then (case append_loop Find find_length replace_with str (Some first_match) num_matches 0 [] of None \<Rightarrow> None
                         | Some (pos, out) \<Rightarrow> Some (True, out @ take (str_length - pos) (drop pos str)))
                   else (case expand first_match find_length expansion str of None \<Rightarrow> None
                         | Some str \<Rightarrow> move_and_truncate Find find_length replace_with first_match expansion final_length str))
            else move_and_truncate Find find_length replace_with first_match 0 str_length str))"

text \<open>\<open>ReplaceCharsT\<close>, and the routines on substrings; the first is also \<open>RemoveChars\<close>, with no replacement.\<close>

definition ReplaceChars :: "nat \<Rightarrow> 'w::len word list \<Rightarrow> 'w word list \<Rightarrow> 'w word list \<Rightarrow> (bool \<times> 'w word list) option" where
  "ReplaceChars capacity input find_any_of_these replace_with =
     DoReplaceMatchesAfterOffset (CharacterMatcher_Find find_any_of_these) CharacterMatcher_MatchSize replace_with REPLACE_ALL
       capacity 0 input"

definition RemoveChars :: "nat \<Rightarrow> 'w::len word list \<Rightarrow> 'w word list \<Rightarrow> (bool \<times> 'w word list) option" where
  "RemoveChars capacity input remove_chars = ReplaceChars capacity input remove_chars []"

definition ReplaceFirstSubstringAfterOffset ::
  "nat \<Rightarrow> 'w::len word list \<Rightarrow> nat \<Rightarrow> 'w word list \<Rightarrow> 'w word list \<Rightarrow> 'w word list option" where
  "ReplaceFirstSubstringAfterOffset capacity str start_offset find_this replace_with =
     map_option snd (DoReplaceMatchesAfterOffset (SubstringMatcher_Find find_this) (SubstringMatcher_MatchSize find_this)
       replace_with REPLACE_FIRST capacity start_offset str)"

definition ReplaceSubstringsAfterOffset ::
  "nat \<Rightarrow> 'w::len word list \<Rightarrow> nat \<Rightarrow> 'w word list \<Rightarrow> 'w word list \<Rightarrow> 'w word list option" where
  "ReplaceSubstringsAfterOffset capacity str start_offset find_this replace_with =
     map_option snd (DoReplaceMatchesAfterOffset (SubstringMatcher_Find find_this) (SubstringMatcher_MatchSize find_this)
       replace_with REPLACE_ALL capacity start_offset str)"

section \<open>The reference\<close>

text \<open>\<open>P t\<close> says that \<open>t\<close> begins with a match, which has \<open>k\<close> code units.\<close>

function replace_all :: "('a list \<Rightarrow> bool) \<Rightarrow> nat \<Rightarrow> 'a list \<Rightarrow> 'a list \<Rightarrow> 'a list" where
  "replace_all P k r [] = []"
| "replace_all P k r (x # t) = (if P (x # t) \<and> 0 < k then r @ replace_all P k r (drop k (x # t)) else x # replace_all P k r t)"
  by pat_completeness auto
termination by (relation "measure (\<lambda>(P, k, r, t). length t)") auto

fun replace_first :: "('a list \<Rightarrow> bool) \<Rightarrow> nat \<Rightarrow> 'a list \<Rightarrow> 'a list \<Rightarrow> 'a list" where
  "replace_first P k r [] = []"
| "replace_first P k r (x # t) = (if P (x # t) then r @ drop k (x # t) else x # replace_first P k r t)"

fun occurs :: "('a list \<Rightarrow> bool) \<Rightarrow> 'a list \<Rightarrow> bool" where
  "occurs P [] = False"
| "occurs P (x # t) \<longleftrightarrow> P (x # t) \<or> occurs P t"

section \<open>Matches\<close>

fun scan :: "('a list \<Rightarrow> bool) \<Rightarrow> 'a list \<Rightarrow> nat option" where
  "scan P [] = None"
| "scan P (x # t) = (if P (x # t) then Some 0 else map_option Suc (scan P t))"

lemma first_from_scan: "first_from P s pos = map_option ((+) pos) (scan P (drop pos s))"
proof (induction "length s - pos" arbitrary: pos)
  case 0
  then show ?case by (simp add: first_from_def)
next
  case (Suc n)
  then have "pos < length s" by simp
  then have d: "drop pos s = s ! pos # drop (Suc pos) s" "[pos..<length s] = pos # [Suc pos..<length s]"
    by (simp_all add: Cons_nth_drop_Suc upt_conv_Cons)
  have "first_from P s (Suc pos) = map_option ((+) (Suc pos)) (scan P (drop (Suc pos) s))"
    using Suc.hyps(1) [of "Suc pos"] Suc.hyps(2) by simp
  then show ?case by (auto simp: first_from_def d option.map_comp comp_def intro!: arg_cong [where f = "\<lambda>f. map_option f _"])
qed

lemma occurs_scan: "occurs P t \<longleftrightarrow> scan P t \<noteq> None"
  by (induction t) auto

lemma scan_match: "scan P t = Some i \<Longrightarrow> i < length t \<and> P (drop i t)"
  by (induction t arbitrary: i) (auto split: if_splits)

function matches :: "('a list \<Rightarrow> bool) \<Rightarrow> nat \<Rightarrow> 'a list \<Rightarrow> nat" where
  "matches P k t = (case scan P t of None \<Rightarrow> 0 | Some i \<Rightarrow> if 0 < k then Suc (matches P k (drop (i + k) t)) else 0)"
  by pat_completeness auto
termination by (relation "measure (\<lambda>(P, k, t). length t)") (auto dest!: scan_match)

declare matches.simps [simp del]

locale matcher_class =
  fixes find :: "'w::len word find" and k :: nat and P :: "'w word list \<Rightarrow> bool"
  assumes find_first: "find s pos = first_from P s pos" and size_pos: "0 < k" and size_fits: "P t \<Longrightarrow> k \<le> length t"
begin

lemma find_scan: "find (s @ t) (length s) = map_option ((+) (length s)) (scan P t)"
  by (simp add: find_first first_from_scan)

lemma scan_bound: "scan P t = Some i \<Longrightarrow> i + k \<le> length t"
  using scan_match [of P t i] size_fits [of "drop i t"] by auto

text \<open>The string as what precedes the first match, the match, and the rest.\<close>

lemma scan_split:
  assumes "scan P t = Some i"
  obtains a m u where "t = a @ m @ u" "length a = i" "length m = k" "drop (i + k) t = u" "take i t = a"
proof (rule that)
  show "t = take i t @ take k (drop i t) @ drop (i + k) t" by (metis append_take_drop_id drop_drop add.commute)
qed (use scan_bound [OF assms] in auto)

lemma replace_all_scan:
  "replace_all P k r t = (case scan P t of None \<Rightarrow> t | Some i \<Rightarrow> take i t @ r @ replace_all P k r (drop (i + k) t))"
  by (induction t) (auto simp: size_pos split: option.splits)

lemma replace_first_scan:
  "replace_first P k r t = (case scan P t of None \<Rightarrow> t | Some i \<Rightarrow> take i t @ r @ drop (i + k) t)"
  by (induction t) (auto split: option.splits)

lemma matches_scan: "matches P k t = (case scan P t of None \<Rightarrow> 0 | Some i \<Rightarrow> Suc (matches P k (drop (i + k) t)))"
  using size_pos by (subst matches.simps) (simp split: option.splits)

text \<open>Induction from match to match.\<close>

lemma match_induct [case_names no_match found]:
  assumes "\<And>t. scan P t = None \<Longrightarrow> Q t" and "\<And>t i. scan P t = Some i \<Longrightarrow> Q (drop (i + k) t) \<Longrightarrow> Q t"
  shows "Q t"
proof (induction t rule: length_induct)
  case (1 t)
  then show ?case using assms size_pos scan_bound [of t] by (cases "scan P t") auto
qed

lemma replace_all_length: "length (replace_all P k r t) + matches P k t * k = length t + matches P k t * length r"
proof (induction t rule: match_induct)
  case (no_match t)
  then show ?case unfolding matches_scan [of t] replace_all_scan [of r t] by simp
next
  case (found t i)
  then show ?case using scan_bound [OF found(1)] unfolding matches_scan [of t] replace_all_scan [of r t] by simp
qed

section \<open>The strategies\<close>

lemma copy_at_append: "length m = length xs \<Longrightarrow> copy_at (length a) xs (a @ m @ u) = Some (a @ xs @ u)"
  by (simp add: copy_at_def)

lemma equal_length_loop_replaces:
  assumes "length r = k"
  shows "case scan P t of None \<Rightarrow> True
    | Some i \<Rightarrow> equal_length_loop find r (length s + i) (s @ t) = Some (s @ replace_all P k r t)"
proof (induction t arbitrary: s rule: match_induct)
  case (found t i)
  obtain a m u where t: "t = a @ m @ u" "length a = i" "length m = k" "drop (i + k) t = u" "take i t = a"
    using scan_split [OF found(1)] .
  have "copy_at (length (s @ a)) r ((s @ a) @ m @ u) = Some ((s @ a) @ r @ u)"
    using assms t by (intro copy_at_append) simp
  then have "equal_length_loop find r (length s + i) (s @ t) =
      (case map_option ((+) (length (s @ a @ r))) (scan P u) of None \<Rightarrow> Some ((s @ a @ r) @ u)
       | Some j \<Rightarrow> equal_length_loop find r j ((s @ a @ r) @ u))"
    using find_scan [of "s @ a @ r" u] t by (subst equal_length_loop.simps) (simp add: assms add.assoc split: option.splits)
  then show ?case using found(2) [of "s @ a @ r"] t found(1) unfolding replace_all_scan [of r t]
    by (cases "scan P u") (simp_all add: replace_all_scan [of r u] add.assoc)
qed simp

lemma count_loop_counts:
  assumes "e + d * matches P k t < 2 ^ 64"
  shows "count_loop find k (s @ t) d (map_option ((+) (length s)) (scan P t)) e n = Some (e + d * matches P k t, n + matches P k t)"
  using assms
proof (induction t arbitrary: s e n rule: match_induct)
  case (no_match t)
  then show ?case by (subst count_loop.simps) (simp add: matches_scan [of t])
next
  case (found t i)
  obtain a m u where t: "t = a @ m @ u" "length a = i" "length m = k" "drop (i + k) t = u" "take i t = a"
    using scan_split [OF found(1)] .
  have n: "matches P k t = Suc (matches P k u)" using t(4) by (simp add: matches_scan [of t] found(1))
  then have e: "(e + d) mod 2 ^ 64 = e + d" using found(3) by (intro mod_less) simp
  have "count_loop find k (s @ t) d (map_option ((+) (length s)) (scan P t)) e n =
      count_loop find k ((s @ a @ m) @ u) d (map_option ((+) (length (s @ a @ m))) (scan P u)) (e + d) (n + 1)"
    using found(1) find_scan [of "s @ a @ m" u] t e by (subst count_loop.simps) (simp add: add.assoc)
  also have "\<dots> = Some (e + d + d * matches P k u, n + 1 + matches P k u)"
    using found(2) [of "e + d" "s @ a @ m" "n + 1"] found(3) t n by simp
  finally show ?case by (simp add: n)
qed

lemma append_loop_replaces:
  assumes "scan P t \<noteq> None"
  shows "\<exists>p out'. append_loop find k r (s @ t) (map_option ((+) (length s)) (scan P t)) (matches P k t) (length s) out = Some (p, out') \<and>
    p \<le> length (s @ t) \<and> out' @ drop p (s @ t) = out @ replace_all P k r t"
  using assms
proof (induction t arbitrary: s out rule: match_induct)
  case (found t i)
  obtain a m u where t: "t = a @ m @ u" "length a = i" "length m = k" "drop (i + k) t = u" "take i t = a"
    using scan_split [OF found(1)] .
  have n: "matches P k t = Suc (matches P k u)" using t(4) by (simp add: matches_scan [of t] found(1))
  have r: "replace_all P k r t = a @ r @ replace_all P k r u" using t(4,5) by (simp add: replace_all_scan [of r t] found(1))
  have step: "append_loop find k r (s @ t) (map_option ((+) (length s)) (scan P t)) (matches P k t) (length s) out =
      (if matches P k u = 0 then Some (length (s @ a @ m), out @ a @ r)
       else append_loop find k r ((s @ a @ m) @ u) (map_option ((+) (length (s @ a @ m))) (scan P u)) (matches P k u)
         (length (s @ a @ m)) (out @ a @ r))"
    unfolding n using found(1) find_scan [of "s @ a @ m" u] t by (subst append_loop.simps) (simp add: add.assoc Let_def)
  show ?case
  proof (cases "scan P u")
    case None
    then have "matches P k u = 0" "replace_all P k r u = u" by (simp_all add: matches_scan [of u] replace_all_scan [of r u])
    then show ?thesis using t unfolding step r by simp
  next
    case (Some j)
    then have "matches P k u \<noteq> 0" by (simp add: matches_scan [of u])
    then show ?thesis using found(2) [of "s @ a @ m" "out @ a @ r"] t Some unfolding step r by auto
  qed
qed simp

lemma append_loop_from_0:
  "append_loop find k r (s @ t) (Some (length s + i)) n 0 [] = append_loop find k r (s @ t) (Some (length s + i)) n (length s) s"
  by (subst (1 2) append_loop.simps) (simp add: Let_def)

text \<open>
  The string is what has been written, a gap, the place of a match and the unread rest; the gap is wide enough for all
  the matches that follow.
\<close>

lemma move_loop_replaces:
  assumes "length x = k" and "Suc (matches P k t) * (length r - k) \<le> length g"
  shows "\<exists>rest. move_loop find k r (length (w @ g @ x @ t)) (length w) (length (w @ g)) (w @ g @ x @ t) =
    Some (length (w @ r @ replace_all P k r t), (w @ r @ replace_all P k r t) @ rest)"
  using assms
proof (induction t arbitrary: w g x rule: length_induct)
  case (1 t)
  have "length r \<le> length (g @ x)" using 1(2,3) by simp
  then obtain y g' where gx: "g @ x = y @ g'" "length y = length r"
    by (metis append_take_drop_id length_take min.absorb2)
  have copied: "(if r \<noteq> [] then copy_at (length w) r (w @ g @ x @ t) else Some (w @ g @ x @ t)) = Some (w @ r @ g' @ t)"
  proof (cases "r = []")
    case True
    then have "g @ x = g'" using gx by simp
    then show ?thesis using True by (simp flip: append_assoc)
  next
    case False
    have e: "w @ g @ x @ t = w @ y @ g' @ t" using gx(1) by (metis append_assoc)
    show ?thesis unfolding e using False copy_at_append [of y r w "g' @ t"] gx(2) by simp
  qed
  have lg: "length g + k = length r + length g'" using arg_cong [OF gx(1), of length] gx(2) 1(2) by simp
  define n where "n = (case scan P t of None \<Rightarrow> length t | Some i \<Rightarrow> i)"
  have n: "n \<le> length t" using scan_match [of P t] by (auto simp: n_def split: option.splits)
  have moved: "\<exists>g2. length g2 = length g' \<and>
      (if n \<noteq> 0 then copy_at (length (w @ r)) (take n t) (w @ r @ g' @ t) else Some (w @ r @ g' @ t)) =
      Some (w @ r @ take n t @ g2 @ drop n t)"
  proof -
    let ?g2 = "take (length g') (drop n (g' @ t))"
    have "drop n (g' @ t) = ?g2 @ drop (length g' + n) (g' @ t)" by (metis append_take_drop_id drop_drop)
    then have d: "drop n (g' @ t) = ?g2 @ drop n t" by simp
    have "copy_at (length (w @ r)) (take n t) ((w @ r) @ take n (g' @ t) @ drop n (g' @ t)) = Some ((w @ r) @ take n t @ drop n (g' @ t))"
      using n by (intro copy_at_append) simp
    then have "copy_at (length (w @ r)) (take n t) (w @ r @ g' @ t) = Some (w @ r @ take n t @ drop n (g' @ t))"
      by (simp del: drop_append take_append)
    then show ?thesis using n d by (intro exI [of _ ?g2]) (auto simp del: drop_append)
  qed
  then obtain g2 where g2: "length g2 = length g'" and
    moved: "(if n \<noteq> 0 then copy_at (length (w @ r)) (take n t) (w @ r @ g' @ t) else Some (w @ r @ g' @ t)) =
      Some (w @ r @ take n t @ g2 @ drop n t)" by blast
  have match: "(case find (w @ r @ g' @ t) (length (w @ r @ g')) of None \<Rightarrow> length (w @ g @ x @ t) | Some m \<Rightarrow> min m (length (w @ g @ x @ t))) =
      length (w @ r @ g') + n"
    using find_scan [of "w @ r @ g'" t] n lg 1(2) by (auto simp: n_def split: option.splits)
  have step: "move_loop find k r (length (w @ g @ x @ t)) (length w) (length (w @ g)) (w @ g @ x @ t) =
      (if n < length t
       then move_loop find k r (length (w @ g @ x @ t)) (length (w @ r @ take n t)) (length (w @ r @ take n t @ g2)) (w @ r @ take n t @ g2 @ drop n t)
       else Some (length (w @ r @ take n t), w @ r @ take n t @ g2 @ drop n t))"
  proof -
    have offsets: "length (w @ g) + k = length (w @ r @ g')" "length w + length r = length (w @ r)"
      "length (w @ r @ g') + n - length (w @ r @ g') = n" "take n (drop (length (w @ r @ g')) (w @ r @ g' @ t)) = take n t"
      "length (w @ r @ g') + n < length (w @ r @ g') \<longleftrightarrow> False"
      using lg by simp_all
    have "length (w @ r @ g') + n < length (w @ g @ x @ t) \<longleftrightarrow> n < length t"
      using lg 1(2) unfolding length_append by linarith
    note offsets = offsets this
    have e: "length (w @ r) + n = length (w @ r @ take n t)" "length (w @ r @ g') + n = length (w @ r @ take n t @ g2)"
      using n g2 by simp_all
    show ?thesis unfolding e [symmetric]
      by (subst move_loop.simps) (simp only: copied option.case Let_def match offsets moved if_False)
  qed
  show ?case
  proof (cases "scan P t")
    case None
    then have "n = length t" "replace_all P k r t = t" by (simp_all add: n_def replace_all_scan [of r t])
    then show ?thesis unfolding step by simp
  next
    case (Some i)
    then have i: "n = i" "n < length t" using scan_match [of P t i] by (simp_all add: n_def)
    obtain a m u where t: "t = a @ m @ u" "length a = i" "length m = k" "drop (i + k) t = u" "take i t = a"
      using scan_split [OF Some] .
    have ms: "matches P k t = Suc (matches P k u)" using t(4) by (simp add: matches_scan [of t] Some)
    have ra: "replace_all P k r t = a @ r @ replace_all P k r u" using t(4,5) by (simp add: replace_all_scan [of r t] Some)
    have "Suc (matches P k u) * (length r - k) \<le> length g2" using 1(3) lg ms g2 by (cases "k \<le> length r") auto
    moreover have "length u < length t" using t size_pos by simp
    ultimately obtain rest where
      "move_loop find k r (length ((w @ r @ a) @ g2 @ m @ u)) (length (w @ r @ a)) (length ((w @ r @ a) @ g2)) ((w @ r @ a) @ g2 @ m @ u) =
       Some (length ((w @ r @ a) @ r @ replace_all P k r u), ((w @ r @ a) @ r @ replace_all P k r u) @ rest)"
      using 1(1) t(3) by blast
    moreover have "length (w @ g @ x @ t) = length ((w @ r @ a) @ g2 @ m @ u)" using t(1,2,3) lg g2 1(2) by simp
    moreover have "drop n t = m @ u" using t(1,2) i(1) by simp
    ultimately show ?thesis unfolding step ra using i t(5) by simp
  qed
qed

lemma resize_append: "resize_to (length a) (a @ b) = a"
  by (simp add: resize_to_def)

lemma move_and_truncate_replaces:
  assumes "length x = k" and "Suc (matches P k t) * (length r - k) \<le> length g"
  shows "move_and_truncate find k r (length w) (length g) (length (w @ g @ x @ t)) (w @ g @ x @ t) =
    Some (True, w @ r @ replace_all P k r t)"
proof -
  obtain rest where "move_loop find k r (length (w @ g @ x @ t)) (length w) (length w + length g) (w @ g @ x @ t) =
      Some (length (w @ r @ replace_all P k r t), (w @ r @ replace_all P k r t) @ rest)"
    using move_loop_replaces [OF assms, of w] unfolding length_append [of w g] by blast
  then show ?thesis by (simp only: move_and_truncate_def option.case prod.case resize_append)
qed

lemma expand_shifts:
  assumes "length m = k"
  shows "\<exists>g x. expand (length w) k e (w @ m @ u) = Some (w @ g @ x @ u) \<and> length g = e \<and> length x = k"
proof -
  let ?s = "w @ m @ u" and ?dst = "length w + k + e"
  let ?s' = "if length ?s < ?dst then resize_to ?dst ?s else ?s"
  have "\<exists>z. ?s' = w @ (m @ u @ z) \<and> ?dst \<le> length ?s' \<and> length ?s' \<le> ?dst + length u"
  proof (cases "length ?s < ?dst")
    case True
    then have "?s' = w @ m @ u @ replicate (?dst - length ?s) 0" by (simp add: resize_to_def)
    then show ?thesis using True assms by (intro exI [of _ "replicate (?dst - length ?s) 0"]) simp
  qed (simp add: assms)
  then obtain y z where y: "?s' = w @ y" "y = m @ u @ z" "e + k \<le> length y" "length (w @ y) \<le> ?dst + length u" by auto
  have "take (length u) (drop (length w + k) (w @ y)) = u" using assms y(2) by simp
  moreover have "take ?dst (w @ y) = w @ take e y @ take k (drop e y)" by (simp add: take_add [symmetric] add.commute)
  moreover have "length w + (k + length u) - (length w + k) = length u" by simp
  ultimately have "expand (length w) k e ?s = Some (w @ take e y @ take k (drop e y) @ u)"
    using y assms unfolding expand_def Let_def y(1) by (simp add: string_replace_def)
  then show ?thesis using y(3) by (intro exI [of _ "take e y"] exI [of _ "take k (drop e y)"]) simp
qed

lemma DoReplaceMatches_first:
  "DoReplaceMatchesAfterOffset find k r REPLACE_FIRST capacity (length s) (s @ t) = Some (occurs P t, s @ replace_first P k r t)"
  using size_pos scan_bound [of t]
  by (cases "scan P t") (auto simp: DoReplaceMatchesAfterOffset_def find_scan occurs_scan replace_first_scan string_replace_def)

lemma DoReplaceMatches_all:
  assumes fits: "length (s @ replace_all P k r t) < 2 ^ 64"
  shows "DoReplaceMatchesAfterOffset find k r REPLACE_ALL capacity (length s) (s @ t) = Some (occurs P t, s @ replace_all P k r t)"
proof (cases "scan P t")
  case None
  then show ?thesis using size_pos
    by (simp add: DoReplaceMatchesAfterOffset_def find_scan occurs_scan replace_all_scan [of r t])
next
  case (Some i)
  obtain a m u where t: "t = a @ m @ u" "length a = i" "length m = k" "drop (i + k) t = u" "take i t = a"
    using scan_split [OF Some] .
  have ms: "matches P k t = Suc (matches P k u)" using t(4) by (simp add: matches_scan [of t] Some)
  have ra: "replace_all P k r t = a @ r @ replace_all P k r u" using t(4,5) by (simp add: replace_all_scan [of r t] Some)
  have f: "find (s @ t) (length s) = Some (length (s @ a))" "occurs P t" using Some t(2) by (simp_all add: find_scan occurs_scan)
  have st: "s @ t = (s @ a) @ m @ u" using t(1) by simp
  consider "k = length r" | "k < length r" | "length r < k" by linarith
  then show ?thesis
  proof cases
    case 1
    then show ?thesis using equal_length_loop_replaces [of r s t] Some f size_pos t(2)
      by (simp add: DoReplaceMatchesAfterOffset_def)
  next
    case 2
    define d where "d = length r - k"
    have len: "length (replace_all P k r t) = length t + d * matches P k t"
      using replace_all_length [of r t] 2 by (auto simp: d_def algebra_simps)
    then have c: "count_loop find k (s @ t) d (Some (length (s @ a))) 0 0 = Some (d * matches P k t, matches P k t)"
      using count_loop_counts [of 0 d t s 0] fits Some t(2) by simp
    have final: "(length (s @ t) + d * matches P k t) mod 2 ^ 64 = length (s @ t) + d * matches P k t"
      using fits len by (intro mod_less) simp
    show ?thesis
    proof (cases "capacity < length (s @ t) + d * matches P k t")
      case True
      obtain p out where p: "append_loop find k r (s @ t) (Some (length (s @ a))) (matches P k t) 0 [] = Some (p, out)"
        "p \<le> length (s @ t)" "out @ drop p (s @ t) = s @ replace_all P k r t"
        using append_loop_replaces [where s = s and t = t and r = r and out = s] append_loop_from_0 [where s = s and t = t and r = r and i = i] Some t(2) by auto
      then have "out @ take (length (s @ t) - p) (drop p (s @ t)) = s @ replace_all P k r t" by simp
      then show ?thesis using 2 f size_pos c final True p(1)
        unfolding DoReplaceMatchesAfterOffset_def Let_def f(1) option.case d_def [symmetric]
        by simp
    next
      case False
      obtain g x where g: "expand (length (s @ a)) k (d * matches P k t) (s @ t) = Some ((s @ a) @ g @ x @ u)"
        "length g = d * matches P k t" "length x = k"
        using expand_shifts [OF t(3), of "s @ a"] unfolding st by blast
      have l: "length ((s @ a) @ g @ x @ u) = length (s @ t) + d * matches P k t" using g t(1,3) by simp
      have "Suc (matches P k u) * (length r - k) \<le> length g" using g(2) ms by (simp add: d_def)
      from move_and_truncate_replaces [OF g(3) this, of "s @ a"] have "move_and_truncate find k r (length (s @ a)) (d * matches P k t) (length (s @ t) + d * matches P k t) ((s @ a) @ g @ x @ u) =
          Some (True, (s @ a) @ r @ replace_all P k r u)" unfolding l g(2) .
      then show ?thesis using 2 f size_pos c final False g(1) ra
        unfolding DoReplaceMatchesAfterOffset_def Let_def f(1) option.case d_def [symmetric]
        by simp
    qed
  next
    case 3
    then have "move_and_truncate find k r (length (s @ a)) 0 (length (s @ t)) (s @ t) = Some (True, (s @ a) @ r @ replace_all P k r u)"
      using move_and_truncate_replaces [OF t(3), of u r "[]" "s @ a"] unfolding st by simp
    then show ?thesis using 3 f size_pos ra by (simp add: DoReplaceMatchesAfterOffset_def)
  qed
qed

end

lemma match_here_length: "match_here this t \<Longrightarrow> length this \<le> length t"
  unfolding match_here_def by (metis length_take min.cobounded1)

interpretation substring: matcher_class "SubstringMatcher_Find (c # rest)" "SubstringMatcher_MatchSize (c # rest)" "match_here (c # rest)"
  for c :: "'w::len word" and rest
  by unfold_locales (auto simp: SubstringMatcher_Find_def SubstringMatcher_MatchSize_def dest: match_here_length)

interpretation any_of: matcher_class "CharacterMatcher_Find cs" CharacterMatcher_MatchSize "\<lambda>t. t \<noteq> [] \<and> hd t \<in> set cs"
  for cs :: "'w::len word list"
  by unfold_locales (auto simp: CharacterMatcher_Find_def CharacterMatcher_MatchSize_def Suc_le_eq)

text \<open>
  C35: Replacing all matches.  Whatever strategy the sizes and the capacity select (overwriting, appending to a new buffer,
  or moving within the expanded or shrinking string), \<open>ReplaceSubstringsAfterOffset\<close>, \<open>ReplaceChars\<close> and
  \<open>RemoveChars\<close> give what reading the string from left to right gives, write only inside the string, and report whether
  there was a match; \<open>ReplaceFirstSubstringAfterOffset\<close> replaces the first match.  The result must fit a \<open>size_t\<close>.
\<close>

theorem replaces_all_matches:
  fixes str find_this chars r :: "'w::len word list"
  assumes "offset \<le> length str" and "find_this \<noteq> []"
    and "length (take offset str @ replace_all (match_here find_this) (length find_this) r (drop offset str)) < 2 ^ 64"
    and "length (replace_all (\<lambda>t. t \<noteq> [] \<and> hd t \<in> set chars) 1 r str) < 2 ^ 64" and "length str < 2 ^ 64"
  shows "ReplaceSubstringsAfterOffset capacity str offset find_this r =
      Some (take offset str @ replace_all (match_here find_this) (length find_this) r (drop offset str)) \<and>
    ReplaceFirstSubstringAfterOffset capacity str offset find_this r =
      Some (take offset str @ replace_first (match_here find_this) (length find_this) r (drop offset str)) \<and>
    ReplaceChars capacity str chars r =
      Some (set str \<inter> set chars \<noteq> {}, concat (map (\<lambda>c. if c \<in> set chars then r else [c]) str)) \<and>
    RemoveChars capacity str chars = Some (set str \<inter> set chars \<noteq> {}, filter (\<lambda>c. c \<notin> set chars) str)"
proof -
  let ?Q = "\<lambda>t. t \<noteq> [] \<and> hd t \<in> set chars"
  obtain c cs where find_this: "find_this = c # cs" using assms(2) by (cases find_this) auto
  have l: "length (take offset str) = offset" using assms(1) by simp
  note o = substring.DoReplaceMatches_all [where c = c and rest = cs and s = "take offset str" and t = "drop offset str" and r = r]
    substring.DoReplaceMatches_first [where c = c and rest = cs and s = "take offset str" and t = "drop offset str" and r = r]
  have "replace_all ?Q 1 r' s = concat (map (\<lambda>c. if c \<in> set chars then r' else [c]) s)" for r' and s :: "'w word list"
    by (induction s) auto
  moreover have "concat (map (\<lambda>c. if c \<in> set chars then [] else [c]) s) = filter (\<lambda>c. c \<notin> set chars) s" for s :: "'w word list"
    by (induction s) auto
  moreover have "occurs ?Q s \<longleftrightarrow> set s \<inter> set chars \<noteq> {}" for s :: "'w word list" by (induction s) auto
  moreover have "length (filter (\<lambda>c. c \<notin> set chars) str) < 2 ^ 64" using assms(5) le_less_trans [OF length_filter_le] by blast
  ultimately show ?thesis
    using o [unfolded l append_take_drop_id] assms any_of.DoReplaceMatches_all [where s = "[]" and t = str and r = r and cs = chars]
      any_of.DoReplaceMatches_all [where s = "[]" and t = str and r = "[]" and cs = chars]
    by (simp add: ReplaceSubstringsAfterOffset_def ReplaceFirstSubstringAfterOffset_def ReplaceChars_def RemoveChars_def find_this
        SubstringMatcher_MatchSize_def CharacterMatcher_MatchSize_def)
qed

theorem replaces_all_matches_witness:
  "ReplaceSubstringsAfterOffset 100 [1, 2, 1, 2, 3] 1 [2] [7, 8, 9] = Some [1, 7, 8, 9, 1, 7, 8, 9, 3 :: 8 word] \<and>
   RemoveChars 3 [1, 2, 3] [2 :: 8 word] = Some (True, [1, 3])"
  using replaces_all_matches [of 1 "[1, 2, 1, 2, 3 :: 8 word]" "[2]" "[7, 8, 9]" "[2]" 100]
    replaces_all_matches [of 1 "[1, 2, 3 :: 8 word]" "[2]" "[7, 8, 9]" "[2]" 3]
  by (simp add: match_here_def)

end
