(* ===== verification/String_Piece.thy ===== *)
theory String_Piece
  imports String_Replace
begin

text \<open>
  Searching in a \<open>StringPiece\<close> (\<open>base/strings/string_piece.cc\<close>).

  A piece is the list of its code units.  Positions are natural numbers, a result of \<open>npos\<close> is \<open>None\<close>, and an argument
  \<open>npos\<close> is the largest \<open>size_t\<close>.  The 8-bit searches for a set of characters use a table, the 16-bit ones compare with
  each character; the first group of definitions has the suffix \<open>8\<close>, the second \<open>16\<close>.

  The references are \<open>first_index\<close> and \<open>last_index\<close>.
\<close>

section \<open>The program\<close>

definition npos :: nat where
  "npos = 2 ^ 64 - 1"

definition BuildLookupTable :: "byte list \<Rightarrow> bool list" where
  "BuildLookupTable characters_wanted = fold (\<lambda>c table. table[unat c := True]) characters_wanted (replicate 256 False)"

text \<open>The loops \<open>for (i = pos; i < self.size(); ++i)\<close> and \<open>for (i = pos; ; --i)\<close>, which return the first \<open>i\<close> that passes the test.\<close>

function up_loop :: "('u \<Rightarrow> bool) \<Rightarrow> 'u list \<Rightarrow> nat \<Rightarrow> nat option" where
  "up_loop test self i = (if i < length self then (if test (self ! i) then Some i else up_loop test self (i + 1)) else None)"
  by pat_completeness auto
termination by (relation "measure (\<lambda>(test, self, i). length self - i)") auto

declare up_loop.simps [simp del]

fun down_loop :: "('u \<Rightarrow> bool) \<Rightarrow> 'u list \<Rightarrow> nat \<Rightarrow> nat option" where
  "down_loop test self 0 = (if test (self ! 0) then Some 0 else None)"
| "down_loop test self (Suc i) = (if test (self ! Suc i) then Some (Suc i) else down_loop test self i)"

text \<open>The brute-force test of the 16-bit versions.\<close>

fun one_of_loop :: "'u list \<Rightarrow> 'u \<Rightarrow> bool" where
  "one_of_loop [] c = False"
| "one_of_loop (x # s) c = (if c = x then True else one_of_loop s c)"

text \<open>\<open>std::search\<close> from \<open>pos\<close>, with the end of the piece when there is no match.\<close>

definition find_string :: "'u list \<Rightarrow> 'u list \<Rightarrow> nat \<Rightarrow> nat option" where
  "find_string self s pos =
     (if length self < pos then None
      else (let xpos = (case find (\<lambda>i. match_here s (drop i self)) [pos..<length self] of None \<Rightarrow> length self | Some i \<Rightarrow> i)
            in if xpos + length s \<le> length self then Some xpos else None))"

definition find_char :: "'u list \<Rightarrow> 'u \<Rightarrow> nat \<Rightarrow> nat option" where
  "find_char self c pos = (if length self \<le> pos then None else up_loop (\<lambda>x. x = c) self pos)"

text \<open>\<open>std::find_end\<close> within the first \<open>n\<close> code units, with \<open>n\<close> when there is no match.\<close>

definition rfind_string :: "'u list \<Rightarrow> 'u list \<Rightarrow> nat \<Rightarrow> nat option" where
  "rfind_string self s pos =
     (if length self < length s then None
      else if s = [] then Some (min (length self) pos)
      else (let n = min (length self - length s) pos + length s;
                result = (case find (\<lambda>i. match_here s (drop i (take n self))) (rev [0..<n]) of None \<Rightarrow> n | Some i \<Rightarrow> i)
            in if result \<noteq> n then Some result else None))"

definition rfind_char :: "'u list \<Rightarrow> 'u \<Rightarrow> nat \<Rightarrow> nat option" where
  "rfind_char self c pos = (if length self = 0 then None else down_loop (\<lambda>x. x = c) self (min pos (length self - 1)))"

definition find_first_of8 :: "byte list \<Rightarrow> byte list \<Rightarrow> nat \<Rightarrow> nat option" where
  "find_first_of8 self s pos =
     (if length self = 0 \<or> length s = 0 then None
      else if length s = 1 then find_char self (s ! 0) pos
      else (let table = BuildLookupTable s in up_loop (\<lambda>x. table ! unat x) self pos))"

text \<open>\<open>std::find_first_of\<close> from \<open>self.begin() + pos\<close>, which has no defined behaviour for \<open>pos\<close> beyond the end.\<close>

definition find_first_of16 :: "'u list \<Rightarrow> 'u list \<Rightarrow> nat \<Rightarrow> nat option" where
  "find_first_of16 self s pos = up_loop (one_of_loop s) self pos"

definition find_first_not_of_char :: "'u list \<Rightarrow> 'u \<Rightarrow> nat \<Rightarrow> nat option" where
  "find_first_not_of_char self c pos = (if length self = 0 then None else up_loop (\<lambda>x. x \<noteq> c) self pos)"

definition find_first_not_of8 :: "byte list \<Rightarrow> byte list \<Rightarrow> nat \<Rightarrow> nat option" where
  "find_first_not_of8 self s pos =
     (if length self = 0 then None
      else if length s = 0 then Some 0
      else if length s = 1 then find_first_not_of_char self (s ! 0) pos
      else (let table = BuildLookupTable s in up_loop (\<lambda>x. \<not> table ! unat x) self pos))"

definition find_first_not_of16 :: "'u list \<Rightarrow> 'u list \<Rightarrow> nat \<Rightarrow> nat option" where
  "find_first_not_of16 self s pos = (if length self = 0 then None else up_loop (\<lambda>x. \<not> one_of_loop s x) self pos)"

definition find_last_of8 :: "byte list \<Rightarrow> byte list \<Rightarrow> nat \<Rightarrow> nat option" where
  "find_last_of8 self s pos =
     (if length self = 0 \<or> length s = 0 then None
      else if length s = 1 then rfind_char self (s ! 0) pos
      else (let table = BuildLookupTable s in down_loop (\<lambda>x. table ! unat x) self (min pos (length self - 1))))"

definition find_last_of16 :: "'u list \<Rightarrow> 'u list \<Rightarrow> nat \<Rightarrow> nat option" where
  "find_last_of16 self s pos = (if length self = 0 then None else down_loop (one_of_loop s) self (min pos (length self - 1)))"

definition find_last_not_of_char :: "'u list \<Rightarrow> 'u \<Rightarrow> nat \<Rightarrow> nat option" where
  "find_last_not_of_char self c pos = (if length self = 0 then None else down_loop (\<lambda>x. x \<noteq> c) self (min pos (length self - 1)))"

definition find_last_not_of8 :: "byte list \<Rightarrow> byte list \<Rightarrow> nat \<Rightarrow> nat option" where
  "find_last_not_of8 self s pos =
     (if length self = 0 then None
      else (let i = min pos (length self - 1)
            in if length s = 0 then Some i
               else if length s = 1 then find_last_not_of_char self (s ! 0) pos
               else (let table = BuildLookupTable s in down_loop (\<lambda>x. \<not> table ! unat x) self i)))"

definition find_last_not_of16 :: "'u list \<Rightarrow> 'u list \<Rightarrow> nat \<Rightarrow> nat option" where
  "find_last_not_of16 self s pos =
     (if length self = 0 then None else down_loop (\<lambda>x. \<not> one_of_loop s x) self (min pos (length self - 1)))"

definition substr :: "'u list \<Rightarrow> nat \<Rightarrow> nat \<Rightarrow> 'u list" where
  "substr self pos n = (let pos = min pos (length self); n = min n (length self - pos) in take n (drop pos self))"

section \<open>The reference\<close>

definition first_index :: "('u \<Rightarrow> bool) \<Rightarrow> 'u list \<Rightarrow> nat \<Rightarrow> nat option" where
  "first_index test s pos = find (\<lambda>i. test (s ! i)) [pos..<length s]"

definition last_index :: "('u \<Rightarrow> bool) \<Rightarrow> 'u list \<Rightarrow> nat \<Rightarrow> nat option" where
  "last_index test s pos = find (\<lambda>i. test (s ! i)) (rev [0..<min (Suc pos) (length s)])"

section \<open>Loops and tables\<close>

lemma up_loop_first: "up_loop test s i = first_index test s i"
proof (induction "length s - i" arbitrary: i)
  case 0
  then show ?case by (subst up_loop.simps) (simp add: first_index_def)
next
  case (Suc n)
  then have "i < length s" "[i..<length s] = i # [i + 1..<length s]" "up_loop test s (i + 1) = first_index test s (i + 1)"
    by (simp_all add: upt_conv_Cons)
  then show ?case by (subst up_loop.simps) (simp add: first_index_def)
qed

lemma down_loop_last: "s \<noteq> [] \<Longrightarrow> down_loop test s (min pos (length s - Suc 0)) = last_index test s pos"
proof -
  assume "s \<noteq> []"
  then have "min (Suc pos) (length s) = Suc (min pos (length s - Suc 0))" by (cases s) auto
  moreover have "down_loop test s i = find (\<lambda>i. test (s ! i)) (rev [0..<Suc i])" for i
    by (induction i) auto
  ultimately show ?thesis by (simp only: last_index_def)
qed

lemma one_of_loop_set: "one_of_loop s = (\<lambda>c. c \<in> set s)"
proof
  show "one_of_loop s c = (c \<in> set s)" for c by (induction s) auto
qed

lemma nth_update: "j < length t \<Longrightarrow> t[i := x] ! j = (if i = j then x else t ! j)"
  by (cases "i = j") auto

lemma BuildLookupTable_set: "BuildLookupTable s ! unat c \<longleftrightarrow> c \<in> set s"
proof -
  have "length (fold (\<lambda>c table. table[unat c := True]) s t) = length t \<and>
      (unat c < length t \<longrightarrow> fold (\<lambda>c table. table[unat c := True]) s t ! unat c = (c \<in> set s \<or> t ! unat c))" for t :: "bool list"
    by (induction s arbitrary: t) (auto simp: nth_update word_unat_eq_iff)
  moreover have "unat c < 256" using unsigned_less [of c, where ?'a = nat] by simp
  ultimately show ?thesis by (simp add: BuildLookupTable_def)
qed

lemma single: "length s = Suc 0 \<Longrightarrow> \<exists>c. s = [c]"
  by (cases s) auto

lemmas search_defs = find_char_def rfind_char_def find_first_of8_def find_first_of16_def find_first_not_of_char_def
  find_first_not_of8_def find_first_not_of16_def find_last_of8_def find_last_of16_def find_last_not_of_char_def
  find_last_not_of8_def find_last_not_of16_def up_loop_first down_loop_last one_of_loop_set BuildLookupTable_set

lemma index_Nil [simp]: "first_index test [] pos = None" "last_index test [] pos = None"
  by (simp_all add: first_index_def last_index_def)

lemma first_index_beyond [simp]: "length s \<le> pos \<Longrightarrow> first_index test s pos = None"
  by (simp add: first_index_def)

lemma index_False [simp]: "first_index (\<lambda>c. False) s pos = None" "last_index (\<lambda>c. False) s pos = None"
  by (simp_all add: first_index_def last_index_def find_None_iff)

lemma last_index_True: "s \<noteq> [] \<Longrightarrow> last_index (\<lambda>c. True) s pos = Some (min pos (length s - Suc 0))"
  using down_loop_last [of s "\<lambda>c. True" pos] by (cases "min pos (length s - Suc 0)") simp_all

lemma substr_take_drop: "substr s pos n = take n (drop pos s)"
  by (auto simp: substr_def Let_def min_def)

lemma match_here_take:
  assumes "i \<le> n"
  shows "match_here s (drop i (take n t)) \<longleftrightarrow> i + length s \<le> min n (length t) \<and> match_here s (drop i t) \<or> s = []"
proof (cases "i + length s \<le> min n (length t)")
  case True
  then have "length s \<le> n - i" by linarith
  then show ?thesis using True by (auto simp: match_here_def drop_take min_def)
next
  case False
  have "length s \<le> length (drop i (take n t))" if "match_here s (drop i (take n t))" using that by (rule match_here_length)
  then show ?thesis using False assms by (auto simp: match_here_def)
qed

lemma find_below: "m < n \<Longrightarrow> find (\<lambda>i. i \<le> m \<and> P i) (rev [0..<n]) = find P (rev [0..<Suc m])"
proof (induction n)
  case (Suc n)
  then show ?case by (cases "m = n") (auto intro: find_cong)
qed simp

lemma find_snoc: "find P (xs @ [x]) = (case find P xs of None \<Rightarrow> if P x then Some x else None | Some y \<Rightarrow> Some y)"
  by (induction xs) auto

lemma find_string_first:
  "find_string self s pos = (if pos \<le> length self then find (\<lambda>i. match_here s (drop i self)) [pos..<Suc (length self)] else None)"
proof -
  have "i + length s \<le> length self" if "find (\<lambda>i. match_here s (drop i self)) [pos..<length self] = Some i" for i
    using that match_here_length [of s "drop i self"] by (auto simp: find_Some_iff)
  moreover have "match_here s [] \<longleftrightarrow> s = []" by (auto simp: match_here_def)
  ultimately show ?thesis by (auto simp: find_string_def Let_def find_snoc split: option.splits)
qed

lemma rfind_string_last:
  "rfind_string self s pos =
    (if length s \<le> length self then find (\<lambda>i. match_here s (drop i self)) (rev [0..<Suc (min (length self - length s) pos)]) else None)"
proof (cases "length s \<le> length self \<and> s \<noteq> []")
  case True
  define m where "m = min (length self - length s) pos"
  let ?n = "m + length s"
  have "match_here s (drop i (take ?n self)) \<longleftrightarrow> i \<le> m \<and> match_here s (drop i self)" if "i \<in> set (rev [0..<?n])" for i
    using that match_here_take [of i ?n s self] True by (auto simp: m_def)
  then have "find (\<lambda>i. match_here s (drop i (take ?n self))) (rev [0..<?n]) = find (\<lambda>i. i \<le> m \<and> match_here s (drop i self)) (rev [0..<?n])"
    by (intro find_cong) auto
  also have "\<dots> = find (\<lambda>i. match_here s (drop i self)) (rev [0..<Suc m])" using True by (intro find_below) simp
  finally have f: "find (\<lambda>i. match_here s (drop i (take ?n self))) (rev [0..<?n]) = find (\<lambda>i. match_here s (drop i self)) (rev [0..<Suc m])" .
  have "i < ?n" if "find (\<lambda>i. match_here s (drop i self)) (rev [0..<Suc m]) = Some i" for i
  proof -
    have "i \<in> set (rev [0..<Suc m])" using that by (metis find_Some_iff nth_mem)
    then show ?thesis using True by (cases s) auto
  qed
  then show ?thesis using True unfolding rfind_string_def Let_def m_def [symmetric] f by (auto simp del: upt_Suc split: option.splits)
qed (auto simp: rfind_string_def match_here_def min.commute)

text \<open>
  C36: Searching in a piece.  The searches of both widths for a string, a character, one of a set or none of a set give the first index
  from \<open>pos\<close> on, or the last up to \<open>pos\<close>, with that property: the 8-bit versions with a table agree with the 16-bit versions
  that compare with each character.  The exception is the 8-bit \<open>find_first_not_of\<close> with an empty set, which returns 0
  whatever \<open>pos\<close> is; the 16-bit \<open>find_first_of\<close> is stated for a \<open>pos\<close> that is not beyond the end.
\<close>

theorem string_piece_searches:
  fixes self s :: "byte list" and self16 s16 :: "16 word list"
  shows "find_string self s pos =
      (if pos \<le> length self then find (\<lambda>i. match_here s (drop i self)) [pos..<Suc (length self)] else None) \<and>
    rfind_string self s pos = (if length s \<le> length self
      then find (\<lambda>i. match_here s (drop i self)) (rev [0..<Suc (min (length self - length s) pos)]) else None) \<and>
    find_char self c pos = first_index (\<lambda>x. x = c) self pos \<and> rfind_char self c pos = last_index (\<lambda>x. x = c) self pos \<and>
    find_first_of8 self s pos = first_index (\<lambda>x. x \<in> set s) self pos \<and>
    find_first_of16 self16 s16 (min pos (length self16)) = first_index (\<lambda>x. x \<in> set s16) self16 pos \<and>
    find_first_not_of8 self s pos =
      (if s = [] \<and> self \<noteq> [] then Some 0 else first_index (\<lambda>x. x \<notin> set s) self pos) \<and>
    find_first_not_of16 self16 s16 pos = first_index (\<lambda>x. x \<notin> set s16) self16 pos \<and>
    find_last_of8 self s pos = last_index (\<lambda>x. x \<in> set s) self pos \<and>
    find_last_of16 self16 s16 pos = last_index (\<lambda>x. x \<in> set s16) self16 pos \<and>
    find_last_not_of8 self s pos = last_index (\<lambda>x. x \<notin> set s) self pos \<and>
    find_last_not_of16 self16 s16 pos = last_index (\<lambda>x. x \<notin> set s16) self16 pos"
proof (intro conjI find_string_first rfind_string_last)
  show "find_char self c pos = first_index (\<lambda>x. x = c) self pos" "rfind_char self c pos = last_index (\<lambda>x. x = c) self pos"
    by (simp_all add: search_defs)
  show "find_first_of8 self s pos = first_index (\<lambda>x. x \<in> set s) self pos"
    by (cases "length s = 1") (auto simp: search_defs Let_def dest!: single)
  show "find_first_not_of8 self s pos = (if s = [] \<and> self \<noteq> [] then Some 0 else first_index (\<lambda>x. x \<notin> set s) self pos)"
    by (cases "length s = 1") (auto simp: search_defs Let_def dest!: single)
  show "find_last_of8 self s pos = last_index (\<lambda>x. x \<in> set s) self pos"
    by (cases "length s = 1") (auto simp: search_defs Let_def dest!: single)
  show "find_last_not_of8 self s pos = last_index (\<lambda>x. x \<notin> set s) self pos"
    by (cases "length s = 1") (auto simp: search_defs last_index_True Let_def dest!: single)
  show "find_first_of16 self16 s16 (min pos (length self16)) = first_index (\<lambda>x. x \<in> set s16) self16 pos"
    by (cases "pos \<le> length self16") (simp_all add: search_defs first_index_def min_def)
qed (simp_all add: search_defs)

end
