(* ===== verification/String_Split.thy ===== *)
theory String_Split
  imports String_Piece
begin

text \<open>
  Trimming, splitting and joining strings (\<open>base/strings/string_split.cc\<close> and the trimming and joining routines of
  \<open>base/strings/string_util.cc\<close>).

  The characters of the two widths differ in the white space and in the search for a set of characters, which are
  arguments of the templates.  The loop that searches for a substring is a partial function: it does not end for an empty
  delimiter.

  The reference for splitting is \<open>pieces\<close>, by recursion on the string.
\<close>

section \<open>Trimming\<close>

definition kWhitespaceASCII :: "byte list" where
  "kWhitespaceASCII = [0x09, 0x0A, 0x0B, 0x0C, 0x0D, 0x20]"

definition kWhitespaceUTF16 :: "16 word list" where
  "kWhitespaceUTF16 = [0x0009, 0x000A, 0x000B, 0x000C, 0x000D, 0x0020, 0x0085, 0x00A0, 0x1680, 0x2000, 0x2001, 0x2002, 0x2003,
     0x2004, 0x2005, 0x2006, 0x2007, 0x2008, 0x2009, 0x200A, 0x2028, 0x2029, 0x202F, 0x205F, 0x3000]"

datatype TrimPositions = TRIM_NONE | TRIM_LEADING | TRIM_TRAILING | TRIM_ALL

definition trims_leading :: "TrimPositions \<Rightarrow> bool" where
  "trims_leading p \<longleftrightarrow> p = TRIM_LEADING \<or> p = TRIM_ALL"

definition trims_trailing :: "TrimPositions \<Rightarrow> bool" where
  "trims_trailing p \<longleftrightarrow> p = TRIM_TRAILING \<or> p = TRIM_ALL"

definition of_flags :: "bool \<Rightarrow> bool \<Rightarrow> TrimPositions" where
  "of_flags leading trailing = (if leading then (if trailing then TRIM_ALL else TRIM_LEADING)
     else (if trailing then TRIM_TRAILING else TRIM_NONE))"

text \<open>\<open>first\<close> and \<open>final\<close> are the results of \<open>find_first_not_of\<close> and \<open>find_last_not_of\<close>; sums and differences of sizes wrap.\<close>

definition TrimStringPieceT :: "('u list \<Rightarrow> nat option) \<Rightarrow> ('u list \<Rightarrow> nat option) \<Rightarrow> 'u list \<Rightarrow> TrimPositions \<Rightarrow> 'u list" where
  "TrimStringPieceT first final input positions =
     (let begin = (if trims_leading positions then (case first input of None \<Rightarrow> npos | Some i \<Rightarrow> i) else 0);
          end = (if trims_trailing positions then ((case final input of None \<Rightarrow> npos | Some i \<Rightarrow> i) + 1) mod 2 ^ 64 else length input)
      in substr input begin ((end + 2 ^ 64 - begin) mod 2 ^ 64))"

definition TrimStringT :: "('u list \<Rightarrow> nat option) \<Rightarrow> ('u list \<Rightarrow> nat option) \<Rightarrow> 'u list \<Rightarrow> TrimPositions \<Rightarrow> TrimPositions \<times> 'u list" where
  "TrimStringT first final input positions =
     (let last_char = length input - 1;
          first_good_char = (if trims_leading positions then first input else Some 0);
          last_good_char = (if trims_trailing positions then final input else Some last_char)
      in if input = [] then (TRIM_NONE, [])
         else (case (first_good_char, last_good_char) of
                 (Some i, Some j) \<Rightarrow> (of_flags (i \<noteq> 0) (j \<noteq> last_char), take (j + 1 - i) (drop i input))
               | _ \<Rightarrow> (positions, [])))"

definition TrimString8 :: "byte list \<Rightarrow> byte list \<Rightarrow> TrimPositions \<Rightarrow> byte list" where
  "TrimString8 input trim_chars positions =
     TrimStringPieceT (\<lambda>s. find_first_not_of8 s trim_chars 0) (\<lambda>s. find_last_not_of8 s trim_chars npos) input positions"

definition TrimString16 :: "16 word list \<Rightarrow> 16 word list \<Rightarrow> TrimPositions \<Rightarrow> 16 word list" where
  "TrimString16 input trim_chars positions =
     TrimStringPieceT (\<lambda>s. find_first_not_of16 s trim_chars 0) (\<lambda>s. find_last_not_of16 s trim_chars npos) input positions"

section \<open>Splitting and joining\<close>

datatype WhitespaceHandling = KEEP_WHITESPACE | TRIM_WHITESPACE
datatype SplitResult = SPLIT_WANT_ALL | SPLIT_WANT_NONEMPTY

text \<open>A piece that has been found is trimmed and added; \<open>trim\<close> is \<open>TrimString\<close> with the white space of the width.\<close>

definition add_piece :: "('u list \<Rightarrow> 'u list) \<Rightarrow> WhitespaceHandling \<Rightarrow> SplitResult \<Rightarrow> 'u list \<Rightarrow> 'u list list" where
  "add_piece trim whitespace result_type piece =
     (let piece = (if whitespace = TRIM_WHITESPACE then trim piece else piece)
      in if result_type = SPLIT_WANT_ALL \<or> piece \<noteq> [] then [piece] else [])"

text \<open>\<open>FindFirstOf\<close> has the delimiter built in.  A result before \<open>start\<close> or behind the string does not occur.\<close>

function split_loop :: "('u list \<Rightarrow> nat \<Rightarrow> nat option) \<Rightarrow> ('u list \<Rightarrow> 'u list list) \<Rightarrow> 'u list \<Rightarrow> nat \<Rightarrow> 'u list list" where
  "split_loop FindFirstOf add str start =
     (case FindFirstOf str start of None \<Rightarrow> add (substr str start npos)
      | Some end \<Rightarrow> if start \<le> end \<and> end < length str
          then add (substr str start (end - start)) @ split_loop FindFirstOf add str (end + 1) else [])"
  by pat_completeness auto
termination by (relation "measure (\<lambda>(FindFirstOf, add, str, start). Suc (length str) - start)") auto

declare split_loop.simps [simp del]

definition SplitStringT :: "('u list \<Rightarrow> nat \<Rightarrow> nat option) \<Rightarrow> ('u list \<Rightarrow> 'u list) \<Rightarrow>
    WhitespaceHandling \<Rightarrow> SplitResult \<Rightarrow> 'u list \<Rightarrow> 'u list list" where
  "SplitStringT FindFirstOf trim whitespace result_type str =
     (if str = [] then [] else split_loop FindFirstOf (add_piece trim whitespace result_type) str 0)"

definition trim8 :: "byte list \<Rightarrow> byte list" where
  "trim8 piece = TrimString8 piece kWhitespaceASCII TRIM_ALL"

definition trim16 :: "16 word list \<Rightarrow> 16 word list" where
  "trim16 piece = TrimString16 piece kWhitespaceUTF16 TRIM_ALL"

definition SplitString8 :: "byte list \<Rightarrow> byte list \<Rightarrow> WhitespaceHandling \<Rightarrow> SplitResult \<Rightarrow> byte list list" where
  "SplitString8 input separators whitespace result_type =
     (if length separators = 1
      then SplitStringT (\<lambda>s pos. find_char s (separators ! 0) pos) trim8 whitespace result_type input
      else SplitStringT (\<lambda>s pos. find_first_of8 s separators pos) trim8 whitespace result_type input)"

definition SplitString16 :: "16 word list \<Rightarrow> 16 word list \<Rightarrow> WhitespaceHandling \<Rightarrow> SplitResult \<Rightarrow> 16 word list list" where
  "SplitString16 input separators whitespace result_type =
     (if length separators = 1
      then SplitStringT (\<lambda>s pos. find_char s (separators ! 0) pos) trim16 whitespace result_type input
      else SplitStringT (\<lambda>s pos. find_first_of16 s separators pos) trim16 whitespace result_type input)"

partial_function (option) substr_loop ::
  "('u list \<Rightarrow> 'u list list) \<Rightarrow> 'u list \<Rightarrow> 'u list \<Rightarrow> nat \<Rightarrow> 'u list list \<Rightarrow> 'u list list option" where
  "substr_loop add input delimiter begin_index result =
     (case find_string input delimiter begin_index of
        None \<Rightarrow> Some (result @ add (substr input begin_index npos))
      | Some end_index \<Rightarrow> substr_loop add input delimiter (end_index + length delimiter)
                            (result @ add (substr input begin_index (end_index - begin_index))))"

definition SplitStringUsingSubstr8 :: "byte list \<Rightarrow> byte list \<Rightarrow> WhitespaceHandling \<Rightarrow> SplitResult \<Rightarrow> byte list list option" where
  "SplitStringUsingSubstr8 input delimiter whitespace result_type =
     substr_loop (add_piece trim8 whitespace result_type) input delimiter 0 []"

definition SplitStringUsingSubstr16 ::
  "16 word list \<Rightarrow> 16 word list \<Rightarrow> WhitespaceHandling \<Rightarrow> SplitResult \<Rightarrow> 16 word list list option" where
  "SplitStringUsingSubstr16 input delimiter whitespace result_type =
     substr_loop (add_piece trim16 whitespace result_type) input delimiter 0 []"

text \<open>The new pair and whether it is complete.\<close>

definition AppendStringKeyValue :: "byte list \<Rightarrow> byte \<Rightarrow> bool \<times> byte list \<times> byte list" where
  "AppendStringKeyValue input delimiter =
     (case find_char input delimiter 0 of None \<Rightarrow> (False, [], [])
      | Some end_key_pos \<Rightarrow>
          (let remains = substr input end_key_pos (length input - end_key_pos)
           in case find_first_not_of_char remains delimiter 0 of None \<Rightarrow> (False, substr input 0 end_key_pos, [])
              | Some begin_value_pos \<Rightarrow>
                  (True, substr input 0 end_key_pos, substr remains begin_value_pos (length remains - begin_value_pos))))"

definition SplitStringIntoKeyValuePairs :: "byte list \<Rightarrow> byte \<Rightarrow> byte \<Rightarrow> bool \<times> (byte list \<times> byte list) list" where
  "SplitStringIntoKeyValuePairs input key_value_delimiter key_value_pair_delimiter =
     (let pairs = SplitString8 input [key_value_pair_delimiter] TRIM_WHITESPACE SPLIT_WANT_NONEMPTY;
          results = map (\<lambda>p. AppendStringKeyValue p key_value_delimiter) pairs
      in (list_all fst results, map snd results))"

text \<open>\<open>None\<close> if the length computed in advance is not that of the result.\<close>

definition JoinStringT :: "'u list list \<Rightarrow> 'u list \<Rightarrow> 'u list option" where
  "JoinStringT parts sep =
     (case parts of [] \<Rightarrow> Some []
      | part # rest \<Rightarrow>
          (let total_size = (length parts - 1) * length sep + sum_list (map length parts);
               result = fold (\<lambda>part result. result @ sep @ part) rest part
           in if total_size = length result then Some result else None))"

section \<open>The reference\<close>

fun pieces :: "('u \<Rightarrow> bool) \<Rightarrow> 'u list \<Rightarrow> 'u list list" where
  "pieces d [] = [[]]"
| "pieces d (x # s) = (if d x then [] # pieces d s else (x # hd (pieces d s)) # tl (pieces d s))"

function pieces_by :: "'u list \<Rightarrow> 'u list \<Rightarrow> 'u list list" where
  "pieces_by m [] = [[]]"
| "pieces_by m (x # s) = (if m \<noteq> [] \<and> match_here m (x # s) then [] # pieces_by m (drop (length m) (x # s))
     else (x # hd (pieces_by m s)) # tl (pieces_by m s))"
  by pat_completeness auto
termination by (relation "measure (length \<circ> snd)") auto

definition wanted :: "('u \<Rightarrow> bool) \<Rightarrow> WhitespaceHandling \<Rightarrow> SplitResult \<Rightarrow> 'u list list \<Rightarrow> 'u list list" where
  "wanted space whitespace result_type ps =
     (let ps = (if whitespace = TRIM_WHITESPACE then map (\<lambda>p. rev (dropWhile space (rev (dropWhile space p)))) ps else ps)
      in if result_type = SPLIT_WANT_ALL then ps else filter (\<lambda>p. p \<noteq> []) ps)"

definition joined :: "'u list \<Rightarrow> 'u list list \<Rightarrow> 'u list" where
  "joined sep ps = (case ps of [] \<Rightarrow> [] | p # ps \<Rightarrow> p @ concat (map (\<lambda>q. sep @ q) ps))"

section \<open>Indices\<close>

lemma first_index_None: "first_index test s pos = None \<longleftrightarrow> (\<forall>x \<in> set (drop pos s). \<not> test x)"
proof -
  have "drop pos s = map ((!) s) [pos..<length s]" by (rule nth_equalityI) auto
  then show ?thesis by (auto simp: first_index_def find_None_iff)
qed

lemma first_index_Some:
  assumes "first_index test s pos = Some i"
  obtains a x b where "drop pos s = a @ x # b" "length a = i - pos" "test x" "\<forall>y \<in> set a. \<not> test y" "pos \<le> i" "i < length s"
    "drop (Suc i) s = b"
proof -
  from assms obtain k where k: "k < length s - pos" "i = pos + k" "test (s ! i)" "\<forall>j<k. \<not> test (s ! (pos + j))"
    by (auto simp: first_index_def find_Some_iff)
  show ?thesis
  proof (rule that [of "take k (drop pos s)" "s ! i" "drop (Suc i) s"])
    show "drop pos s = take k (drop pos s) @ s ! i # drop (Suc i) s"
      using k(1,2) append_take_drop_id [of k "drop pos s"] by (simp add: Cons_nth_drop_Suc add.commute)
    show "\<forall>y \<in> set (take k (drop pos s)). \<not> test y" using k by (auto simp: in_set_conv_nth)
  qed (use k in auto)
qed

lemma first_index_append: "\<forall>y \<in> set a. \<not> test y \<Longrightarrow> test x \<Longrightarrow> first_index test (a @ x # b) 0 = Some (length a)"
  by (auto simp: first_index_def find_Some_iff nth_append intro!: exI [of _ "length a"])

lemma last_index_append:
  assumes "\<forall>y \<in> set b. \<not> test y" "test x" "length (a @ x # b) \<le> pos"
  shows "last_index test (a @ x # b) pos = Some (length a)"
proof -
  have "(rev [0..<length (a @ x # b)]) ! i = length (a @ x # b) - Suc i" if "i < length (a @ x # b)" for i
    using that by (simp add: rev_nth del: upt_Suc length_append)
  then have "find (\<lambda>i. test ((a @ x # b) ! i)) (rev [0..<length (a @ x # b)]) = Some (length a)"
    unfolding find_Some_iff using assms(1,2)
    by (intro exI [of _ "length b"]) (auto simp: nth_append nth_Cons' simp del: upt_Suc)
  then show ?thesis using assms(3) by (simp add: last_index_def min_def)
qed

lemma index_none: "\<forall>y \<in> set s. \<not> test y \<Longrightarrow> first_index test s pos = None \<and> last_index test s pos = None"
  by (auto simp: first_index_None last_index_def find_None_iff dest: in_set_dropD)

text \<open>A string is white space, or white space around a string that neither begins nor ends with it.\<close>

lemma trim_cases:
  obtains "\<forall>x \<in> set s. space x"
  | a m b where "s = a @ m @ b" "\<forall>x \<in> set a. space x" "\<forall>x \<in> set b. space x" "m \<noteq> []" "\<not> space (hd m)" "\<not> space (last m)"
proof (cases "\<forall>x \<in> set s. space x")
  case False
  let ?t = "dropWhile space s"
  let ?m = "rev (dropWhile space (rev ?t))"
  have s: "s = takeWhile space s @ ?m @ rev (takeWhile space (rev ?t))"
    by (metis append.assoc rev_append rev_rev_ident takeWhile_dropWhile_id)
  have t: "?t \<noteq> []" "\<not> space (hd ?t)" using False hd_dropWhile [of space s] by auto
  then have "\<exists>x \<in> set (rev ?t). \<not> space x" by (metis hd_in_set set_rev)
  then have m: "?m \<noteq> []" and "\<not> space (hd (dropWhile space (rev ?t)))"
    using hd_dropWhile [of space "rev ?t"] by auto
  then have l: "\<not> space (last ?m)" by (simp add: last_rev)
  have "?t = ?m @ rev (takeWhile space (rev ?t))" by (metis rev_append rev_rev_ident takeWhile_dropWhile_id)
  then have "hd ?m = hd ?t" using m by (metis hd_append2)
  then show ?thesis using that(2) [OF s] m l t(2) by (auto dest: set_takeWhileD)
qed (use that in blast)

section \<open>Trimming\<close>

abbreviation trimmed :: "('u \<Rightarrow> bool) \<Rightarrow> 'u list \<Rightarrow> 'u list" where
  "trimmed space s \<equiv> rev (dropWhile space (rev (dropWhile space s)))"

lemma dropWhile_prefix: "\<forall>x \<in> set a. P x \<Longrightarrow> m \<noteq> [] \<Longrightarrow> \<not> P (hd m) \<Longrightarrow> dropWhile P (a @ m @ b) = m @ b"
  by (cases m) (simp_all add: dropWhile_append2)

lemma trimmed_middle:
  assumes "\<forall>x \<in> set a. space x" "\<forall>x \<in> set b. space x" "m \<noteq> []" "\<not> space (hd m)" "\<not> space (last m)"
  shows "trimmed space (a @ m @ b) = m"
  using dropWhile_prefix [of a space m b] dropWhile_prefix [of "rev b" space "rev m" "[]"] assms by (simp add: hd_rev)

lemma TrimStringPieceT_trims:
  assumes "length s < npos" and "\<And>s. first s = first_index (\<lambda>x. \<not> space x) s 0" "\<And>s. final s = last_index (\<lambda>x. \<not> space x) s npos"
  shows "TrimStringPieceT first final s TRIM_ALL = trimmed space s"
proof (cases s space rule: trim_cases)
  case 1
  then have "first s = None" "final s = None" using index_none [of s "\<lambda>x. \<not> space x"] assms by auto
  moreover have "trimmed space s = []" "drop (2 ^ 64 - 1) s = []"
    using 1 assms(1) dropWhile_eq_Nil_conv [of space s] by (simp_all add: npos_def del: dropWhile_eq_Nil_conv)
  ultimately show ?thesis
    by (simp add: TrimStringPieceT_def trims_leading_def trims_trailing_def Let_def substr_take_drop npos_def)
next
  case (2 a m b)
  obtain x m1 where m1: "m = x # m1" using 2(4) by (cases m) auto
  obtain m2 y where m2: "m = m2 @ [y]" using 2(4) by (cases m rule: rev_cases) auto
  have "first s = Some (length a)" using first_index_append [of a "\<lambda>x. \<not> space x" x "m1 @ b"] 2 m1 assms by auto
  moreover have "final s = Some (length (a @ m2))"
    using last_index_append [of b "\<lambda>x. \<not> space x" y "a @ m2" npos] 2 m2 assms by auto
  moreover have "Suc (length (a @ m2)) = length (a @ m)" using m2 by simp
  moreover have "length (a @ m) < 2 ^ 64" using assms(1) 2(1) by (simp add: npos_def)
  moreover have "(18446744073709551617 + length m2) mod 18446744073709551616 = length m"
  proof -
    have "18446744073709551617 + length m2 = length m + 18446744073709551616" "length m < 18446744073709551616"
      using calculation(3,4) by simp_all
    then show ?thesis by (simp only: mod_add_self2 mod_less)
  qed
  ultimately have "TrimStringPieceT first final s TRIM_ALL = m"
    using 2(1) by (simp add: TrimStringPieceT_def trims_leading_def trims_trailing_def Let_def substr_take_drop)
  then show ?thesis using trimmed_middle [OF 2(2-6)] 2(1) by simp
qed

text \<open>The routine that also reports where it trimmed returns the same string as the one on pieces.\<close>

lemma TrimStringT_trims:
  assumes "length s < npos" and "first s = first_index (\<lambda>x. \<not> space x) s 0" "final s = last_index (\<lambda>x. \<not> space x) s npos"
  shows "TrimStringT first final s TRIM_ALL = (of_flags (s \<noteq> [] \<and> space (hd s)) (s \<noteq> [] \<and> space (last s)), trimmed space s)"
proof (cases s space rule: trim_cases)
  case 1
  then have "first s = None" "final s = None" using index_none [of s "\<lambda>x. \<not> space x"] assms by auto
  moreover have "trimmed space s = []"
    using 1 dropWhile_eq_Nil_conv [of space s] by (simp del: dropWhile_eq_Nil_conv)
  ultimately show ?thesis using 1 by (auto simp: TrimStringT_def of_flags_def trims_leading_def trims_trailing_def)
next
  case (2 a m b)
  obtain x m1 where m1: "m = x # m1" using 2(4) by (cases m) auto
  obtain m2 y where m2: "m = m2 @ [y]" using 2(4) by (cases m rule: rev_cases) auto
  have "first s = Some (length a)" using first_index_append [of a "\<lambda>x. \<not> space x" x "m1 @ b"] 2 m1 assms by auto
  moreover have "final s = Some (length (a @ m2))"
    using last_index_append [of b "\<lambda>x. \<not> space x" y "a @ m2" npos] 2 m2 assms by auto
  moreover have "Suc (length (a @ m2)) = length (a @ m)" using m2 by simp
  moreover have "a \<noteq> [] \<longleftrightarrow> space (hd s)" using 2 by (cases a) auto
  moreover have "b \<noteq> [] \<longleftrightarrow> space (last s)" using 2 by (cases b rule: rev_cases) auto
  ultimately show ?thesis using 2(1) m2 trimmed_middle [OF 2(2-6)]
    by (auto simp: TrimStringT_def trims_leading_def trims_trailing_def Let_def)
qed

lemma trim_white_space:
  "length s < npos \<Longrightarrow> trim8 s = trimmed (\<lambda>c. c \<in> set kWhitespaceASCII) s"
  "length t < npos \<Longrightarrow> trim16 t = trimmed (\<lambda>c. c \<in> set kWhitespaceUTF16) t"
proof -
  have "length kWhitespaceASCII = 6" "kWhitespaceASCII \<noteq> []" by (simp_all add: kWhitespaceASCII_def)
  then show "length s < npos \<Longrightarrow> trim8 s = trimmed (\<lambda>c. c \<in> set kWhitespaceASCII) s"
    unfolding trim8_def TrimString8_def by (intro TrimStringPieceT_trims) (auto simp: search_defs Let_def)
  show "length t < npos \<Longrightarrow> trim16 t = trimmed (\<lambda>c. c \<in> set kWhitespaceUTF16) t"
    unfolding trim16_def TrimString16_def by (intro TrimStringPieceT_trims) (auto simp: search_defs)
qed

section \<open>Splitting at characters\<close>

lemma pieces_nonempty [simp]: "pieces d s \<noteq> []"
  by (cases s) auto

lemma pieces_none: "\<forall>x \<in> set s. \<not> d x \<Longrightarrow> pieces d s = [s]"
  by (induction s) auto

lemma pieces_first: "\<forall>x \<in> set a. \<not> d x \<Longrightarrow> d x \<Longrightarrow> pieces d (a @ x # b) = a # pieces d b"
  by (induction a) auto

lemma pieces_short: "p \<in> set (pieces d s) \<Longrightarrow> length p \<le> length s"
proof (induction s arbitrary: p)
  case (Cons x s)
  have "hd (pieces d s) \<in> set (pieces d s)" "set (tl (pieces d s)) \<subseteq> set (pieces d s)"
    by (auto intro: list.set_sel(2))
  then show ?case using Cons by (auto split: if_splits intro: le_SucI)
qed simp

lemma split_loop_pieces:
  assumes "length str < 2 ^ 64" and "start \<le> length str" and f: "\<And>pos. pos \<le> length str \<Longrightarrow> FindFirstOf str pos = first_index d str pos"
  shows "split_loop FindFirstOf add str start = concat (map add (pieces d (drop start str)))"
  using assms(2)
proof (induction "length str - start" arbitrary: start rule: less_induct)
  case less
  show ?case
  proof (cases "first_index d str start")
    case None
    then have "pieces d (drop start str) = [drop start str]" by (simp add: first_index_None pieces_none)
    moreover have "take npos (drop start str) = drop start str" using assms(1) by (simp add: npos_def)
    ultimately show ?thesis using None f [OF less.prems] by (subst split_loop.simps) (simp add: substr_take_drop)
  next
    case (Some i)
    from first_index_Some [OF Some] obtain a x b where a: "drop start str = a @ x # b" "length a = i - start" "d x"
      "\<forall>y \<in> set a. \<not> d y" "start \<le> i" "i < length str" "drop (Suc i) str = b" by metis
    have "split_loop FindFirstOf add str start = add a @ split_loop FindFirstOf add str (Suc i)"
      using f [OF less.prems] Some a by (subst split_loop.simps) (simp add: substr_take_drop)
    then show ?thesis using less.hyps [of "Suc i"] a pieces_first [of a d x b] by simp
  qed
qed

lemma add_piece_wanted:
  assumes "\<And>p. p \<in> set ps \<Longrightarrow> trim p = trimmed space p"
  shows "concat (map (add_piece trim whitespace result_type) ps) = wanted space whitespace result_type ps"
  using assms by (induction ps) (auto simp: add_piece_def wanted_def Let_def)

lemma SplitStringT_wanted:
  assumes "length str < npos" and "\<And>pos. FindFirstOf str pos = first_index d str pos" and "\<And>p. length p < npos \<Longrightarrow> trim p = trimmed space p"
  shows "SplitStringT FindFirstOf trim whitespace result_type str =
    (if str = [] then [] else wanted space whitespace result_type (pieces d str))"
proof -
  have "trim p = trimmed space p" if "p \<in> set (pieces d str)" for p
    using pieces_short [OF that] assms(1,3) by simp
  moreover have "length str < 2 ^ 64" using assms(1) by (simp add: npos_def)
  ultimately show ?thesis using split_loop_pieces [of str 0 FindFirstOf d] assms(2)
    by (simp add: SplitStringT_def add_piece_wanted)
qed

lemma SplitString_wanted:
  "length s < npos \<Longrightarrow> SplitString8 s seps whitespace result_type =
    (if s = [] then [] else wanted (\<lambda>c. c \<in> set kWhitespaceASCII) whitespace result_type (pieces (\<lambda>c. c \<in> set seps) s))"
  "length t < npos \<Longrightarrow> SplitString16 t seps16 whitespace result_type =
    (if t = [] then [] else wanted (\<lambda>c. c \<in> set kWhitespaceUTF16) whitespace result_type (pieces (\<lambda>c. c \<in> set seps16) t))"
proof -
  assume "length s < npos"
  then show "SplitString8 s seps whitespace result_type =
      (if s = [] then [] else wanted (\<lambda>c. c \<in> set kWhitespaceASCII) whitespace result_type (pieces (\<lambda>c. c \<in> set seps) s))"
    using trim_white_space(1) SplitStringT_wanted [of s _ "\<lambda>c. c \<in> set seps" trim8]
    by (cases "length seps = 1") (auto simp: SplitString8_def search_defs Let_def dest!: single)
next
  assume "length t < npos"
  then show "SplitString16 t seps16 whitespace result_type =
      (if t = [] then [] else wanted (\<lambda>c. c \<in> set kWhitespaceUTF16) whitespace result_type (pieces (\<lambda>c. c \<in> set seps16) t))"
    using trim_white_space(2) SplitStringT_wanted [of t _ "\<lambda>c. c \<in> set seps16" trim16]
    by (cases "length seps16 = 1") (auto simp: SplitString16_def search_defs dest!: single)
qed

section \<open>Splitting at a substring\<close>

lemma find_string_scan:
  "delimiter \<noteq> [] \<Longrightarrow> start \<le> length s \<Longrightarrow>
    find_string s delimiter start = map_option ((+) start) (scan (match_here delimiter) (drop start s))"
proof -
  assume "delimiter \<noteq> []" "start \<le> length s"
  then have "find (\<lambda>i. match_here delimiter (drop i s)) [start..<Suc (length s)] = first_from (match_here delimiter) s start"
    unfolding first_from_def by (auto simp: find_snoc match_here_def split: option.splits)
  then show ?thesis using \<open>start \<le> length s\<close> by (simp add: find_string_first first_from_scan)
qed

lemma pieces_by_scan:
  assumes "m \<noteq> []"
  shows "pieces_by m s = (case scan (match_here m) s of None \<Rightarrow> [s] | Some i \<Rightarrow> take i s # pieces_by m (drop (i + length m) s))"
proof (induction s)
  case (Cons x s)
  then show ?case using assms
    by (cases "scan (match_here m) s") (auto simp: add.commute [of "length m"])
qed simp

lemma substr_loop_pieces:
  assumes "length input < 2 ^ 64" and "delimiter \<noteq> []" and "start \<le> length input"
  shows "substr_loop add input delimiter start result = Some (result @ concat (map add (pieces_by delimiter (drop start input))))"
  using assms(3)
proof (induction "length input - start" arbitrary: start result rule: less_induct)
  case less
  let ?s = "scan (match_here delimiter) (drop start input)"
  have f: "find_string input delimiter start = map_option ((+) start) ?s" using less.prems assms by (simp add: find_string_scan)
  show ?case
  proof (cases ?s)
    case None
    moreover have "take npos (drop start input) = drop start input" using assms(1) by (simp add: npos_def)
    ultimately show ?thesis using f assms(2)
      by (subst substr_loop.simps) (simp add: substr_take_drop pieces_by_scan [of _ "drop start input"])
  next
    case (Some i)
    from scan_match [OF Some] match_here_length have "start + i + length delimiter \<le> length input" by fastforce
    moreover from this have "length input - (start + i + length delimiter) < length input - start" using assms(2) by (cases delimiter) auto
    ultimately show ?thesis using less.hyps [of "start + i + length delimiter"] Some f assms(2)
      by (subst substr_loop.simps) (simp add: substr_take_drop pieces_by_scan [of _ "drop start input"] ac_simps)
  qed
qed

text \<open>With an empty delimiter the search succeeds where it begins, and the loop goes on for ever.\<close>

lemma substr_loop_empty: "start \<le> length input \<Longrightarrow> substr_loop add input [] start result = None"
proof -
  have "find_string t [] b = Some b" if "b \<le> length t" for b and t :: "'a list"
    using that by (simp add: find_string_first match_here_def upt_conv_Cons del: upt_Suc)
  then have "start \<le> length input \<longrightarrow> delimiter = [] \<longrightarrow> False" if "substr_loop add input delimiter start result = Some r" for r delimiter
    by - (rule substr_loop.raw_induct [OF _ that], fastforce split: option.splits)
  then show "start \<le> length input \<Longrightarrow> substr_loop add input [] start result = None" by (cases "substr_loop add input [] start result") auto
qed

section \<open>Joining\<close>

lemma JoinStringT_joined: "JoinStringT parts sep = Some (joined sep parts)"
proof (cases parts)
  case (Cons p rest)
  have *: "fold (\<lambda>part result. result @ sep @ part) rest r = r @ concat (map (\<lambda>q. sep @ q) rest)" for r
    by (induction rest arbitrary: r) auto
  have "length (concat (map (\<lambda>q. sep @ q) rest)) = length rest * length sep + sum_list (map length rest)"
    by (induction rest) auto
  then show ?thesis using Cons * by (simp add: JoinStringT_def joined_def Let_def)
qed (simp add: JoinStringT_def joined_def)

lemma joined_Nil [simp]: "joined sep [] = []"
  by (simp add: joined_def)

lemma joined_nonempty: "joined sep ps \<noteq> [] \<Longrightarrow> ps \<noteq> []"
  by auto

lemma joined_Cons: "ps \<noteq> [] \<Longrightarrow> joined sep (p # ps) = p @ sep @ joined sep ps"
  by (cases ps) (auto simp: joined_def)

lemma joined_pieces: "joined [c] (pieces (\<lambda>x. x = c) s) = s"
proof (induction s)
  case (Cons x s)
  then show ?case by (cases "pieces (\<lambda>x. x = c) s") (auto simp: joined_def)
qed (simp add: joined_def)

lemma pieces_joined:
  assumes "ps \<noteq> []" "\<forall>p \<in> set ps. c \<notin> set p"
  shows "pieces (\<lambda>x. x = c) (joined [c] ps) = ps"
  using assms
proof (induction ps rule: list_nonempty_induct)
  case (single p)
  then show ?case using pieces_none [of p "\<lambda>x. x = c"] by (auto simp: joined_def)
next
  case (cons p ps)
  then have "\<forall>x \<in> set p. \<not> x = c" by auto
  then show ?case using cons pieces_first [of p "\<lambda>x. x = c" c "joined [c] ps"] by (simp add: joined_Cons)
qed

lemma pieces_by_nonempty [simp]: "pieces_by m s \<noteq> []"
  by (induction m s rule: pieces_by.induct) auto

lemma pieces_by_short: "p \<in> set (pieces_by m s) \<Longrightarrow> length p \<le> length s"
proof (induction m s arbitrary: p rule: pieces_by.induct)
  case (2 m x s)
  have "hd (pieces_by m s) \<in> set (pieces_by m s)" "set (tl (pieces_by m s)) \<subseteq> set (pieces_by m s)"
    by (auto intro: list.set_sel(2))
  then show ?case using 2 by (fastforce split: if_splits intro: le_SucI)
qed simp

lemma joined_pieces_by: "m \<noteq> [] \<Longrightarrow> joined m (pieces_by m s) = s"
proof (induction m s rule: pieces_by.induct)
  case (2 m x s)
  show ?case
  proof (cases "match_here m (x # s)")
    case True
    then have "m @ drop (length m) (x # s) = x # s" unfolding match_here_def by (metis append_take_drop_id)
    then show ?thesis using 2 True by (simp add: joined_Cons)
  next
    case False
    then show ?thesis using 2 by (cases "pieces_by m s") (auto simp: joined_def)
  qed
qed (simp add: joined_def)

lemma SplitStringUsingSubstr_wanted:
  "length s < npos \<Longrightarrow> m \<noteq> [] \<Longrightarrow>
    SplitStringUsingSubstr8 s m whitespace result_type = Some (wanted (\<lambda>c. c \<in> set kWhitespaceASCII) whitespace result_type (pieces_by m s))"
  "length t < npos \<Longrightarrow> n \<noteq> [] \<Longrightarrow>
    SplitStringUsingSubstr16 t n whitespace result_type = Some (wanted (\<lambda>c. c \<in> set kWhitespaceUTF16) whitespace result_type (pieces_by n t))"
proof -
  assume s: "length s < npos" "m \<noteq> []"
  then have "trim8 p = trimmed (\<lambda>c. c \<in> set kWhitespaceASCII) p" if "p \<in> set (pieces_by m s)" for p
    using trim_white_space(1) [of p] pieces_by_short [OF that] by simp
  then show "SplitStringUsingSubstr8 s m whitespace result_type = Some (wanted (\<lambda>c. c \<in> set kWhitespaceASCII) whitespace result_type (pieces_by m s))"
    using substr_loop_pieces [of s m 0] add_piece_wanted [of "pieces_by m s" trim8 "\<lambda>c. c \<in> set kWhitespaceASCII"] s by (simp add: SplitStringUsingSubstr8_def npos_def)
next
  assume t: "length t < npos" "n \<noteq> []"
  then have "trim16 p = trimmed (\<lambda>c. c \<in> set kWhitespaceUTF16) p" if "p \<in> set (pieces_by n t)" for p
    using trim_white_space(2) [of p] pieces_by_short [OF that] by simp
  then show "SplitStringUsingSubstr16 t n whitespace result_type = Some (wanted (\<lambda>c. c \<in> set kWhitespaceUTF16) whitespace result_type (pieces_by n t))"
    using substr_loop_pieces [of t n 0] add_piece_wanted [of "pieces_by n t" trim16 "\<lambda>c. c \<in> set kWhitespaceUTF16"] t by (simp add: SplitStringUsingSubstr16_def npos_def)
qed

lemma SplitStringUsingSubstr_empty:
  "SplitStringUsingSubstr8 s [] whitespace result_type = None" "SplitStringUsingSubstr16 t [] whitespace result_type = None"
  by (simp_all add: SplitStringUsingSubstr8_def SplitStringUsingSubstr16_def substr_loop_empty)

section \<open>Splitting and joining are inverse\<close>

lemma wanted_all [simp]: "wanted space KEEP_WHITESPACE SPLIT_WANT_ALL ps = ps"
  by (simp add: wanted_def)

text \<open>The key may be empty, and a string without a pair is split successfully.\<close>

lemma SplitStringIntoKeyValuePairs_empty_key:
  "SplitStringIntoKeyValuePairs [61, 118] 61 44 = (True, [([], [118])])"
proof -
  have "SplitString8 [61, 118] [44] TRIM_WHITESPACE SPLIT_WANT_NONEMPTY = [[61, 118]]"
    by (subst SplitString_wanted(1)) (simp_all add: npos_def wanted_def kWhitespaceASCII_def)
  then show ?thesis
    by (simp add: SplitStringIntoKeyValuePairs_def AppendStringKeyValue_def search_defs first_index_def substr_take_drop upt_rec)
qed

text \<open>
  C37: For strings shorter than \<open>npos\<close>, of both widths: splitting gives the pieces between the characters of \<open>separators\<close>,
  or between the occurrences of a non-empty delimiter from left to right, trimmed and without the empty ones as asked; with
  an empty delimiter \<open>SplitStringUsingSubstr\<close> does not return.  Joining the pieces of a split at one character, or at a
  delimiter, gives the string, and splitting a joined list at the character gives the list, provided that the
  character is in no part and the joined string is not empty.
\<close>

theorem split_join:
  fixes s seps m :: "byte list" and t seps16 n :: "16 word list"
  assumes "length s < npos" and "length t < npos"
  shows "SplitString8 s seps whitespace result_type =
      (if s = [] then [] else wanted (\<lambda>c. c \<in> set kWhitespaceASCII) whitespace result_type (pieces (\<lambda>c. c \<in> set seps) s)) \<and>
    SplitString16 t seps16 whitespace result_type =
      (if t = [] then [] else wanted (\<lambda>c. c \<in> set kWhitespaceUTF16) whitespace result_type (pieces (\<lambda>c. c \<in> set seps16) t)) \<and>
    SplitStringUsingSubstr8 s m whitespace result_type =
      (if m = [] then None else Some (wanted (\<lambda>c. c \<in> set kWhitespaceASCII) whitespace result_type (pieces_by m s))) \<and>
    SplitStringUsingSubstr16 t n whitespace result_type =
      (if n = [] then None else Some (wanted (\<lambda>c. c \<in> set kWhitespaceUTF16) whitespace result_type (pieces_by n t))) \<and>
    JoinStringT (SplitString8 s [c] KEEP_WHITESPACE SPLIT_WANT_ALL) [c] = Some s \<and>
    JoinStringT (SplitString16 t [c16] KEEP_WHITESPACE SPLIT_WANT_ALL) [c16] = Some t \<and>
    (m \<noteq> [] \<longrightarrow> Option.bind (SplitStringUsingSubstr8 s m KEEP_WHITESPACE SPLIT_WANT_ALL) (\<lambda>ps. JoinStringT ps m) = Some s) \<and>
    (n \<noteq> [] \<longrightarrow> Option.bind (SplitStringUsingSubstr16 t n KEEP_WHITESPACE SPLIT_WANT_ALL) (\<lambda>ps. JoinStringT ps n) = Some t) \<and>
    (JoinStringT ps [c] = Some s \<and> s \<noteq> [] \<and> list_all (\<lambda>p. c \<notin> set p) ps \<longrightarrow>
       SplitString8 s [c] KEEP_WHITESPACE SPLIT_WANT_ALL = ps) \<and>
    (JoinStringT ps16 [c16] = Some t \<and> t \<noteq> [] \<and> list_all (\<lambda>p. c16 \<notin> set p) ps16 \<longrightarrow>
       SplitString16 t [c16] KEEP_WHITESPACE SPLIT_WANT_ALL = ps16)"
  using assms pieces_joined [of ps c] pieces_joined [of ps16 c16]
  by (intro conjI) (auto simp: SplitString_wanted SplitStringUsingSubstr_wanted SplitStringUsingSubstr_empty
      JoinStringT_joined joined_pieces joined_pieces_by list_all_iff dest: joined_nonempty)

theorem split_join_witness:
  "SplitString8 [97, 44, 98] [44] KEEP_WHITESPACE SPLIT_WANT_ALL = [[97], [98]] \<and>
    SplitStringUsingSubstr8 [97, 44, 98] [44] KEEP_WHITESPACE SPLIT_WANT_ALL = Some [[97], [98]]"
  using split_join [of "[97, 44, 98]" "[]" "[44]" KEEP_WHITESPACE SPLIT_WANT_ALL "[]" "[44]" "[1]" 44 44 "[[97], [98]]" "[]"]
  by (simp add: npos_def match_here_def)

end
