(* ===== verification/String_Case.thy ===== *)
theory String_Case
  imports String_Piece "HOL-Library.Sublist" "HOL-Library.List_Lexorder"
begin

text \<open>
  ASCII case, prefixes and suffixes (\<open>base/strings/string_util.h\<close> and \<open>base/strings/string_util.cc\<close>).

  A template over the two widths takes the conversion of a character to lower case and, where characters are compared, their
  values as arguments: \<open>char\<close> is signed and \<open>char16\<close> is not.
\<close>

section \<open>The program\<close>

definition ToLowerASCII8 :: "byte \<Rightarrow> byte" where
  "ToLowerASCII8 c = (if 0x41 \<le> sint c \<and> sint c \<le> 0x5A then c + 0x20 else c)"

definition ToLowerASCII16 :: "16 word \<Rightarrow> 16 word" where
  "ToLowerASCII16 c = (if 0x41 \<le> uint c \<and> uint c \<le> 0x5A then c + 0x20 else c)"

definition ToUpperASCII8 :: "byte \<Rightarrow> byte" where
  "ToUpperASCII8 c = (if 0x61 \<le> sint c \<and> sint c \<le> 0x7A then c - 0x20 else c)"

definition ToUpperASCII16 :: "16 word \<Rightarrow> 16 word" where
  "ToUpperASCII16 c = (if 0x61 \<le> uint c \<and> uint c \<le> 0x7A then c - 0x20 else c)"

text \<open>\<open>ToLowerASCIIImpl\<close> and \<open>ToUpperASCIIImpl\<close>.\<close>

fun ConvertImpl :: "('u \<Rightarrow> 'u) \<Rightarrow> 'u list \<Rightarrow> nat \<Rightarrow> 'u list \<Rightarrow> 'u list" where
  "ConvertImpl convert str 0 ret = ret"
| "ConvertImpl convert str (Suc n) ret = ConvertImpl convert str n (ret @ [convert (str ! (length str - Suc n))])"

definition ToLowerASCII_string :: "byte list \<Rightarrow> byte list" where
  "ToLowerASCII_string str = ConvertImpl ToLowerASCII8 str (length str) []"

definition ToLowerASCII_string16 :: "16 word list \<Rightarrow> 16 word list" where
  "ToLowerASCII_string16 str = ConvertImpl ToLowerASCII16 str (length str) []"

definition ToUpperASCII_string :: "byte list \<Rightarrow> byte list" where
  "ToUpperASCII_string str = ConvertImpl ToUpperASCII8 str (length str) []"

definition ToUpperASCII_string16 :: "16 word list \<Rightarrow> 16 word list" where
  "ToUpperASCII_string16 str = ConvertImpl ToUpperASCII16 str (length str) []"

function compare_case_loop :: "('u \<Rightarrow> 'u) \<Rightarrow> ('u \<Rightarrow> int) \<Rightarrow> 'u list \<Rightarrow> 'u list \<Rightarrow> nat \<Rightarrow> int" where
  "compare_case_loop lower val a b i =
     (if i < length a \<and> i < length b
      then (let lower_a = lower (a ! i); lower_b = lower (b ! i)
            in if val lower_a < val lower_b then - 1
               else if val lower_b < val lower_a then 1
               else compare_case_loop lower val a b (i + 1))
      else if length a = length b then 0
      else if length a < length b then - 1 else 1)"
  by pat_completeness auto
termination by (relation "measure (\<lambda>(lower, val, a, b, i). length a - i)") auto

declare compare_case_loop.simps [simp del]

definition CompareCaseInsensitiveASCII8 :: "byte list \<Rightarrow> byte list \<Rightarrow> int" where
  "CompareCaseInsensitiveASCII8 a b = compare_case_loop ToLowerASCII8 sint a b 0"

definition CompareCaseInsensitiveASCII16 :: "16 word list \<Rightarrow> 16 word list \<Rightarrow> int" where
  "CompareCaseInsensitiveASCII16 a b = compare_case_loop ToLowerASCII16 uint a b 0"

definition EqualsCaseInsensitiveASCII8 :: "byte list \<Rightarrow> byte list \<Rightarrow> bool" where
  "EqualsCaseInsensitiveASCII8 a b = (if length a \<noteq> length b then False else CompareCaseInsensitiveASCII8 a b = 0)"

definition EqualsCaseInsensitiveASCII16 :: "16 word list \<Rightarrow> 16 word list \<Rightarrow> bool" where
  "EqualsCaseInsensitiveASCII16 a b = (if length a \<noteq> length b then False else CompareCaseInsensitiveASCII16 a b = 0)"

text \<open>A \<open>char16\<close> is compared with a \<open>char\<close> as an integer, so that a negative \<open>char\<close> is equal to none.\<close>

fun lower_case_equals_loop :: "('u \<Rightarrow> 'u) \<Rightarrow> ('u \<Rightarrow> int) \<Rightarrow> 'u list \<Rightarrow> byte list \<Rightarrow> bool" where
  "lower_case_equals_loop lower val (c # str) (d # lowercase_ascii) =
     (if val (lower c) \<noteq> sint d then False else lower_case_equals_loop lower val str lowercase_ascii)"
| "lower_case_equals_loop lower val _ _ = True"

definition DoLowerCaseEqualsASCII :: "('u \<Rightarrow> 'u) \<Rightarrow> ('u \<Rightarrow> int) \<Rightarrow> 'u list \<Rightarrow> byte list \<Rightarrow> bool" where
  "DoLowerCaseEqualsASCII lower val str lowercase_ascii =
     (if length str \<noteq> length lowercase_ascii then False else lower_case_equals_loop lower val str lowercase_ascii)"

definition LowerCaseEqualsASCII8 :: "byte list \<Rightarrow> byte list \<Rightarrow> bool" where
  "LowerCaseEqualsASCII8 = DoLowerCaseEqualsASCII ToLowerASCII8 sint"

definition LowerCaseEqualsASCII16 :: "16 word list \<Rightarrow> byte list \<Rightarrow> bool" where
  "LowerCaseEqualsASCII16 = DoLowerCaseEqualsASCII ToLowerASCII16 uint"

definition EqualsASCII :: "16 word list \<Rightarrow> byte list \<Rightarrow> bool" where
  "EqualsASCII str ascii =
     (if length str \<noteq> length ascii then False else list_all2 (\<lambda>a c. sint a = uint c) ascii str)"

datatype CompareCase = SENSITIVE | INSENSITIVE_ASCII

definition StartsWithT :: "('u \<Rightarrow> 'u) \<Rightarrow> 'u list \<Rightarrow> 'u list \<Rightarrow> CompareCase \<Rightarrow> bool" where
  "StartsWithT lower str search_for case_sensitivity =
     (if length str < length search_for then False
      else (let source = substr str 0 (length search_for)
            in case case_sensitivity of SENSITIVE \<Rightarrow> source = search_for
               | INSENSITIVE_ASCII \<Rightarrow> list_all2 (\<lambda>x y. lower x = lower y) search_for source))"

definition EndsWithT :: "('u \<Rightarrow> 'u) \<Rightarrow> 'u list \<Rightarrow> 'u list \<Rightarrow> CompareCase \<Rightarrow> bool" where
  "EndsWithT lower str search_for case_sensitivity =
     (if length str < length search_for then False
      else (let source = substr str (length str - length search_for) (length search_for)
            in case case_sensitivity of SENSITIVE \<Rightarrow> source = search_for
               | INSENSITIVE_ASCII \<Rightarrow> list_all2 (\<lambda>x y. lower x = lower y) source search_for))"

definition StartsWith :: "byte list \<Rightarrow> byte list \<Rightarrow> CompareCase \<Rightarrow> bool" where
  "StartsWith = StartsWithT ToLowerASCII8"

definition StartsWith16 :: "16 word list \<Rightarrow> 16 word list \<Rightarrow> CompareCase \<Rightarrow> bool" where
  "StartsWith16 = StartsWithT ToLowerASCII16"

definition EndsWith :: "byte list \<Rightarrow> byte list \<Rightarrow> CompareCase \<Rightarrow> bool" where
  "EndsWith = EndsWithT ToLowerASCII8"

definition EndsWith16 :: "16 word list \<Rightarrow> 16 word list \<Rightarrow> CompareCase \<Rightarrow> bool" where
  "EndsWith16 = EndsWithT ToLowerASCII16"

section \<open>Three-way comparison\<close>

text \<open>Comparisons that return -1, 0 or 1 come with the key whose order they decide.\<close>

definition sign_of :: "'k::linorder \<Rightarrow> 'k \<Rightarrow> int" where
  "sign_of a b = (if a < b then - 1 else if a = b then 0 else 1)"

locale three_way =
  fixes compare :: "'a \<Rightarrow> 'a \<Rightarrow> int" and key :: "'a \<Rightarrow> 'k::linorder"
  assumes compare_key: "compare a b = sign_of (key a) (key b)"
begin

lemma flip: "compare b a = - compare a b"
  by (auto simp: compare_key sign_of_def)

lemma zero_iff: "compare a b = 0 \<longleftrightarrow> key a = key b"
  by (simp add: compare_key sign_of_def)

lemma le_iff: "compare a b \<le> 0 \<longleftrightarrow> key a \<le> key b" "compare a b < 0 \<longleftrightarrow> key a < key b"
  by (auto simp: compare_key sign_of_def)

lemma le_trans: "compare a b \<le> 0 \<Longrightarrow> compare b c \<le> 0 \<Longrightarrow> compare a c \<le> 0"
  using order_trans [of "key a" "key b" "key c"] by (simp add: le_iff)

end

lemma Nil_less: "[] < (xs :: 'k::linorder list) \<longleftrightarrow> xs \<noteq> []"
  by (cases xs) auto

lemma sign_of_Cons: "sign_of (x # a) (y # b) = (if x < y then - 1 else if y < x then 1 else sign_of a b)"
  by (auto simp: sign_of_def)

section \<open>Conversions\<close>

lemma ConvertImpl_map: "n \<le> length str \<Longrightarrow> ConvertImpl f str n ret = ret @ map f (drop (length str - n) str)"
proof (induction n arbitrary: ret)
  case (Suc n)
  then have "drop (length str - Suc n) str = str ! (length str - Suc n) # drop (length str - n) str"
    using Cons_nth_drop_Suc [of "length str - Suc n" str] by (simp add: Suc_diff_Suc)
  then show ?case using Suc by simp
qed simp

lemma strings_map:
  "ToLowerASCII_string s = map ToLowerASCII8 s" "ToLowerASCII_string16 t = map ToLowerASCII16 t"
  "ToUpperASCII_string s = map ToUpperASCII8 s" "ToUpperASCII_string16 t = map ToUpperASCII16 t"
  by (simp_all add: ToLowerASCII_string_def ToLowerASCII_string16_def ToUpperASCII_string_def ToUpperASCII_string16_def ConvertImpl_map)

lemma compare_case_loop_sign:
  "i \<le> length a \<Longrightarrow> i \<le> length b \<Longrightarrow>
    compare_case_loop lower val a b i = sign_of (map (val \<circ> lower) (drop i a)) (map (val \<circ> lower) (drop i b))"
proof (induction "length a - i" arbitrary: i)
  case 0
  then show ?case by (subst compare_case_loop.simps) (auto simp: sign_of_def Nil_less Let_def)
next
  case (Suc n)
  show ?case
  proof (cases "i < length b")
    case True
    moreover have "i < length a" using Suc.hyps(2) by simp
    ultimately show ?thesis using Suc.hyps(1) [of "Suc i"] Suc.hyps(2)
      by (subst compare_case_loop.simps) (simp add: Cons_nth_drop_Suc [symmetric] sign_of_Cons Let_def)
  next
    case False
    then show ?thesis using Suc by (subst compare_case_loop.simps) (auto simp: sign_of_def)
  qed
qed

text \<open>The order of two strings is that of the lists of the values of their characters in lower case.\<close>

interpretation case8: three_way CompareCaseInsensitiveASCII8 "\<lambda>s. map sint (ToLowerASCII_string s)"
  by unfold_locales (simp add: CompareCaseInsensitiveASCII8_def compare_case_loop_sign strings_map)

interpretation case16: three_way CompareCaseInsensitiveASCII16 "\<lambda>s. map uint (ToLowerASCII_string16 s)"
  by unfold_locales (simp add: CompareCaseInsensitiveASCII16_def compare_case_loop_sign strings_map)

lemma list_all2_map: "list_all2 (\<lambda>x y. f x = g y) xs ys \<longleftrightarrow> map f xs = map g ys"
  by (auto simp: list_all2_conv_all_nth list_eq_iff_nth_eq)

lemma lower_case_equals_map:
  "DoLowerCaseEqualsASCII lower val str l \<longleftrightarrow> map (val \<circ> lower) str = map sint l"
proof -
  have "lower_case_equals_loop lower val str l \<longleftrightarrow> map (val \<circ> lower) str = map sint l" if "length str = length l"
    using that by (induction str l rule: list_induct2) auto
  then show ?thesis by (auto simp: DoLowerCaseEqualsASCII_def dest: map_eq_imp_length_eq)
qed

lemma prefix_take: "prefix s t \<longleftrightarrow> length s \<le> length t \<and> take (length s) t = s"
  by (auto simp: prefix_def) (metis append_take_drop_id)

lemma suffix_drop: "suffix s t \<longleftrightarrow> length s \<le> length t \<and> drop (length t - length s) t = s"
  by (auto simp: suffix_def) (metis append_take_drop_id)

lemma StartsWithT_prefix:
  "StartsWithT lower str s SENSITIVE \<longleftrightarrow> prefix s str"
  "StartsWithT lower str s INSENSITIVE_ASCII \<longleftrightarrow> prefix (map lower s) (map lower str)"
  by (auto simp: StartsWithT_def substr_take_drop list_all2_map take_map prefix_take)

lemma EndsWithT_suffix:
  "EndsWithT lower str s SENSITIVE \<longleftrightarrow> suffix s str"
  "EndsWithT lower str s INSENSITIVE_ASCII \<longleftrightarrow> suffix (map lower s) (map lower str)"
  by (auto simp: EndsWithT_def substr_take_drop list_all2_map drop_map suffix_drop)

section \<open>Correctness\<close>

lemma sint_byte: "sint c = (if uint c < 0x80 then uint c else uint c - 0x100)" for c :: byte
proof -
  have "sint c mod 256 = uint c" using uint_sint [of c] by (simp add: take_bit_eq_mod)
  moreover have "- 128 \<le> sint c" "sint c < 128" using sint_ge [of c] sint_lt [of c] by simp_all
  moreover from this have "sint c mod 256 = (if 0 \<le> sint c then sint c else sint c + 256)"
    using mod_pos_pos_trivial [of "sint c" 256] mod_pos_pos_trivial [of "sint c + 256" 256] by simp
  ultimately show ?thesis by (auto split: if_splits)
qed

lemma sint_mapD: "map sint a = map sint b \<longleftrightarrow> a = b" for a b :: "byte list"
  by (simp add: inj_map_eq_map [OF injI])

lemma uint_mapD: "map uint a = map uint b \<longleftrightarrow> a = b" for a b :: "16 word list"
  by (simp add: inj_map_eq_map [OF injI])

lemma letters:
  "uint (ToLowerASCII8 c) = (if 0x41 \<le> uint c \<and> uint c \<le> 0x5A then uint c + 0x20 else uint c)"
  "uint (ToLowerASCII16 d) = (if 0x41 \<le> uint d \<and> uint d \<le> 0x5A then uint d + 0x20 else uint d)"
  "uint (ToUpperASCII8 c) = (if 0x61 \<le> uint c \<and> uint c \<le> 0x7A then uint c - 0x20 else uint c)"
  "uint (ToUpperASCII16 d) = (if 0x61 \<le> uint d \<and> uint d \<le> 0x7A then uint d - 0x20 else uint d)"
  using unsigned_less [of c, where ?'a = int]
  by (auto simp: ToLowerASCII8_def ToLowerASCII16_def ToUpperASCII8_def ToUpperASCII16_def sint_byte
      uint_plus_if' uint_sub_if' split: if_splits)

text \<open>
  C38: The routines on ASCII case.  Exactly the 26 letters are converted.  The comparison without case is the lexicographic
  order of the lower-case strings, where the values of 8-bit characters are signed; strings are equal without case if their
  lower-case strings are; \<open>LowerCaseEqualsASCII\<close> and \<open>EqualsASCII\<close> compare values of characters, and \<open>StartsWith\<close> and
  \<open>EndsWith\<close> decide whether one string, or its lower-case version, is a prefix or suffix of the other.
\<close>

theorem ascii_case:
  fixes a b l :: "byte list" and a16 b16 :: "16 word list"
  shows "uint (ToLowerASCII8 c) = (if 0x41 \<le> uint c \<and> uint c \<le> 0x5A then uint c + 0x20 else uint c) \<and>
    uint (ToLowerASCII16 d) = (if 0x41 \<le> uint d \<and> uint d \<le> 0x5A then uint d + 0x20 else uint d) \<and>
    uint (ToUpperASCII8 c) = (if 0x61 \<le> uint c \<and> uint c \<le> 0x7A then uint c - 0x20 else uint c) \<and>
    uint (ToUpperASCII16 d) = (if 0x61 \<le> uint d \<and> uint d \<le> 0x7A then uint d - 0x20 else uint d) \<and>
    ToLowerASCII_string a = map ToLowerASCII8 a \<and> ToLowerASCII_string16 a16 = map ToLowerASCII16 a16 \<and>
    ToUpperASCII_string a = map ToUpperASCII8 a \<and> ToUpperASCII_string16 a16 = map ToUpperASCII16 a16 \<and>
    CompareCaseInsensitiveASCII8 a b = sign_of (map sint (ToLowerASCII_string a)) (map sint (ToLowerASCII_string b)) \<and>
    CompareCaseInsensitiveASCII16 a16 b16 = sign_of (map uint (ToLowerASCII_string16 a16)) (map uint (ToLowerASCII_string16 b16)) \<and>
    CompareCaseInsensitiveASCII8 b a = - CompareCaseInsensitiveASCII8 a b \<and>
    CompareCaseInsensitiveASCII16 b16 a16 = - CompareCaseInsensitiveASCII16 a16 b16 \<and>
    EqualsCaseInsensitiveASCII8 a b = (ToLowerASCII_string a = ToLowerASCII_string b) \<and>
    EqualsCaseInsensitiveASCII16 a16 b16 = (ToLowerASCII_string16 a16 = ToLowerASCII_string16 b16) \<and>
    LowerCaseEqualsASCII8 a l = (ToLowerASCII_string a = l) \<and>
    LowerCaseEqualsASCII16 a16 l = (map uint (ToLowerASCII_string16 a16) = map sint l) \<and>
    EqualsASCII a16 l = (map uint a16 = map sint l) \<and>
    StartsWith a b SENSITIVE = prefix b a \<and> StartsWith16 a16 b16 SENSITIVE = prefix b16 a16 \<and>
    StartsWith a b INSENSITIVE_ASCII = prefix (ToLowerASCII_string b) (ToLowerASCII_string a) \<and>
    StartsWith16 a16 b16 INSENSITIVE_ASCII = prefix (ToLowerASCII_string16 b16) (ToLowerASCII_string16 a16) \<and>
    EndsWith a b SENSITIVE = suffix b a \<and> EndsWith16 a16 b16 SENSITIVE = suffix b16 a16 \<and>
    EndsWith a b INSENSITIVE_ASCII = suffix (ToLowerASCII_string b) (ToLowerASCII_string a) \<and>
    EndsWith16 a16 b16 INSENSITIVE_ASCII = suffix (ToLowerASCII_string16 b16) (ToLowerASCII_string16 a16)"
proof -
  have "EqualsCaseInsensitiveASCII8 a b = (map ToLowerASCII8 a = map ToLowerASCII8 b)"
    "EqualsCaseInsensitiveASCII16 a16 b16 = (map ToLowerASCII16 a16 = map ToLowerASCII16 b16)"
    by (auto simp: EqualsCaseInsensitiveASCII8_def EqualsCaseInsensitiveASCII16_def case8.zero_iff case16.zero_iff
        sint_mapD uint_mapD strings_map dest: map_eq_imp_length_eq simp del: map_map)
  moreover have "LowerCaseEqualsASCII8 a l = (map ToLowerASCII8 a = l)"
    using sint_mapD [of "map ToLowerASCII8 a" l] by (simp add: LowerCaseEqualsASCII8_def lower_case_equals_map)
  moreover have "EqualsASCII a16 l = (map uint a16 = map sint l)"
    by (auto simp: EqualsASCII_def list_all2_map dest: map_eq_imp_length_eq)
  ultimately show ?thesis using case8.flip [of b a] case16.flip [of b16 a16]
    by (simp add: letters strings_map case8.compare_key case16.compare_key LowerCaseEqualsASCII16_def lower_case_equals_map
        StartsWith_def StartsWith16_def EndsWith_def EndsWith16_def StartsWithT_prefix EndsWithT_suffix)
qed

end
