(* ===== verification/Number_Strings.thy ===== *)
theory Number_Strings
  imports Icu_Utf "HOL-Library.Signed_Division"
begin

unbundle bit_operations_syntax

text \<open>
  Conversions between integers and strings (\<open>base/strings/string_number_conversions.cc\<close>).

  An integer type is its width and signedness, a value an \<open>int\<close>; arithmetic that leaves the range of a signed type, a
  write outside the output buffer and a failed \<open>DCHECK\<close> give \<open>None\<close>.  A character is its value as \<open>CHAR\<close>.
  \<open>isspace\<close> and \<open>iswspace\<close> depend on the locale of the C library and are arguments.  The template parameter
  \<open>Sign\<close> is the pair of its two functions.

  The reference is \<open>best_effort\<close>, the contract in \<open>string_number_conversions.h\<close>.  The locale \<open>sign_class\<close> is what
  \<open>Base::Invoke\<close> needs of \<open>Sign\<close>; within \<open>number_type\<close> both classes satisfy it, and the eight combinations of type
  and base that the file uses interpret \<open>number_type\<close>.
\<close>

section \<open>Integer types\<close>

record int_type =
  bits :: nat
  is_signed :: bool

definition int_t :: int_type where "int_t = \<lparr>bits = 32, is_signed = True\<rparr>"
definition unsigned_t :: int_type where "unsigned_t = \<lparr>bits = 32, is_signed = False\<rparr>"
definition int64_t :: int_type where "int64_t = \<lparr>bits = 64, is_signed = True\<rparr>"
definition uint64_t :: int_type where "uint64_t = \<lparr>bits = 64, is_signed = False\<rparr>"

lemmas int_types = int_t_def unsigned_t_def int64_t_def uint64_t_def

definition type_min :: "int_type \<Rightarrow> int" where
  "type_min ty = (if is_signed ty then - (2 ^ (bits ty - 1)) else 0)"

definition type_max :: "int_type \<Rightarrow> int" where
  "type_max ty = (if is_signed ty then 2 ^ (bits ty - 1) - 1 else 2 ^ bits ty - 1)"

definition arith :: "int_type \<Rightarrow> int \<Rightarrow> int option" where
  "arith ty v = (if type_min ty \<le> v \<and> v \<le> type_max ty then Some v
     else if is_signed ty then None else Some (v mod 2 ^ bits ty))"

section \<open>Numbers to strings\<close>

definition IsValueNegative :: "int \<Rightarrow> bool" where
  "IsValueNegative value \<longleftrightarrow> value < 0"

definition SafeUnsignedAbs :: "int_type \<Rightarrow> int \<Rightarrow> int" where
  "SafeUnsignedAbs ty value =
     (if IsValueNegative value then (0 - value mod 2 ^ bits ty) mod 2 ^ bits ty else value mod 2 ^ bits ty)"

text \<open>\<open>--i; DCHECK(i != outbuf); *i = c\<close>\<close>

definition push_back_to_front :: "int \<Rightarrow> int list \<times> nat \<Rightarrow> (int list \<times> nat) option" where
  "push_back_to_front c = (\<lambda>(outbuf, i). if i \<le> 1 \<or> length outbuf < i then None else Some (outbuf[i - 1 := c], i - 1))"

function digits_loop :: "int \<Rightarrow> int list \<times> nat \<Rightarrow> (int list \<times> nat) option" where
  "digits_loop res out = (case push_back_to_front (res mod 10 + 0x30) out of None \<Rightarrow> None
     | Some out \<Rightarrow> if res div 10 \<noteq> 0 \<and> 0 < res then digits_loop (res div 10) out else Some out)"
  by pat_completeness auto
termination by (relation "measure (\<lambda>(res, out). nat res)") auto

declare digits_loop.simps [simp del]

definition IntToString :: "int_type \<Rightarrow> int \<Rightarrow> int list option" where
  "IntToString ty value =
     (let kOutputBufSize = 3 * (bits ty div 8) + (if is_signed ty then 1 else 0);
          res = SafeUnsignedAbs ty value
      in (case digits_loop res (replicate kOutputBufSize 0, kOutputBufSize) of None \<Rightarrow> None
          | Some out \<Rightarrow>
              (case (if IsValueNegative value then push_back_to_front 0x2D out else Some out) of None \<Rightarrow> None
               | Some (outbuf, i) \<Rightarrow> Some (drop i outbuf))))"

definition NumberToString :: "int_type \<Rightarrow> int \<Rightarrow> byte list option" where
  "NumberToString ty value = map_option (map word_of_int) (IntToString ty value)"

definition NumberToString16 :: "int_type \<Rightarrow> int \<Rightarrow> char16 list option" where
  "NumberToString16 ty value = map_option (map word_of_int) (IntToString ty value)"

section \<open>Strings to numbers\<close>

text \<open>The digit, if \<open>c\<close> is one.\<close>

definition BaseCharToDigit_lte_10 :: "int \<Rightarrow> int \<Rightarrow> int option" where
  "BaseCharToDigit_lte_10 BASE c = (if 0x30 \<le> c \<and> c < 0x30 + BASE then Some (c - 0x30) else None)"

definition BaseCharToDigit_gt_10 :: "int \<Rightarrow> int \<Rightarrow> int option" where
  "BaseCharToDigit_gt_10 BASE c =
     (if 0x30 \<le> c \<and> c \<le> 0x39 then Some (c - 0x30)
      else if 0x61 \<le> c \<and> c < 0x61 + BASE - 10 then Some (c - 0x61 + 10)
      else if 0x41 \<le> c \<and> c < 0x41 + BASE - 10 then Some (c - 0x41 + 10)
      else None)"

definition CharToDigit :: "int \<Rightarrow> int \<Rightarrow> int option" where
  "CharToDigit BASE c = (if BASE \<le> 10 then BaseCharToDigit_lte_10 BASE c else BaseCharToDigit_gt_10 BASE c)"

text \<open>\<open>CheckBounds\<close> returns its result and \<open>*output\<close>.\<close>

definition Positive_CheckBounds :: "int_type \<Rightarrow> int \<Rightarrow> int \<Rightarrow> int \<Rightarrow> bool \<times> int" where
  "Positive_CheckBounds ty kBase output new_digit =
     (if type_max ty sdiv kBase < output \<or> (output = type_max ty sdiv kBase \<and> type_max ty smod kBase < new_digit)
      then (False, type_max ty) else (True, output))"

definition Positive_Increment :: "int_type \<Rightarrow> int \<Rightarrow> int \<Rightarrow> int option" where
  "Positive_Increment ty increment output = arith ty (output + increment)"

definition Negative_CheckBounds :: "int_type \<Rightarrow> int \<Rightarrow> int \<Rightarrow> int \<Rightarrow> bool \<times> int" where
  "Negative_CheckBounds ty kBase output new_digit =
     (if output < type_min ty sdiv kBase \<or> (output = type_min ty sdiv kBase \<and> 0 - type_min ty smod kBase < new_digit)
      then (False, type_min ty) else (True, output))"

definition Negative_Increment :: "int_type \<Rightarrow> int \<Rightarrow> int \<Rightarrow> int option" where
  "Negative_Increment ty increment output = arith ty (output - increment)"

text \<open>The loop of \<open>Base::Invoke\<close>; \<open>first\<close> is \<open>current == begin\<close>.\<close>

fun base_loop :: "(int \<Rightarrow> int \<Rightarrow> bool \<times> int) \<Rightarrow> (int \<Rightarrow> int \<Rightarrow> int option) \<Rightarrow> int_type \<Rightarrow> int \<Rightarrow>
    bool \<Rightarrow> int list \<Rightarrow> int \<Rightarrow> (bool \<times> int) option" where
  "base_loop CheckBounds Increment ty kBase first [] output = Some (True, output)"
| "base_loop CheckBounds Increment ty kBase first (c # cs) output =
     (case CharToDigit kBase c of None \<Rightarrow> Some (False, output)
      | Some new_digit \<Rightarrow>
          (case (if first then (True, output) else CheckBounds output new_digit) of (ok, output) \<Rightarrow>
             if \<not> ok then Some (False, output)
             else (case (if first then Some output else arith ty (output * kBase)) of None \<Rightarrow> None
                   | Some output \<Rightarrow>
                       (case Increment new_digit output of None \<Rightarrow> None
                        | Some output \<Rightarrow> base_loop CheckBounds Increment ty kBase False cs output))))"

definition Base_Invoke :: "(int \<Rightarrow> int \<Rightarrow> bool \<times> int) \<Rightarrow> (int \<Rightarrow> int \<Rightarrow> int option) \<Rightarrow> int_type \<Rightarrow> int \<Rightarrow>
    int list \<Rightarrow> (bool \<times> int) option" where
  "Base_Invoke CheckBounds Increment ty kBase s =
     (if s = [] then Some (False, 0)
      else (let s = (if kBase = 16 \<and> 2 < length s \<and> s ! 0 = 0x30 \<and> (s ! 1 = 0x78 \<or> s ! 1 = 0x58) then drop 2 s else s)
            in base_loop CheckBounds Increment ty kBase True s 0))"

definition IteratorRangeToNumber_Invoke :: "int_type \<Rightarrow> int \<Rightarrow> (int \<Rightarrow> bool) \<Rightarrow> int list \<Rightarrow> (bool \<times> int) option" where
  "IteratorRangeToNumber_Invoke ty kBase LocalIsWhitespace s =
     (let valid = (s = [] \<or> \<not> LocalIsWhitespace (hd s)); s = dropWhile LocalIsWhitespace s
      in if s \<noteq> [] \<and> hd s = 0x2D then
           (if \<not> is_signed ty then Some (False, 0)
            else map_option (\<lambda>(ok, output). (valid \<and> ok, output))
                   (Base_Invoke (Negative_CheckBounds ty kBase) (Negative_Increment ty) ty kBase (tl s)))
         else (let s = (if s \<noteq> [] \<and> hd s = 0x2B then tl s else s)
               in map_option (\<lambda>(ok, output). (valid \<and> ok, output))
                    (Base_Invoke (Positive_CheckBounds ty kBase) (Positive_Increment ty) ty kBase s)))"

definition LocalIsWhitespace_char :: "(int \<Rightarrow> bool) \<Rightarrow> int \<Rightarrow> bool" where
  "LocalIsWhitespace_char isspace c = isspace (c mod 256)"

definition StringToIntImpl :: "int_type \<Rightarrow> (int \<Rightarrow> bool) \<Rightarrow> byte list \<Rightarrow> (bool \<times> int) option" where
  "StringToIntImpl ty isspace input = IteratorRangeToNumber_Invoke ty 10 (LocalIsWhitespace_char isspace) (map sint input)"

definition String16ToIntImpl :: "int_type \<Rightarrow> (int \<Rightarrow> bool) \<Rightarrow> char16 list \<Rightarrow> (bool \<times> int) option" where
  "String16ToIntImpl ty iswspace input = IteratorRangeToNumber_Invoke ty 10 iswspace (map uint input)"

definition HexStringToIntImpl :: "int_type \<Rightarrow> (int \<Rightarrow> bool) \<Rightarrow> byte list \<Rightarrow> (bool \<times> int) option" where
  "HexStringToIntImpl ty isspace input = IteratorRangeToNumber_Invoke ty 16 (LocalIsWhitespace_char isspace) (map sint input)"

section \<open>Bytes in hexadecimal\<close>

definition kHexChars :: "byte list" where
  "kHexChars = [0x30, 0x31, 0x32, 0x33, 0x34, 0x35, 0x36, 0x37, 0x38, 0x39, 0x41, 0x42, 0x43, 0x44, 0x45, 0x46]"

definition HexEncode :: "byte list \<Rightarrow> byte list" where
  "HexEncode bytes = concat (map (\<lambda>b. [kHexChars ! nat (drop_bit 4 (sint b) AND 0xf), kHexChars ! nat (sint b AND 0xf)]) bytes)"

fun hex_bytes_loop :: "byte list \<Rightarrow> byte list \<Rightarrow> bool \<times> byte list" where
  "hex_bytes_loop (a # b # input) output =
     (case (CharToDigit 16 (sint a), CharToDigit 16 (sint b)) of
        (Some msb, Some lsb) \<Rightarrow> hex_bytes_loop input (output @ [word_of_int (push_bit 4 msb OR lsb)])
      | _ \<Rightarrow> (False, output))"
| "hex_bytes_loop _ output = (True, output)"

definition HexStringToBytes :: "byte list \<Rightarrow> bool \<times> byte list" where
  "HexStringToBytes input =
     (if length input = 0 \<or> length input mod 2 \<noteq> 0 then (False, []) else hex_bytes_loop input [])"

section \<open>The reference\<close>

definition digit :: "int \<Rightarrow> int \<Rightarrow> bool" where
  "digit base c \<longleftrightarrow> CharToDigit base c \<noteq> None"

definition number_from :: "int \<Rightarrow> int \<Rightarrow> int list \<Rightarrow> int" where
  "number_from base a cs = foldl (\<lambda>a c. a * base + the (CharToDigit base c)) a cs"

definition without_0x :: "int \<Rightarrow> int list \<Rightarrow> int list" where
  "without_0x base s = (if base = 16 \<and> 2 < length s \<and> (take 2 s = [0x30, 0x78] \<or> take 2 s = [0x30, 0x58]) then drop 2 s else s)"

text \<open>
  The number that the string begins with, behind white space and a sign, brought into the range of the type; whether
  the string is nothing but a number in that range.
\<close>

definition best_effort :: "int_type \<Rightarrow> int \<Rightarrow> (int \<Rightarrow> bool) \<Rightarrow> int list \<Rightarrow> bool \<times> int" where
  "best_effort ty base space s =
     (let t = dropWhile space s; neg = (take 1 t = [0x2D]);
          u = without_0x base (if neg \<or> take 1 t = [0x2B] then tl t else t);
          ds = takeWhile (digit base) u;
          v = (if neg then - number_from base 0 ds else number_from base 0 ds)
      in if neg \<and> \<not> is_signed ty then (False, 0)
         else (t = s \<and> ds \<noteq> [] \<and> ds = u \<and> type_min ty \<le> v \<and> v \<le> type_max ty, max (type_min ty) (min (type_max ty) v)))"

section \<open>Parsing\<close>

locale sign_class =
  fixes CheckBounds :: "int \<Rightarrow> int \<Rightarrow> bool \<times> int" and Increment :: "int \<Rightarrow> int \<Rightarrow> int option"
    and ty :: int_type and base :: int and sgnum :: int and limit :: int
  assumes base: "2 \<le> base" "base \<le> 36" "base \<le> limit"
    and fits: "0 \<le> a \<Longrightarrow> a \<le> limit \<Longrightarrow> arith ty (sgnum * a) = Some (sgnum * a)"
    and bounds: "0 \<le> a \<Longrightarrow> a \<le> limit \<Longrightarrow> 0 \<le> d \<Longrightarrow> d < base \<Longrightarrow>
      CheckBounds (sgnum * a) d = (if a * base + d \<le> limit then (True, sgnum * a) else (False, sgnum * limit))"
    and incr: "0 \<le> a \<Longrightarrow> 0 \<le> d \<Longrightarrow> a + d \<le> limit \<Longrightarrow> Increment d (sgnum * a) = Some (sgnum * (a + d))"
begin

lemma digit_range: "CharToDigit base c = Some d \<Longrightarrow> 0 \<le> d \<and> d < base"
  using base by (auto simp: CharToDigit_def BaseCharToDigit_lte_10_def BaseCharToDigit_gt_10_def split: if_splits)

lemma number_from_grows:
  assumes "\<forall>c \<in> set cs. digit base c" "0 \<le> a"
  shows "a \<le> number_from base a cs"
  using assms
proof (induction cs arbitrary: a)
  case (Cons c cs)
  then obtain d where d: "CharToDigit base c = Some d" by (auto simp: digit_def)
  have "a * 1 \<le> a * base" using base Cons.prems by (intro mult_left_mono) auto
  then have "0 \<le> a * base + d" "a \<le> a * base + d" using digit_range [OF d] Cons.prems by linarith+
  moreover have "number_from base a (c # cs) = number_from base (a * base + d) cs" by (simp add: number_from_def d)
  ultimately show ?case using Cons.IH [of "a * base + d"] Cons.prems by simp
qed (simp add: number_from_def)

lemma base_loop_number:
  assumes "0 \<le> a" "a \<le> limit"
  shows "base_loop CheckBounds Increment ty base False s (sgnum * a) =
    (let ds = takeWhile (digit base) s; v = number_from base a ds in Some (ds = s \<and> v \<le> limit, sgnum * min limit v))"
  using assms
proof (induction s arbitrary: a)
  case Nil
  then show ?case by (simp add: number_from_def)
next
  case (Cons c s)
  show ?case
  proof (cases "CharToDigit base c")
    case None
    then show ?thesis using Cons.prems by (simp add: digit_def number_from_def min_def)
  next
    case (Some d)
    note d = digit_range [OF Some]
    have nonneg: "0 \<le> a * base" and dg: "digit base c" using base Cons.prems Some by (simp_all add: digit_def)
    have step: "number_from base a (c # ds) = number_from base (a * base + d) ds" for ds by (simp add: number_from_def Some)
    show ?thesis
    proof (cases "a * base + d \<le> limit")
      case True
      then have "arith ty (sgnum * a * base) = Some (sgnum * (a * base))" using fits [of "a * base"] nonneg d by (simp add: mult.assoc)
      then show ?thesis using Some d True nonneg Cons.IH [of "a * base + d"] bounds [OF Cons.prems] incr [of "a * base" d]
        by (simp add: dg step Let_def)
    next
      case False
      have "a * base + d \<le> number_from base (a * base + d) (takeWhile (digit base) s)"
        using number_from_grows [of "takeWhile (digit base) s" "a * base + d"] nonneg d by (auto dest: set_takeWhileD)
      then show ?thesis using Some d False bounds [OF Cons.prems] by (simp add: dg step Let_def min_def)
    qed
  qed
qed

lemma Base_Invoke_number:
  "Base_Invoke CheckBounds Increment ty base s =
    (let u = without_0x base s; ds = takeWhile (digit base) u; v = number_from base 0 ds
     in Some (ds \<noteq> [] \<and> ds = u \<and> v \<le> limit, sgnum * min limit v))"
proof (cases "s = []")
  case True
  then show ?thesis using base by (simp add: Base_Invoke_def without_0x_def number_from_def)
next
  case False
  have "take 2 s = [0x30, 0x78] \<or> take 2 s = [0x30, 0x58] \<longleftrightarrow> s ! 0 = 0x30 \<and> (s ! 1 = 0x78 \<or> s ! 1 = 0x58)" if "2 < length s"
    using that by (cases s; cases "tl s") auto
  then have i: "Base_Invoke CheckBounds Increment ty base s = base_loop CheckBounds Increment ty base True (without_0x base s) 0"
    using False by (auto simp: Base_Invoke_def without_0x_def)
  have "without_0x base s \<noteq> []" using False by (auto simp: without_0x_def)
  then obtain c u where u: "without_0x base s = c # u" by (cases "without_0x base s") auto
  show ?thesis
  proof (cases "CharToDigit base c")
    case None
    then show ?thesis using base by (simp add: i u digit_def number_from_def)
  next
    case (Some d)
    note d = digit_range [OF Some]
    have "base_loop CheckBounds Increment ty base True (c # u) 0 = base_loop CheckBounds Increment ty base False u (sgnum * d)"
      using Some d incr [of 0 d] base by simp
    moreover have "number_from base 0 (c # ds) = number_from base d ds" for ds by (simp add: number_from_def Some)
    ultimately show ?thesis using d base Some by (simp add: i u base_loop_number digit_def Let_def)
  qed
qed

end

lemma exceeds: "M < a * b + d \<longleftrightarrow> M div b < a \<or> (a = M div b \<and> M mod b < d)" if "0 < b" "0 \<le> d" "d < b" for M a b d :: int
proof -
  define q r where "q = M div b" and "r = M mod b"
  have M: "M = b * q + r" "0 \<le> r" "r < b" using that by (simp_all add: q_def r_def)
  consider "q + 1 \<le> a" | "a = q" | "a + 1 \<le> q" by linarith
  then have "M < a * b + d \<longleftrightarrow> q < a \<or> (a = q \<and> r < d)"
  proof cases
    case 1
    then have "b * (q + 1) \<le> b * a" using that by (intro mult_left_mono) auto
    then have "b * q + b \<le> a * b" by (simp add: algebra_simps)
    then show ?thesis using 1 M that by linarith
  next
    case 3
    then have "b * (a + 1) \<le> b * q" using that by (intro mult_left_mono) auto
    then have "a * b + b \<le> b * q" by (simp add: algebra_simps)
    then show ?thesis using 3 M that by linarith
  qed (simp add: M(1) mult.commute)
  then show ?thesis by (simp add: q_def r_def)
qed

locale number_type =
  fixes ty :: int_type and base :: int
  assumes width: "32 \<le> bits ty" and number_base: "2 \<le> base" "base \<le> 36"
begin

lemma power_31: "(2::int) ^ 31 \<le> 2 ^ (bits ty - 1)" "(2::int) ^ 31 \<le> 2 ^ bits ty"
  using width by (intro power_increasing; simp)+

lemma type_limits: "type_min ty \<le> 0" "2 ^ 31 - 1 \<le> type_max ty"
  using power_31 by (auto simp: type_min_def type_max_def)

end

sublocale number_type \<subseteq> pos: sign_class "Positive_CheckBounds ty base" "Positive_Increment ty" ty base 1 "type_max ty"
proof
  show "2 \<le> base" "base \<le> 36" "base \<le> type_max ty" using number_base type_limits by auto
  have quot: "type_max ty sdiv base = type_max ty div base" "type_max ty smod base = type_max ty mod base"
    using type_limits number_base by (auto simp: signed_divide_int_def signed_modulo_int_def)
  show "arith ty (1 * a) = Some (1 * a)" if "0 \<le> a" "a \<le> type_max ty" for a
    using that type_limits by (auto simp: arith_def)
  show "Positive_CheckBounds ty base (1 * a) d = (if a * base + d \<le> type_max ty then (True, 1 * a) else (False, 1 * type_max ty))"
    if "0 \<le> a" "a \<le> type_max ty" "0 \<le> d" "d < base" for a d
    using that exceeds [of base d "type_max ty" a] number_base quot by (auto simp: Positive_CheckBounds_def not_less [symmetric])
  show "Positive_Increment ty d (1 * a) = Some (1 * (a + d))" if "0 \<le> a" "0 \<le> d" "a + d \<le> type_max ty" for a d
    using that type_limits by (auto simp: Positive_Increment_def arith_def)
qed

locale signed_number_type = number_type +
  assumes signed: "is_signed ty"

sublocale signed_number_type \<subseteq> neg: sign_class "Negative_CheckBounds ty base" "Negative_Increment ty" ty base "- 1" "- type_min ty"
proof
  show "2 \<le> base" "base \<le> 36" "base \<le> - type_min ty" using number_base power_31 signed by (auto simp: type_min_def)
  have pos: "0 < - type_min ty" "0 \<le> type_max ty" using power_31 signed type_limits by (auto simp: type_min_def)
  show "arith ty (- 1 * a) = Some (- 1 * a)" if "0 \<le> a" "a \<le> - type_min ty" for a
    using that pos by (auto simp: arith_def)
  have "type_min ty sdiv base = - ((- type_min ty) div base)" "type_min ty smod base = - ((- type_min ty) mod base)"
    using pos number_base by (auto simp: signed_divide_int_def signed_modulo_int_def)
  then show "Negative_CheckBounds ty base (- 1 * a) d =
      (if a * base + d \<le> - type_min ty then (True, - 1 * a) else (False, - 1 * - type_min ty))"
    if "0 \<le> a" "a \<le> - type_min ty" "0 \<le> d" "d < base" for a d
    using that exceeds [of base d "- type_min ty" a] number_base
    by (auto simp: Negative_CheckBounds_def not_less [symmetric])
  show "Negative_Increment ty d (- 1 * a) = Some (- 1 * (a + d))" if "0 \<le> a" "0 \<le> d" "a + d \<le> - type_min ty" for a d
    using that pos by (auto simp: Negative_Increment_def arith_def)
qed

lemma take_1: "take 1 t = [x] \<longleftrightarrow> t \<noteq> [] \<and> hd t = x"
  by (cases t) auto

lemma no_leading_space: "s = [] \<or> \<not> space (hd s) \<longleftrightarrow> dropWhile space s = s"
  by (metis dropWhile_eq_self_iff)

context number_type
begin

lemma positive_best_effort:
  assumes "\<not> (dropWhile space s \<noteq> [] \<and> hd (dropWhile space s) = 0x2D)"
  shows "IteratorRangeToNumber_Invoke ty base space s = Some (best_effort ty base space s)"
proof -
  define u where "u = without_0x base (if take 1 (dropWhile space s) = [0x2B] then tl (dropWhile space s) else dropWhile space s)"
  have nonneg: "0 \<le> number_from base 0 (takeWhile (digit base) u)"
    using pos.number_from_grows [of "takeWhile (digit base) u" 0] by (auto dest: set_takeWhileD)
  have "IteratorRangeToNumber_Invoke ty base space s =
      map_option (\<lambda>(ok, output). (dropWhile space s = s \<and> ok, output))
        (let ds = takeWhile (digit base) u; v = number_from base 0 ds
         in Some (ds \<noteq> [] \<and> ds = u \<and> v \<le> type_max ty, 1 * min (type_max ty) v))"
    unfolding IteratorRangeToNumber_Invoke_def Let_def no_leading_space if_not_P [OF assms] pos.Base_Invoke_number u_def take_1 ..
  moreover have "best_effort ty base space s =
      (let ds = takeWhile (digit base) u; v = number_from base 0 ds
       in (dropWhile space s = s \<and> ds \<noteq> [] \<and> ds = u \<and> type_min ty \<le> v \<and> v \<le> type_max ty, max (type_min ty) (min (type_max ty) v)))"
    by (simp only: best_effort_def Let_def take_1 u_def assms if_False simp_thms)
  ultimately show ?thesis using nonneg type_limits by (simp add: Let_def max_def min_def)
qed

lemma unsigned_best_effort:
  assumes "\<not> is_signed ty"
  shows "IteratorRangeToNumber_Invoke ty base space s = Some (best_effort ty base space s)"
proof (cases "dropWhile space s \<noteq> [] \<and> hd (dropWhile space s) = 0x2D")
  case True
  then show ?thesis using assms unfolding IteratorRangeToNumber_Invoke_def best_effort_def Let_def take_1 by simp
qed (rule positive_best_effort)

end

context signed_number_type
begin

lemma signed_best_effort: "IteratorRangeToNumber_Invoke ty base space s = Some (best_effort ty base space s)"
proof (cases "dropWhile space s \<noteq> [] \<and> hd (dropWhile space s) = 0x2D")
  case True
  define u where "u = without_0x base (tl (dropWhile space s))"
  have nonneg: "0 \<le> number_from base 0 (takeWhile (digit base) u)"
    using pos.number_from_grows [of "takeWhile (digit base) u" 0] by (auto dest: set_takeWhileD)
  have "IteratorRangeToNumber_Invoke ty base space s =
      map_option (\<lambda>(ok, output). (dropWhile space s = s \<and> ok, output))
        (let ds = takeWhile (digit base) u; v = number_from base 0 ds
         in Some (ds \<noteq> [] \<and> ds = u \<and> v \<le> - type_min ty, - 1 * min (- type_min ty) v))"
    using True signed unfolding IteratorRangeToNumber_Invoke_def Let_def no_leading_space if_P [OF True] neg.Base_Invoke_number u_def by simp
  moreover have "best_effort ty base space s =
      (let ds = takeWhile (digit base) u; v = - number_from base 0 ds
       in (dropWhile space s = s \<and> ds \<noteq> [] \<and> ds = u \<and> type_min ty \<le> v \<and> v \<le> type_max ty, max (type_min ty) (min (type_max ty) v)))"
    by (simp only: best_effort_def Let_def take_1 u_def True signed if_True if_False simp_thms)
  ultimately show ?thesis using nonneg type_limits by (auto simp: Let_def max_def min_def)
qed (rule positive_best_effort)

end

interpretation int_10: signed_number_type int_t 10 by unfold_locales (simp_all add: int_t_def)
interpretation int_16: signed_number_type int_t 16 by unfold_locales (simp_all add: int_t_def)
interpretation int64_10: signed_number_type int64_t 10 by unfold_locales (simp_all add: int64_t_def)
interpretation int64_16: signed_number_type int64_t 16 by unfold_locales (simp_all add: int64_t_def)
interpretation unsigned_10: number_type unsigned_t 10 by unfold_locales (simp_all add: unsigned_t_def)
interpretation unsigned_16: number_type unsigned_t 16 by unfold_locales (simp_all add: unsigned_t_def)
interpretation uint64_10: number_type uint64_t 10 by unfold_locales (simp_all add: uint64_t_def)
interpretation uint64_16: number_type uint64_t 16 by unfold_locales (simp_all add: uint64_t_def)

lemma parse_number:
  assumes "ty \<in> {int_t, unsigned_t, int64_t, uint64_t}" and "base \<in> {10, 16}"
  shows "IteratorRangeToNumber_Invoke ty base space s = Some (best_effort ty base space s)"
  using assms int_10.signed_best_effort int_16.signed_best_effort int64_10.signed_best_effort int64_16.signed_best_effort
    unsigned_10.unsigned_best_effort unsigned_16.unsigned_best_effort uint64_10.unsigned_best_effort uint64_16.unsigned_best_effort
  by (auto simp: unsigned_t_def uint64_t_def)

section \<open>Printing\<close>

text \<open>The decimal digits.\<close>

function decimal :: "int \<Rightarrow> int list" where
  "decimal n = (if n < 10 then [0x30 + n] else decimal (n div 10) @ [0x30 + n mod 10])"
  by pat_completeness auto
termination by (relation "measure nat") auto

declare decimal.simps [simp del]

lemma decimal_digits: "0 \<le> n \<Longrightarrow> \<forall>c \<in> set (decimal n). 0x30 \<le> c \<and> c \<le> 0x39"
proof (induction n rule: decimal.induct)
  case (1 n)
  have "n mod 10 < 10" by simp
  then show ?case using 1 by (subst decimal.simps) (auto simp del: pos_mod_bound)
qed

lemma decimal_nonempty: "decimal n \<noteq> []"
  by (subst decimal.simps) auto

lemma decimal_value: "0 \<le> n \<Longrightarrow> number_from 10 0 (decimal n) = n"
proof (induction n rule: decimal.induct)
  case (1 n)
  have "n mod 10 < 10" "0 \<le> n mod 10" by simp_all
  then have "CharToDigit 10 (0x30 + n mod 10) = Some (n mod 10)"
    by (simp add: CharToDigit_def BaseCharToDigit_lte_10_def)
  moreover have "CharToDigit 10 (0x30 + n) = Some n" if "n < 10"
    using that 1 by (simp add: CharToDigit_def BaseCharToDigit_lte_10_def)
  moreover have "number_from 10 0 (decimal (n div 10)) = n div 10" if "\<not> n < 10" using 1 that by simp
  ultimately show ?case by (subst decimal.simps) (auto simp: number_from_def)
qed

lemma decimal_length: "n < 10 ^ k \<Longrightarrow> 0 < k \<Longrightarrow> length (decimal n) \<le> k"
proof (induction k arbitrary: n)
  case (Suc k)
  show ?case
  proof (cases "n < 10")
    case True
    then show ?thesis by (subst decimal.simps) simp
  next
    case False
    then have "0 < k" using Suc.prems by (cases k) auto
    moreover have "n div 10 < 10 ^ k" using Suc.prems(1) by simp
    ultimately show ?thesis using Suc.IH [of "n div 10"] False by (subst decimal.simps) simp
  qed
qed simp

lemma drop_update: "0 < i \<Longrightarrow> i \<le> length xs \<Longrightarrow> drop (i - 1) (xs[i - 1 := c]) = c # drop i xs"
  by (simp add: Cons_nth_drop_Suc [symmetric])

lemma digits_loop_decimal:
  assumes "0 \<le> n" "length (decimal n) < i" "i \<le> length buf"
  shows "\<exists>buf'. digits_loop n (buf, i) = Some (buf', i - length (decimal n)) \<and> length buf' = length buf \<and>
    drop (i - length (decimal n)) buf' = decimal n @ drop i buf"
  using assms
proof (induction n arbitrary: buf i rule: decimal.induct)
  case (1 n)
  show ?case
  proof (cases "n < 10")
    case True
    then have d: "decimal n = [0x30 + n]" by (subst decimal.simps) simp
    have "digits_loop n (buf, i) = Some (buf[i - 1 := n + 0x30], i - 1)"
      using 1 True unfolding d by (subst digits_loop.simps) (simp add: push_back_to_front_def)
    then show ?thesis using 1 drop_update [of i buf "n + 0x30"] unfolding d by (simp add: add.commute)
  next
    case False
    then have d: "decimal n = decimal (n div 10) @ [0x30 + n mod 10]" by (subst decimal.simps) simp
    let ?b = "buf[i - 1 := 0x30 + n mod 10]"
    have "digits_loop n (buf, i) = digits_loop (n div 10) (?b, i - 1)"
      using 1 False unfolding d by (subst digits_loop.simps) (auto simp: push_back_to_front_def add.commute)
    moreover have "0 \<le> n div 10" "length (decimal (n div 10)) < i - 1" "i - 1 \<le> length ?b"
      using 1(2-4) pos_imp_zdiv_nonneg_iff [of 10 n] unfolding d by auto
    from 1(1) [OF False this] obtain b' where "digits_loop (n div 10) (?b, i - 1) = Some (b', i - 1 - length (decimal (n div 10)))"
      "length b' = length ?b" "drop (i - 1 - length (decimal (n div 10))) b' = decimal (n div 10) @ drop (i - 1) ?b" by blast
    ultimately show ?thesis using 1 drop_update [of i buf "0x30 + n mod 10"] unfolding d by simp
  qed
qed

lemma SafeUnsignedAbs_abs:
  assumes "1 \<le> bits ty" "type_min ty \<le> v" "v \<le> type_max ty"
  shows "SafeUnsignedAbs ty v = \<bar>v\<bar>"
proof -
  have p: "(2::int) ^ bits ty = 2 * 2 ^ (bits ty - 1)" using assms(1) by (cases "bits ty") auto
  have "- v < 2 ^ bits ty" "v < 2 ^ bits ty" using assms p by (auto simp: type_min_def type_max_def split: if_splits)
  moreover have "(0 - v mod 2 ^ bits ty) mod 2 ^ bits ty = - v mod 2 ^ bits ty" by (simp add: mod_minus_eq)
  ultimately show ?thesis by (cases "v < 0") (simp_all add: SafeUnsignedAbs_def IsValueNegative_def)
qed

definition printed :: "int \<Rightarrow> int list" where
  "printed v = (if v < 0 then 0x2D # decimal (- v) else decimal v)"

lemma IntToString_printed:
  assumes ty: "ty \<in> {int_t, unsigned_t, int64_t, uint64_t}" and v: "type_min ty \<le> v" "v \<le> type_max ty"
  shows "IntToString ty v = Some (printed v)"
proof -
  let ?k = "3 * (bits ty div 8) + (if is_signed ty then 1 else 0) :: nat"
  have "\<bar>v\<bar> < 10 ^ (?k - 2)" using ty v by (auto simp: int_types type_min_def type_max_def)
  then have l: "length (decimal \<bar>v\<bar>) \<le> ?k - 2" and k: "12 \<le> ?k"
    using ty decimal_length [of "\<bar>v\<bar>" "?k - 2"] by (auto simp: int_types)
  have a: "SafeUnsignedAbs ty v = \<bar>v\<bar>" using SafeUnsignedAbs_abs [OF _ v] ty by (auto simp: int_types)
  have "length (decimal \<bar>v\<bar>) < ?k" using l k by linarith
  then obtain b where b: "digits_loop \<bar>v\<bar> (replicate ?k 0, ?k) = Some (b, ?k - length (decimal \<bar>v\<bar>))"
    "length b = ?k" "drop (?k - length (decimal \<bar>v\<bar>)) b = decimal \<bar>v\<bar>"
    using digits_loop_decimal [of "\<bar>v\<bar>" ?k "replicate ?k 0"] by auto
  let ?i = "?k - length (decimal \<bar>v\<bar>)"
  have i: "1 < ?i" "?i \<le> length b" using l k b(2) by linarith+
  show ?thesis
  proof (cases "v < 0")
    case True
    have "push_back_to_front 0x2D (b, ?i) = Some (b[?i - 1 := 0x2D], ?i - 1)"
      using i by (simp add: push_back_to_front_def)
    then show ?thesis using drop_update [of ?i b "0x2D"] i b True
      unfolding IntToString_def Let_def a by (simp add: IsValueNegative_def printed_def)
  next
    case False
    then show ?thesis using b unfolding IntToString_def Let_def a by (simp add: IsValueNegative_def printed_def)
  qed
qed

lemma printed_chars: "c \<in> set (printed v) \<Longrightarrow> c = 0x2D \<or> 0x30 \<le> c \<and> c \<le> 0x39"
  using decimal_digits [of v] decimal_digits [of "- v"] by (auto simp: printed_def split: if_splits)

lemma best_effort_printed:
  assumes s: "\<forall>c. c = 0x2D \<or> 0x30 \<le> c \<and> c \<le> 0x39 \<longrightarrow> \<not> space c" and v: "type_min ty \<le> v" "v \<le> type_max ty"
  shows "best_effort ty 10 space (printed v) = (True, v)"
proof -
  have ne: "printed v \<noteq> []" using decimal_nonempty by (auto simp: printed_def)
  have "\<not> space (hd (printed v))" using printed_chars [of "hd (printed v)" v] ne s by auto
  then have t: "dropWhile space (printed v) = printed v" by (cases "printed v") auto
  have dg: "takeWhile (digit 10) (decimal n) = decimal n" if "0 \<le> n" for n
    using decimal_digits [OF that] by (auto simp: takeWhile_eq_all_conv digit_def CharToDigit_def BaseCharToDigit_lte_10_def)
  have h: "hd (decimal n) \<noteq> 0x2D \<and> hd (decimal n) \<noteq> 0x2B" if "0 \<le> n" for n
    using decimal_digits [OF that] hd_in_set [OF decimal_nonempty, of n] by fastforce
  have sg: "is_signed ty" if "v < 0" using v that by (auto simp: type_min_def split: if_splits)
  show ?thesis
  proof (cases "v < 0")
    case True
    then show ?thesis using decimal_value [of "- v"] sg v decimal_nonempty [of "- v"]
      unfolding best_effort_def Let_def t take_1 by (simp add: printed_def without_0x_def dg)
  next
    case False
    then show ?thesis using decimal_value [of v] h [of v] v decimal_nonempty [of v]
      unfolding best_effort_def Let_def t take_1 by (simp add: printed_def without_0x_def dg)
  qed
qed

section \<open>Hexadecimal\<close>

lemma nibbles_of_char:
  "drop_bit 4 (sint b) AND 0xf = uint b div 16" "sint b AND 0xf = uint b mod 16" for b :: byte
proof -
  have "take_bit 8 (sint b) = uint b" using uint_sint [of b] by simp
  then have m: "sint b mod 256 = uint b" by (simp add: take_bit_eq_mod)
  then have "sint b mod 16 = uint b mod 16" using mod_mod_cancel [of 16 256 "sint b"] by simp
  moreover have "x AND 0xf = take_bit 4 x" for x :: int by (simp add: take_bit_eq_mask mask_numeral)
  moreover have "take_bit 4 (drop_bit 4 x) = drop_bit 4 (take_bit 8 x)" for x :: int by (simp add: take_bit_drop_bit)
  ultimately show "drop_bit 4 (sint b) AND 0xf = uint b div 16" "sint b AND 0xf = uint b mod 16"
    using m by (simp_all add: take_bit_eq_mod drop_bit_eq_div)
qed

lemma kHexChars_digit: "n < 16 \<Longrightarrow> CharToDigit 16 (sint (kHexChars ! n)) = Some (int n)"
proof -
  assume "n < 16"
  then have "n \<in> set [0..<16]" by simp
  moreover have "\<forall>n \<in> set [0..<16]. CharToDigit 16 (sint (kHexChars ! n)) = Some (int n)" by code_simp
  ultimately show ?thesis by blast
qed

lemma hex_byte:
  "CharToDigit 16 (sint (kHexChars ! nat (drop_bit 4 (sint b) AND 0xf))) = Some (uint b div 16)"
  "CharToDigit 16 (sint (kHexChars ! nat (sint b AND 0xf))) = Some (uint b mod 16)"
  "word_of_int (push_bit 4 (uint b div 16) OR uint b mod 16) = b" for b :: byte
proof -
  have b: "0 \<le> uint b" "uint b < 256" using unsigned_less [of b, where ?'a = int] by simp_all
  show "CharToDigit 16 (sint (kHexChars ! nat (drop_bit 4 (sint b) AND 0xf))) = Some (uint b div 16)"
    using b kHexChars_digit [of "nat (uint b div 16)"] by (simp add: nibbles_of_char nat_less_iff)
  show "CharToDigit 16 (sint (kHexChars ! nat (sint b AND 0xf))) = Some (uint b mod 16)"
    using kHexChars_digit [of "nat (uint b mod 16)"] by (simp add: nibbles_of_char nat_less_iff)
  show "word_of_int (push_bit 4 (uint b div 16) OR uint b mod 16) = b"
    using or_add [of "uint b mod 16" 4 "uint b div 16"] by simp
qed

lemma hex_bytes_of_HexEncode: "hex_bytes_loop (HexEncode bs) out = (True, out @ bs)"
  by (induction bs arbitrary: out) (simp_all add: HexEncode_def hex_byte)

lemma length_HexEncode: "length (HexEncode bs) = 2 * length bs"
  by (induction bs) (simp_all add: HexEncode_def)

section \<open>Properties\<close>

text \<open>
  C33: Parsing integers.  For each integer type, in base 10 and 16, and for any definition of white space, the conversion
  never overflows and gives exactly the best effort that \<open>string_number_conversions.h\<close> promises: the number that the
  string begins with, set to the largest or smallest value on overflow and underflow, and \<open>true\<close> exactly if the whole
  string is a number in range.
\<close>

theorem StringToInt_best_effort:
  assumes "ty \<in> {int_t, unsigned_t, int64_t, uint64_t}"
  shows "StringToIntImpl ty isspace s = Some (best_effort ty 10 (LocalIsWhitespace_char isspace) (map sint s)) \<and>
    HexStringToIntImpl ty isspace s = Some (best_effort ty 16 (LocalIsWhitespace_char isspace) (map sint s)) \<and>
    String16ToIntImpl ty iswspace t = Some (best_effort ty 10 iswspace (map uint t))"
  using parse_number [OF assms] by (simp add: StringToIntImpl_def HexStringToIntImpl_def String16ToIntImpl_def)

theorem StringToInt_best_effort_witness:
  "StringToIntImpl int_t (\<lambda>c. c = 0x20) [0x2D, 0x33, 0x30, 0x30, 0x30, 0x30, 0x30, 0x30, 0x30, 0x30, 0x30] = Some (False, - (2 ^ 31)) \<and>
   HexStringToIntImpl unsigned_t (\<lambda>c. c = 0x20) [0x30, 0x78, 0x66, 0x46] = Some (True, 255) \<and>
   String16ToIntImpl uint64_t (\<lambda>c. c = 0x20) [0x20, 0x37, 0x21] = Some (False, 7)"
proof -
  have "best_effort int_t 10 (LocalIsWhitespace_char (\<lambda>c. c = 0x20))
      (map sint [0x2D, 0x33, 0x30, 0x30, 0x30, 0x30, 0x30, 0x30, 0x30, 0x30, 0x30 :: byte]) = (False, - (2 ^ 31))" by code_simp
  moreover have "best_effort unsigned_t 16 (LocalIsWhitespace_char (\<lambda>c. c = 0x20)) (map sint [0x30, 0x78, 0x66, 0x46 :: byte]) = (True, 255)"
    by code_simp
  moreover have "best_effort uint64_t 10 (\<lambda>c. c = 0x20) (map uint [0x20, 0x37, 0x21 :: char16]) = (False, 7)" by code_simp
  ultimately show ?thesis
    using StringToInt_best_effort [of int_t] StringToInt_best_effort [of unsigned_t] StringToInt_best_effort [of uint64_t]
    by (simp only: insert_iff simp_thms)
qed

lemma printed_bytes: "map sint (map word_of_int (printed v) :: byte list) = printed v"
proof -
  have "sint (word_of_int c :: byte) = c" if "c \<in> set (printed v)" for c
    using printed_chars [OF that] by (auto simp: signed_of_int signed_take_bit_int_eq_self)
  then show ?thesis by (simp add: map_idI)
qed

lemma NumberToString_parses:
  assumes "ty \<in> {int_t, unsigned_t, int64_t, uint64_t}" and "type_min ty \<le> v" "v \<le> type_max ty"
  shows "NumberToString ty v = Some (map word_of_int (printed v))"
    and "\<forall>c. c = 0x2D \<or> 0x30 \<le> c \<and> c \<le> 0x39 \<longrightarrow> \<not> isspace c \<Longrightarrow>
      StringToIntImpl ty isspace (map word_of_int (printed v)) = Some (True, v)"
proof -
  show "NumberToString ty v = Some (map word_of_int (printed v))"
    by (simp add: NumberToString_def IntToString_printed [OF assms])
  assume "\<forall>c. c = 0x2D \<or> 0x30 \<le> c \<and> c \<le> 0x39 \<longrightarrow> \<not> isspace c"
  then have "best_effort ty 10 (LocalIsWhitespace_char isspace) (printed v) = (True, v)"
    using assms by (intro best_effort_printed) (auto simp: LocalIsWhitespace_char_def)
  then show "StringToIntImpl ty isspace (map word_of_int (printed v)) = Some (True, v)"
    unfolding StringToIntImpl_def parse_number [OF assms(1), of 10, simplified] by (simp add: printed_bytes del: map_map)
qed

text \<open>
  C34: Round trips of numbers and bytes.  Every value of every integer type fits the buffer of \<open>IntToString\<close>, and the
  string parses as that value, in both character widths, as long as digits and the minus sign are not white space;
  bytes written by \<open>HexEncode\<close> are read back by \<open>HexStringToBytes\<close>, except that no bytes at all are refused.
\<close>

theorem number_round_trip:
  assumes "ty \<in> {int_t, unsigned_t, int64_t, uint64_t}" and "type_min ty \<le> v" "v \<le> type_max ty"
    and "\<forall>c. c = 0x2D \<or> 0x30 \<le> c \<and> c \<le> 0x39 \<longrightarrow> \<not> isspace c \<and> \<not> iswspace c"
  shows "(\<exists>s. NumberToString ty v = Some s \<and> StringToIntImpl ty isspace s = Some (True, v)) \<and>
    (\<exists>t. NumberToString16 ty v = Some t \<and> String16ToIntImpl ty iswspace t = Some (True, v)) \<and>
    HexStringToBytes (HexEncode bs) = (bs \<noteq> [], bs)"
proof (intro conjI)
  note p = IntToString_printed [OF assms(1-3)] and q = parse_number [OF assms(1), of 10]
  have "uint (word_of_int c :: char16) = c" if "c \<in> set (printed v)" for c
    using printed_chars [OF that] by (auto simp: unsigned_of_int take_bit_int_eq_self)
  then have 16: "map uint (map word_of_int (printed v) :: char16 list) = printed v" by (simp add: map_idI)
  show "\<exists>s. NumberToString ty v = Some s \<and> StringToIntImpl ty isspace s = Some (True, v)"
    using NumberToString_parses [OF assms(1-3)] assms(4) by simp
  have "best_effort ty 10 iswspace (printed v) = (True, v)"
    using assms by (intro best_effort_printed) auto
  then show "\<exists>t. NumberToString16 ty v = Some t \<and> String16ToIntImpl ty iswspace t = Some (True, v)"
    unfolding NumberToString16_def p String16ToIntImpl_def q [simplified] by (simp add: 16 del: map_map)
  show "HexStringToBytes (HexEncode bs) = (bs \<noteq> [], bs)"
    by (auto simp: HexStringToBytes_def length_HexEncode hex_bytes_of_HexEncode)
qed

theorem number_round_trip_witness:
  "(\<exists>s. NumberToString int64_t (- 9223372036854775808) = Some s \<and>
      StringToIntImpl int64_t (\<lambda>c. c = 0x20) s = Some (True, - 9223372036854775808)) \<and>
   HexStringToBytes (HexEncode [0xab, 0x01]) = (True, [0xab, 0x01])"
  using number_round_trip [of int64_t "- 9223372036854775808" "\<lambda>c. c = 0x20" "\<lambda>c. c = 0x20" "[0xab, 0x01]"]
  by (simp add: int64_t_def type_min_def type_max_def)

end
