(* ===== verification/Version.thy ===== *)
theory Version
  imports String_Split String_Case Number_Strings
begin

text \<open>
  Version numbers (\<open>base/version.h\<close> and \<open>base/version.cc\<close>).

  A number is parsed by \<open>StringToUint\<close>, whose white space is the parameter \<open>isspace\<close> of the C library.  A failed \<open>DCHECK\<close>
  is the value \<open>None\<close>.
\<close>

section \<open>The program\<close>

text \<open>The numbers from \<open>it\<close> on; \<open>first\<close> says that \<open>it\<close> is the beginning.\<close>

fun parse_loop :: "(int \<Rightarrow> bool) \<Rightarrow> bool \<Rightarrow> byte list list \<Rightarrow> u32 list \<Rightarrow> (bool \<times> u32 list) option" where
  "parse_loop isspace first [] parsed = Some (True, parsed)"
| "parse_loop isspace first (it # numbers) parsed =
     (if StartsWith it [0x2B] SENSITIVE then Some (False, parsed)
      else (case StringToIntImpl unsigned_t isspace it of None \<Rightarrow> None
        | Some (ok, num) \<Rightarrow>
            if \<not> ok then Some (False, parsed)
            else if first \<and> NumberToString unsigned_t num \<noteq> Some it then Some (False, parsed)
            else parse_loop isspace False numbers (parsed @ [word_of_int num])))"

definition ParseVersionNumbers :: "(int \<Rightarrow> bool) \<Rightarrow> byte list \<Rightarrow> (bool \<times> u32 list) option" where
  "ParseVersionNumbers isspace version_str =
     (let numbers = SplitString8 version_str [0x2E] KEEP_WHITESPACE SPLIT_WANT_ALL
      in if numbers = [] then Some (False, []) else parse_loop isspace True numbers [])"

text \<open>The loop over the common components, and whether a component from \<open>i\<close> on is positive.\<close>

function compare_loop :: "u32 list \<Rightarrow> u32 list \<Rightarrow> nat \<Rightarrow> nat \<Rightarrow> int option" where
  "compare_loop components1 components2 n_common i =
     (if i < n_common
      then (if components2 ! i < components1 ! i then Some 1
            else if components1 ! i < components2 ! i then Some (- 1)
            else compare_loop components1 components2 n_common (i + 1))
      else None)"
  by pat_completeness auto
termination by (relation "measure (\<lambda>(components1, components2, n_common, i). n_common - i)") auto

function positive_loop :: "u32 list \<Rightarrow> nat \<Rightarrow> bool" where
  "positive_loop components i =
     (if i < length components then (if 0 < components ! i then True else positive_loop components (i + 1)) else False)"
  by pat_completeness auto
termination by (relation "measure (\<lambda>(components, i). length components - i)") auto

declare compare_loop.simps [simp del] positive_loop.simps [simp del]

definition CompareVersionComponents :: "u32 list \<Rightarrow> u32 list \<Rightarrow> int" where
  "CompareVersionComponents components1 components2 =
     (let n_common = min (length components1) (length components2)
      in case compare_loop components1 components2 n_common 0 of Some r \<Rightarrow> r
         | None \<Rightarrow>
             if length components2 < length components1 then (if positive_loop components1 n_common then 1 else 0)
             else if length components1 < length components2 then (if positive_loop components2 n_common then - 1 else 0)
             else 0)"

record Version =
  version_components :: "u32 list"

definition Version_string :: "(int \<Rightarrow> bool) \<Rightarrow> byte list \<Rightarrow> Version option" where
  "Version_string isspace version_str =
     (case ParseVersionNumbers isspace version_str of None \<Rightarrow> None
      | Some (ok, parsed) \<Rightarrow> Some \<lparr>version_components = (if ok then parsed else [])\<rparr>)"

definition Version_IsValid :: "Version \<Rightarrow> bool" where
  "Version_IsValid v \<longleftrightarrow> version_components v \<noteq> []"

definition IsValidWildcardString :: "(int \<Rightarrow> bool) \<Rightarrow> byte list \<Rightarrow> bool option" where
  "IsValidWildcardString isspace wildcard_string =
     (let version_string = (if EndsWith wildcard_string [0x2E, 0x2A] SENSITIVE
                            then take (length wildcard_string - 2) wildcard_string else wildcard_string)
      in map_option Version_IsValid (Version_string isspace version_string))"

definition CompareTo :: "Version \<Rightarrow> Version \<Rightarrow> int option" where
  "CompareTo v other =
     (if Version_IsValid v \<and> Version_IsValid other then Some (CompareVersionComponents (version_components v) (version_components other)) else None)"

function differ_loop :: "u32 list \<Rightarrow> u32 list \<Rightarrow> nat \<Rightarrow> nat \<Rightarrow> int" where
  "differ_loop components parsed min_num_comp i =
     (if i < min_num_comp then (if components ! i \<noteq> parsed ! i then 1 else differ_loop components parsed min_num_comp (i + 1))
      else 0)"
  by pat_completeness auto
termination by (relation "measure (\<lambda>(components, parsed, min_num_comp, i). min_num_comp - i)") auto

declare differ_loop.simps [simp del]

definition CompareToWildcardString :: "(int \<Rightarrow> bool) \<Rightarrow> Version \<Rightarrow> byte list \<Rightarrow> int option" where
  "CompareToWildcardString isspace v wildcard_string =
     (if \<not> Version_IsValid v \<or> IsValidWildcardString isspace wildcard_string \<noteq> Some True then None
      else if \<not> EndsWith wildcard_string [0x2E, 0x2A] SENSITIVE
      then (case Version_string isspace wildcard_string of None \<Rightarrow> None | Some version \<Rightarrow> CompareTo v version)
      else (case ParseVersionNumbers isspace (take (length wildcard_string - 2) wildcard_string) of None \<Rightarrow> None
        | Some (success, parsed) \<Rightarrow>
            if \<not> success then None
            else (let comparison = CompareVersionComponents (version_components v) parsed
                  in if comparison = - 1 \<or> comparison = 0 then Some comparison
                     else if length parsed = 0 then None
                     else Some (differ_loop (version_components v) parsed (min (length (version_components v)) (length parsed)) 0))))"

fun string_loop :: "u32 list \<Rightarrow> byte list \<Rightarrow> byte list option" where
  "string_loop [] version_str = None"
| "string_loop [c] version_str = map_option (\<lambda>s. version_str @ s) (NumberToString unsigned_t (uint c))"
| "string_loop (c # cs) version_str =
     (case NumberToString unsigned_t (uint c) of None \<Rightarrow> None | Some s \<Rightarrow> string_loop cs (version_str @ s @ [0x2E]))"

definition GetString :: "Version \<Rightarrow> byte list option" where
  "GetString v = (if Version_IsValid v then string_loop (version_components v) [] else None)"

definition version_eq :: "Version \<Rightarrow> Version \<Rightarrow> bool option" where
  "version_eq v1 v2 = map_option (\<lambda>r. r = 0) (CompareTo v1 v2)"

definition version_ne :: "Version \<Rightarrow> Version \<Rightarrow> bool option" where
  "version_ne v1 v2 = map_option Not (version_eq v1 v2)"

definition version_less :: "Version \<Rightarrow> Version \<Rightarrow> bool option" where
  "version_less v1 v2 = map_option (\<lambda>r. r < 0) (CompareTo v1 v2)"

definition version_le :: "Version \<Rightarrow> Version \<Rightarrow> bool option" where
  "version_le v1 v2 = map_option (\<lambda>r. r \<le> 0) (CompareTo v1 v2)"

definition version_greater :: "Version \<Rightarrow> Version \<Rightarrow> bool option" where
  "version_greater v1 v2 = map_option (\<lambda>r. 0 < r) (CompareTo v1 v2)"

definition version_ge :: "Version \<Rightarrow> Version \<Rightarrow> bool option" where
  "version_ge v1 v2 = map_option (\<lambda>r. 0 \<le> r) (CompareTo v1 v2)"

section \<open>The reference\<close>

text \<open>The components without the zeros at the end, in the lexicographic order.\<close>

fun significant :: "u32 list \<Rightarrow> u32 list" where
  "significant [] = []"
| "significant (c # cs) = (if c = 0 \<and> significant cs = [] then [] else c # significant cs)"

section \<open>Order\<close>

lemma positive_loop_significant: "positive_loop cs i \<longleftrightarrow> significant (drop i cs) \<noteq> []"
proof (induction "length cs - i" arbitrary: i)
  case 0
  then show ?case by (subst positive_loop.simps) simp
next
  case (Suc n)
  then have "drop i cs = cs ! i # drop (Suc i) cs" by (simp add: Cons_nth_drop_Suc)
  then show ?case using Suc.hyps(1) [of "Suc i"] Suc.hyps(2)
    by (subst positive_loop.simps) (auto simp: word_gt_0)
qed

lemma compare_loop_Cons: "compare_loop (x # cs) (y # ds) (Suc n) (Suc i) = compare_loop cs ds n i"
  by (induction cs ds n i rule: compare_loop.induct) (subst compare_loop.simps, subst (2) compare_loop.simps, simp)

lemma CompareVersionComponents_Cons:
  "CompareVersionComponents (x # cs) (y # ds) = (if y < x then 1 else if x < y then - 1 else CompareVersionComponents cs ds)"
  by (subst CompareVersionComponents_def, subst compare_loop.simps)
    (simp add: compare_loop_Cons CompareVersionComponents_def positive_loop_significant Let_def min_def)

lemma CompareVersionComponents_Nil:
  "CompareVersionComponents [] ds = (if significant ds = [] then 0 else - 1)"
  "CompareVersionComponents cs [] = (if significant cs = [] then 0 else 1)"
  by (auto simp: CompareVersionComponents_def compare_loop.simps positive_loop_significant)

interpretation version: three_way CompareVersionComponents significant
proof
  show "CompareVersionComponents cs ds = sign_of (significant cs) (significant ds)" for cs ds
  proof (induction cs ds rule: list_induct2')
    case (4 x cs y ds)
    then show ?case by (auto simp: CompareVersionComponents_Cons sign_of_def Nil_less word_gt_0)
  qed (auto simp: CompareVersionComponents_Nil sign_of_def Nil_less)
qed

lemma differ_loop_Cons: "differ_loop (x # cs) (y # ds) (Suc n) (Suc i) = differ_loop cs ds n i"
  by (induction cs ds n i rule: differ_loop.induct) (subst differ_loop.simps, subst (2) differ_loop.simps, simp)

text \<open>A version with the components of the wildcard in front is equal to it; otherwise the wildcard has no effect.\<close>

lemma differ_loop_wildcard:
  assumes "CompareVersionComponents cs ds = 1"
  shows "differ_loop cs ds (min (length cs) (length ds)) 0 = (if take (length ds) cs = ds then 0 else 1)"
  using assms
proof (induction cs ds rule: list_induct2')
  case (4 x cs y ds)
  then show ?case
    by (subst differ_loop.simps) (auto simp: CompareVersionComponents_Cons differ_loop_Cons split: if_splits)
qed (auto simp: CompareVersionComponents_Nil differ_loop.simps split: if_splits)

lemma prefix_not_less: "take (length ds) cs = ds \<Longrightarrow> CompareVersionComponents cs ds \<noteq> - 1"
  by (induction cs ds rule: list_induct2') (auto simp: CompareVersionComponents_Cons CompareVersionComponents_Nil)

section \<open>Printing and parsing\<close>

definition number :: "u32 \<Rightarrow> byte list" where
  "number c = map word_of_int (printed (uint c))"

definition text_of :: "u32 list \<Rightarrow> byte list" where
  "text_of cs = joined [0x2E] (map number cs)"

lemma u32_range: "type_min unsigned_t \<le> uint c" "uint c \<le> type_max unsigned_t" for c :: u32
  using unsigned_less [of c, where ?'a = int] by (simp_all add: unsigned_t_def type_min_def type_max_def)

lemmas number_parses = NumberToString_parses [of unsigned_t, OF _ u32_range, folded number_def, simplified]

lemma number_digits: "x \<in> set (number c) \<Longrightarrow> 0x30 \<le> uint x \<and> uint x \<le> 0x39"
  using decimal_digits [of "uint c"] by (auto simp: number_def printed_def unsigned_of_int take_bit_int_eq_self)

lemma number_nonempty: "number c \<noteq> []"
  using decimal_nonempty [of "uint c"] by (simp add: number_def printed_def)

lemma number_avoids: "0x2E \<notin> set (number c)" "0x2B \<notin> set (number c)" "0x2A \<notin> set (number c)"
  using number_digits [of _ c] by fastforce+

lemma number_StartsWith: "\<not> StartsWith (number c) [0x2B] SENSITIVE"
  using number_avoids(2) [of c] by (cases "number c") (auto simp: StartsWith_def StartsWithT_prefix)

lemma string_loop_text: "cs \<noteq> [] \<Longrightarrow> string_loop cs s = Some (s @ text_of cs)"
  by (induction cs s rule: string_loop.induct) (auto simp: text_of_def joined_def number_parses)

lemma parse_loop_numbers:
  assumes "\<forall>c. c = 0x2D \<or> 0x30 \<le> c \<and> c \<le> 0x39 \<longrightarrow> \<not> isspace c"
  shows "parse_loop isspace first (map number cs) parsed = Some (True, parsed @ cs)"
  by (induction cs arbitrary: first parsed) (simp_all add: number_StartsWith number_parses assms)

lemma ParseVersionNumbers_text:
  assumes "\<forall>c. c = 0x2D \<or> 0x30 \<le> c \<and> c \<le> 0x39 \<longrightarrow> \<not> isspace c" and "cs \<noteq> []" and "length (text_of cs) < npos"
  shows "ParseVersionNumbers isspace (text_of cs) = Some (True, cs)"
proof -
  have "text_of cs \<noteq> []" using assms(2) by (cases cs) (auto simp: text_of_def joined_def number_nonempty)
  moreover have "pieces (\<lambda>x. x = 0x2E) (text_of cs) = map number cs"
    unfolding text_of_def using assms(2) number_avoids(1) by (intro pieces_joined) auto
  ultimately have "SplitString8 (text_of cs) [0x2E] KEEP_WHITESPACE SPLIT_WANT_ALL = map number cs"
    using assms(3) by (simp add: SplitString_wanted)
  then show ?thesis using assms by (simp add: ParseVersionNumbers_def parse_loop_numbers)
qed

lemma text_no_star: "0x2A \<notin> set (text_of cs)"
  using number_avoids(3) by (cases cs) (auto simp: text_of_def joined_def)

lemma text_EndsWith:
  "\<not> EndsWith (text_of cs) [0x2E, 0x2A] SENSITIVE" "EndsWith (text_of cs @ [0x2E, 0x2A]) [0x2E, 0x2A] SENSITIVE"
  using text_no_star [of cs] by (auto simp: EndsWith_def EndsWithT_suffix suffix_def)

lemma parse_loop_total: "parse_loop isspace first numbers parsed \<noteq> None"
  by (induction isspace first numbers parsed rule: parse_loop.induct)
    (auto simp: StringToIntImpl_def parse_number split: prod.splits)

text \<open>
  C39: Versions are printed and parsed back.  The string of a valid version is parsed as that version, and it is a valid
  wildcard string with and without the wildcard behind it, provided that it is shorter than \<open>npos\<close> and digits and the
  minus sign are not white space; every string is parsed without undefined behaviour.
\<close>

theorem version_round_trip:
  assumes "Version_IsValid v" and "\<forall>c. c = 0x2D \<or> 0x30 \<le> c \<and> c \<le> 0x39 \<longrightarrow> \<not> isspace c"
  shows "(\<exists>s. GetString v = Some s \<and> (length s < npos \<longrightarrow>
      Version_string isspace s = Some v \<and> IsValidWildcardString isspace s = Some True \<and>
      IsValidWildcardString isspace (s @ [0x2E, 0x2A]) = Some True)) \<and>
    Version_string isspace str \<noteq> None"
proof -
  have "GetString v = Some (text_of (version_components v))"
    using assms(1) string_loop_text [of "version_components v" "[]"] by (simp add: GetString_def Version_IsValid_def)
  moreover have "Version_string isspace (text_of (version_components v)) = Some v" if "length (text_of (version_components v)) < npos"
    using assms that by (simp add: Version_string_def ParseVersionNumbers_text Version_IsValid_def)
  moreover have "Version_string isspace str \<noteq> None"
    by (auto simp: Version_string_def ParseVersionNumbers_def Let_def parse_loop_total split: option.splits if_splits)
  ultimately show ?thesis using assms(1) by (auto simp: IsValidWildcardString_def text_EndsWith)
qed

theorem version_round_trip_witness:
  "\<exists>s. GetString \<lparr>version_components = [1, 20]\<rparr> = Some s \<and> Version_string (\<lambda>c. c = 0x20) s = Some \<lparr>version_components = [1, 20]\<rparr>"
proof -
  have g: "GetString \<lparr>version_components = [1, 20]\<rparr> = Some [0x31, 0x2E, 0x32, 0x30]" by code_simp
  then show ?thesis
    using version_round_trip [of "\<lparr>version_components = [1, 20]\<rparr>" "\<lambda>c. c = 0x20"] by (auto simp: Version_IsValid_def npos_def)
qed

text \<open>
  C40: The order of versions.  Valid versions are compared as their lists of components without the zeros at the end, in the
  lexicographic order; so the operators are those of a total preorder.  Compared with a wildcard string, a version that
  begins with the components in front of the wildcard is equal, and any other version is compared as if there
  were no wildcard.
\<close>

theorem version_order:
  assumes "Version_IsValid u" "Version_IsValid v" "Version_IsValid w" and "GetString w = Some s" and "length s < npos"
    and "\<forall>c. c = 0x2D \<or> 0x30 \<le> c \<and> c \<le> 0x39 \<longrightarrow> \<not> isspace c"
  shows "let a = significant (version_components v); b = significant (version_components w) in
    CompareTo v w = Some (sign_of a b) \<and> CompareTo w v = Some (- sign_of a b) \<and>
    version_eq v w = Some (a = b) \<and> version_ne v w = Some (a \<noteq> b) \<and>
    version_less v w = Some (a < b) \<and> version_le v w = Some (a \<le> b) \<and>
    version_greater v w = Some (b < a) \<and> version_ge v w = Some (b \<le> a) \<and>
    (version_le u v = Some True \<and> version_le v w = Some True \<longrightarrow> version_le u w = Some True) \<and>
    CompareToWildcardString isspace v s = CompareTo v w \<and>
    CompareToWildcardString isspace v (s @ [0x2E, 0x2A]) =
      Some (if take (length (version_components w)) (version_components v) = version_components w then 0 else sign_of a b)"
proof -
  let ?v = "version_components v" and ?w = "version_components w"
  have s: "s = text_of ?w"
    using assms(3,4) string_loop_text [of ?w "[]"] by (simp add: GetString_def Version_IsValid_def)
  have p: "ParseVersionNumbers isspace s = Some (True, ?w)"
    using assms(3,5,6) s by (simp add: ParseVersionNumbers_text Version_IsValid_def)
  have "Version_string isspace s = Some w" by (simp add: Version_string_def p)
  then have w: "CompareToWildcardString isspace v s = CompareTo v w"
    using assms(2,3) by (simp add: CompareToWildcardString_def IsValidWildcardString_def s text_EndsWith)
  have "CompareToWildcardString isspace v (s @ [0x2E, 0x2A]) =
      Some (if take (length ?w) ?v = ?w then 0 else sign_of (significant ?v) (significant ?w))"
    using assms(2,3) p prefix_not_less [of ?w ?v] differ_loop_wildcard [of ?v ?w] version.compare_key [of ?v ?w]
    by (auto simp: CompareToWildcardString_def IsValidWildcardString_def Version_string_def s text_EndsWith Version_IsValid_def
        sign_of_def Let_def split: if_splits)
  then show ?thesis using assms(1-3) w version.flip [of ?w ?v] version.le_trans [of "version_components u" ?v ?w]
    by (auto simp: CompareTo_def Let_def version.compare_key version_eq_def version_ne_def version_less_def version_le_def
        version_greater_def version_ge_def sign_of_def)
qed

theorem version_order_witness:
  "version_less \<lparr>version_components = [1, 2]\<rparr> \<lparr>version_components = [1, 10]\<rparr> = Some True \<and>
    CompareToWildcardString (\<lambda>c. c = 0x20) \<lparr>version_components = [1, 2]\<rparr> [0x31, 0x2E, 0x31, 0x30, 0x2E, 0x2A] = Some (- 1)"
proof -
  have g: "GetString \<lparr>version_components = [1, 10]\<rparr> = Some [0x31, 0x2E, 0x31, 0x30]" by code_simp
  show ?thesis
    using version_order [of "\<lparr>version_components = [1]\<rparr>" "\<lparr>version_components = [1, 2]\<rparr>", OF _ _ _ g, of "\<lambda>c. c = 0x20"]
    by (auto simp: Version_IsValid_def npos_def sign_of_def Let_def)
qed

end
