(* ===== verification/Spec2Isabelle.thy ===== *)
theory Spec2Isabelle
  imports Node_Protocol Pickle Circular_Deque Intrusive_Heap Sha1 Md5 Pattern Version
begin

text \<open>
  A verification of parts of libchrome (the library \<open>base\<close> of Chromium and the \<open>mojo\<close> IPC system).

  \<^medskip>\<^bold>\<open>The program's parts and how they interact.\<close>
  Mojo carries messages between processes.  Its lowest layer (\<open>src/mojo/core/ports\<close>) is a graph of ports on nodes: a
  port has a peer, perhaps on another node; user messages are numbered by the sender and queued by the receiver; a port
  that is sent inside a message leaves a proxy behind, which forwards messages and later removes itself by a protocol of
  control events.  The layers above send the serialized events over channels.  \<open>base\<close> provides what all of them are
  built of: containers (\<open>circular_deque\<close>, the heap of the task scheduler), serialization (\<open>Pickle\<close>), digests (SHA-1,
  MD5), and strings (UTF conversions, number conversions, wildcard patterns).

  \<^medskip>\<^bold>\<open>Theories and the code they model.\<close>
  \<^item> \<open>Libchrome_Prelude\<close>: machine types (\<open>byte\<close>, \<open>u32\<close>, \<open>u64\<close>, \<open>usize\<close>), little-endian images of integers, the
    locale \<open>codec\<close> for packed structs, generic lemmas on lists and words.
  \<^item> \<open>Binary_Heap\<close>: \<open>std::push_heap\<close> and \<open>std::pop_heap\<close>, which the message queue calls; the locale \<open>heap_ops\<close>
    is the contract that the queue relies on.
  \<^item> \<open>Port_Event\<close>: \<open>name.h\<close>, \<open>name.cc\<close>, \<open>event.h\<close>, \<open>event.cc\<close>, \<open>user_message.h\<close>.  The datatype \<open>Event\<close> has a
    constructor per event class; \<open>Serialize\<close> and \<open>Deserialize\<close> work on bytes.
  \<^item> \<open>Message_Queue\<close>: \<open>message_queue.h\<close> and \<open>message_queue.cc\<close> (record \<open>MessageQueue\<close>).
  \<^item> \<open>Port_Node\<close>: \<open>port.h\<close>, \<open>port_ref.h\<close>, \<open>port_locker.cc\<close> and the first half of \<open>node.cc\<close>: the record \<open>Port\<close>, the
    record \<open>Node\<close> (port objects by address, the table \<open>ports_\<close> as a list, the calls to the delegate as a log, names
    that are still to be drawn from \<open>GenerateRandomPortName\<close>), the public methods and the sending of messages.
  \<^item> \<open>Node_Handlers\<close>: the event handlers of \<open>node.cc\<close>, merging, the loss of a connection, \<open>AcceptEvent\<close>.
  \<^item> \<open>Pickle\<close>: \<open>src/base/pickle.h\<close>, \<open>pickle.cc\<close>, \<open>bits.h\<close>.
  \<^item> \<open>Circular_Deque\<close>: \<open>src/base/containers/circular_deque.h\<close> and \<open>vector_buffer.h\<close>, with the lifetime of the objects
    in the buffer: a cell is \<open>None\<close> when it holds no constructed object, and an operation that constructs over an object
    or reads an empty cell gives \<open>None\<close>.
  \<^item> \<open>Intrusive_Heap\<close>: \<open>src/base/task/sequence_manager/intrusive_heap.h\<close>.
  \<^item> \<open>Message_Blocks\<close>, \<open>Sha1\<close>, \<open>Md5\<close>: \<open>src/base/sha1.cc\<close>, \<open>src/base/md5.cc\<close>, \<open>sys_byteorder.h\<close>, and the two
    digests as the standards define them.
  \<^item> \<open>Icu_Utf\<close>, \<open>Utf_Encoding\<close>, \<open>String_Ascii\<close>, \<open>Utf_Conversions\<close>: \<open>src/base/third_party/icu\<close>, the ASCII test of
    \<open>src/base/strings/string_util.cc\<close>, \<open>utf_string_conversions.cc\<close> and \<open>utf_string_conversion_utils.cc\<close>.
  \<^item> \<open>Pattern\<close>: \<open>src/base/strings/pattern.cc\<close>.
  \<^item> \<open>Number_Strings\<close>: \<open>src/base/strings/string_number_conversions.cc\<close>.
  \<^item> \<open>String_Replace\<close>, \<open>String_Piece\<close>, \<open>String_Split\<close>: replacing, trimming and joining in
    \<open>src/base/strings/string_util.cc\<close>, the searches of \<open>string_piece.cc\<close>, and \<open>string_split.cc\<close>.
  \<^item> \<open>String_Case\<close>: ASCII case, prefixes and suffixes in \<open>string_util.cc\<close>; the locale \<open>three_way\<close> for comparisons.
  \<^item> \<open>Version\<close>: \<open>src/base/version.cc\<close>.

  \<^medskip>\<^bold>\<open>What the lemmas show.\<close>
  \<^item> Ports, one node: the invariant of the port table and of every queue holds after any sequence of methods and events,
    and ports only move forward in their life cycle (\<open>Node_Invariant\<close>); a pair of ports refines a FIFO list, and closing
    one end loses no message (\<open>Node_Channel\<close>).
  \<^item> Ports, the protocol: a port survives its transfer to another node, a proxy forwards in order and leaves, removal on a
    cycle of three ports ends with the neighbours connected, the loss of a node closes every port that depended on it, a
    failed send has no effect; two defects of the forwarding path (\<open>Node_Protocol\<close>).
  \<^item> Events and queues: decoding inverts encoding and never leaves the buffer; messages are handed out in order, once each,
    and completely; the queue stalls when the counter outgrows 32 bits.
  \<^item> Pickle: what is written is read back, every pointer handed out lies inside the data for any bytes received, framing.
  \<^item> Containers: the deque refines a list for every sequence of operations, the intrusive heap is a priority queue whose
    handles are right.
  \<^item> Digests: the streaming implementations equal the standards however the message is cut.
  \<^item> Strings: the UTF conversions equal decoding followed by encoding, stay inside the buffer and round trip; the test of
    machine words equals the test of characters; wildcard matching is sound, and complete for patterns it can search
    greedily; number parsing is the documented best effort, and printing round trips.
  \<^item> Replacing and searching: the in-place and the copying routines give the string with its matches replaced from left to
    right, the searches give the first or last index, splitting and joining are inverse.  Comparison without case is
    the order of the lower-case strings.
  \<^item> Versions: printing and parsing are inverse, and the order is the lexicographic one without trailing zeros.

  \<^medskip>\<^bold>\<open>Modelling conventions.\<close>
  Undefined behaviour, failed \<open>CHECK\<close>s and \<open>DCHECK\<close>s are the value \<open>None\<close>, or a branch of their own where the code goes
  on after them.  Unsigned integers are words, or naturals and integers with the wrap-around written out.  Locks are not
  modelled: one method of a node runs at a time; that no lock is taken twice by one thread is part of the model
  (\<open>PortLocker\<close>).  A little-endian target with 64-bit pointers and a 32-bit \<open>wchar_t\<close> is assumed.

  \<^medskip>\<^bold>\<open>Fuel and termination.\<close>
  \<open>ClosePort\<close> and \<open>DestroyAllPortsWithPeer\<close> recurse through the ports of undelivered messages and through proxies; their
  models have a depth, and a depth of the number of ports in the table is enough, since each nested call has removed a
  port before (\<open>recursions_end\<close>).  \<open>ForwardUserMessagesFromProxy\<close> ends because
  every iteration takes a message off a queue.  The loops of \<open>Pattern\<close> are partial functions that are shown to end.  All
  other loops are structural or have a measure.

  \<^medskip>\<^bold>\<open>Not modelled.\<close>
  \<^item> Everything that is a wrapper of the operating system: files, processes, shared memory, sockets, clocks, logging,
    tracing, crash handling (\<open>src/base/files\<close>, \<open>process\<close>, \<open>posix\<close>, \<open>debug\<close>, \<open>time\<close>, \<open>trace_event\<close>, \<open>metrics\<close>,
    \<open>src/device\<close>, \<open>src/dbus\<close>, \<open>src/crypto\<close>): their behaviour is that of code outside the repository.
  \<^item> Concurrency: threads, locks, message loops and task schedulers (\<open>src/base/threading\<close>, \<open>synchronization\<close>,
    \<open>message_loop\<close>, \<open>task\<close>, \<open>task_scheduler\<close>); the heap of the sequence manager is modelled as a data structure.
  \<^item> Callbacks, reference counts and weak pointers (\<open>bind.h\<close>, \<open>callback.h\<close>, \<open>src/base/memory\<close>): template machinery whose
    content is the C++ type system.
  \<^item> Mojo above the ports layer (\<open>node_controller.cc\<close>, channels, dispatchers, the bindings in \<open>src/mojo/public\<close>) and the
    legacy \<open>src/ipc\<close>: they combine the ports with threads, handles and generated code.
  \<^item> JSON and \<open>Value\<close> trees, floating-point conversions, \<open>src/ui/gfx\<close>, \<open>src/components\<close>: not reached by this development.
  \<^item> Tests, build files and third-party code other than the ICU macros.
\<close>

end
